(* ===== verification/Treeless_Prelude.thy ===== *)
theory Treeless_Prelude
  imports Main "HOL-Library.Word"
begin

unbundle bit_operations_syntax

text \<open>
  What the components share: the machine integers of the Go code, the outcome of a Go
  call (it returns, it panics, or it never returns), slicing with Go's bounds checks, the
  slice type with its capacity, the little-endian encodings of package
  \<open>encoding/binary\<close>, instants of package \<open>time\<close>, and the generic lemmas on lists and words
  the component proofs rest on.

  The collection \<open>go_simps\<close> holds the rules that run a sequence of Go statements;
  \<open>word_nat\<close> holds the rules that read machine integers as natural numbers.
\<close>

named_theorems go_simps
named_theorems word_nat

type_synonym byte = "8 word"
type_synonym bytes = "8 word list"
type_synonym u16 = "16 word"
type_synonym u32 = "32 word"
type_synonym u64 = "64 word"

section \<open>Outcome of a Go call\<close>

text \<open>
  A run-time panic carries its reason. \<open>Loop\<close> is the outcome of a loop that never leaves:
  the code does not return.
\<close>

datatype panic = OutOfRange | NilPointer | DivideByZero | Raised string

datatype 'a go = Ret 'a | Panic panic | Loop

primrec bindG :: "'a go \<Rightarrow> ('a \<Rightarrow> 'b go) \<Rightarrow> 'b go" where
  "bindG (Ret x) f = f x"
| "bindG (Panic p) f = Panic p"
| "bindG Loop f = Loop"

primrec is_ret :: "'a go \<Rightarrow> bool" where
  "is_ret (Ret x) = True"
| "is_ret (Panic p) = False"
| "is_ret Loop = False"

text \<open>An \<open>error\<close> of the code: the text of \<open>errors.New\<close>, with \<open>None\<close> for \<open>nil\<close>.\<close>

type_synonym err = "string option"

section \<open>Numerals\<close>

text \<open>Decimal numerals, as \<open>fmt.Sprint\<close> prints integers.\<close>

fun dec_nat :: "nat \<Rightarrow> string" where
  "dec_nat n = (if n < 10 then [char_of (48 + n)] else dec_nat (n div 10) @ [char_of (48 + n mod 10)])"

declare dec_nat.simps [simp del]

definition dec_int :: "int \<Rightarrow> string" where
  "dec_int i = (if i < 0 then CHR ''-'' # dec_nat (nat (- i)) else dec_nat (nat i))"

section \<open>Slices\<close>

text \<open>
  \<open>bs[a:b]\<close> and \<open>bs[a:]\<close> on a slice whose capacity is its length.
\<close>

definition slice_of :: "'a list \<Rightarrow> nat \<Rightarrow> nat \<Rightarrow> 'a list go" where
  "slice_of bs a b =
     (if a \<le> b \<and> b \<le> length bs then Ret (take (b - a) (drop a bs)) else Panic OutOfRange)"

definition slice_from :: "'a list \<Rightarrow> nat \<Rightarrow> 'a list go" where
  "slice_from bs a = (if a \<le> length bs then Ret (drop a bs) else Panic OutOfRange)"

definition index_of :: "'a list \<Rightarrow> nat \<Rightarrow> 'a go" where
  "index_of xs i = (if i < length xs then Ret (xs ! i) else Panic OutOfRange)"

definition store_at :: "'a list \<Rightarrow> nat \<Rightarrow> 'a \<Rightarrow> 'a list go" where
  "store_at xs i v = (if i < length xs then Ret (xs[i := v]) else Panic OutOfRange)"

text \<open>An index of type \<open>int\<close>, and a loop over a list whose body may panic.\<close>

definition index_int :: "'a list \<Rightarrow> int \<Rightarrow> 'a go" where
  "index_int xs i = (if 0 \<le> i \<and> nat i < length xs then Ret (xs ! nat i) else Panic OutOfRange)"

fun foldG :: "('a \<Rightarrow> 's \<Rightarrow> 's go) \<Rightarrow> 'a list \<Rightarrow> 's \<Rightarrow> 's go" where
  "foldG f [] s = Ret s"
| "foldG f (x # xs) s = bindG (f x s) (foldG f xs)"

text \<open>
  A slice into a larger array: \<open>sarr\<close> is the backing array from the first element of
  the slice up to the capacity, \<open>slen\<close> the length. Reslicing is bounded by the capacity,
  not by the length.
\<close>

record slice =
  sarr :: bytes
  slen :: nat

definition content :: "slice \<Rightarrow> bytes" where
  "content s = take (slen s) (sarr s)"

definition reslice :: "slice \<Rightarrow> nat \<Rightarrow> nat \<Rightarrow> bytes go" where
  "reslice s a b = slice_of (sarr s) a b"

text \<open>\<open>copy(dst[at:], src)\<close> for a destination region of \<open>n\<close> bytes inside \<open>f\<close>.\<close>

definition copy_at :: "'a list \<Rightarrow> nat \<Rightarrow> nat \<Rightarrow> 'a list \<Rightarrow> 'a list" where
  "copy_at f at n src =
     take at f @ take (min n (length src)) src @ drop (at + min n (length src)) f"

section \<open>Little-endian encodings\<close>

primrec le_bytes :: "nat \<Rightarrow> 'a::len word \<Rightarrow> bytes" where
  "le_bytes 0 w = []"
| "le_bytes (Suc n) w = ucast w # le_bytes n (drop_bit 8 w)"

primrec le_word :: "bytes \<Rightarrow> 'a::len word" where
  "le_word [] = 0"
| "le_word (b # bs) = ucast b OR push_bit 8 (le_word bs)"

text \<open>
  \<open>binary.LittleEndian.Uint32(b)\<close> reads the first four bytes of \<open>b\<close> and panics when there
  are fewer; \<open>PutUint32\<close> overwrites them. Likewise for the other widths.
\<close>

definition Uint16 :: "bytes \<Rightarrow> u16 go" where
  "Uint16 b = (if 2 \<le> length b then Ret (le_word (take 2 b)) else Panic OutOfRange)"

definition Uint32 :: "bytes \<Rightarrow> u32 go" where
  "Uint32 b = (if 4 \<le> length b then Ret (le_word (take 4 b)) else Panic OutOfRange)"

definition Uint64 :: "bytes \<Rightarrow> u64 go" where
  "Uint64 b = (if 8 \<le> length b then Ret (le_word (take 8 b)) else Panic OutOfRange)"

definition put_bytes :: "bytes \<Rightarrow> nat \<Rightarrow> bytes \<Rightarrow> bytes go" where
  "put_bytes f at bs =
     (if at + length bs \<le> length f then Ret (take at f @ bs @ drop (at + length bs) f)
      else Panic OutOfRange)"

abbreviation le16 :: "u16 \<Rightarrow> bytes" where "le16 \<equiv> le_bytes 2"
abbreviation le32 :: "u32 \<Rightarrow> bytes" where "le32 \<equiv> le_bytes 4"
abbreviation le64 :: "u64 \<Rightarrow> bytes" where "le64 \<equiv> le_bytes 8"

section \<open>Instants\<close>

text \<open>
  A \<open>time.Time\<close> is an instant, in nanoseconds since the Unix epoch; the zero value of the
  type is midnight of January 1st of year 1. \<open>time.Unix(0, int64(x))\<close> reads a 64-bit
  stamp as two's complement.
\<close>

type_synonym time = int

definition zero_time :: time where
  "zero_time = - 62135596800 * 1000000000"

definition second :: time where
  "second = 1000000000"

definition unix_nano :: "u64 \<Rightarrow> time" where
  "unix_nano x = sint x"

text \<open>\<open>t.Unix()\<close>: whole seconds, rounded towards minus infinity.\<close>

definition unix_sec :: "time \<Rightarrow> int" where
  "unix_sec t = t div second"

section \<open>Lemmas: outcomes\<close>

lemma bindG_cong [fundef_cong]:
  "m = m' \<Longrightarrow> (\<And>x. m' = Ret x \<Longrightarrow> f x = g x) \<Longrightarrow> bindG m f = bindG m' g"
  by (cases m') auto

lemma bindG_eq_Ret: "bindG m f = Ret y \<longleftrightarrow> (\<exists>x. m = Ret x \<and> f x = Ret y)"
  by (cases m) auto

lemma bindG_Ret_right [simp]: "bindG m Ret = m"
  by (cases m) auto

lemma bindG_assoc: "bindG (bindG m f) g = bindG m (\<lambda>x. bindG (f x) g)"
  by (cases m) auto

lemma foldG_append: "foldG f (xs @ ys) s = bindG (foldG f xs s) (foldG f ys)"
proof (induction xs arbitrary: s)
  case (Cons x xs)
  then show ?case by (cases "f x s") simp_all
qed simp

lemma foldG_cong [fundef_cong]:
  "xs = ys \<Longrightarrow> s = s' \<Longrightarrow> (\<And>x s. x \<in> set ys \<Longrightarrow> f x s = g x s) \<Longrightarrow> foldG f xs s = foldG g ys s'"
proof (induction xs arbitrary: ys s s')
  case (Cons x xs)
  then show ?case by (cases "g x s") auto
qed auto

text \<open>A loop whose body keeps \<open>P\<close> ends with \<open>P\<close>.\<close>

lemma foldG_inv:
  assumes "\<And>x s. x \<in> set xs \<Longrightarrow> P s \<Longrightarrow> \<exists>s'. f x s = Ret s' \<and> P s'" and "P s"
  shows "\<exists>s'. foldG f xs s = Ret s' \<and> P s'"
  using assms
proof (induction xs arbitrary: s)
  case (Cons x xs)
  obtain s1 where "f x s = Ret s1" "P s1" using Cons.prems(1) [of x s] Cons.prems(2) by auto
  then show ?case using Cons by simp
qed simp

lemma is_ret_iff: "is_ret m \<longleftrightarrow> (\<exists>x. m = Ret x)"
  by (cases m) auto

declare bindG.simps [go_simps]

section \<open>Lemmas: slices\<close>

lemma slice_of_Ret: "a \<le> b \<Longrightarrow> b \<le> length bs \<Longrightarrow> slice_of bs a b = Ret (take (b - a) (drop a bs))"
  by (simp add: slice_of_def)

lemma index_of_Ret: "i < length xs \<Longrightarrow> index_of xs i = Ret (xs ! i)"
  by (simp add: index_of_def)

lemma store_at_Ret: "i < length xs \<Longrightarrow> store_at xs i v = Ret (xs[i := v])"
  by (simp add: store_at_def)

lemma put_bytes_Ret:
  "at + length bs \<le> length f \<Longrightarrow>
     put_bytes f at bs = Ret (take at f @ bs @ drop (at + length bs) f)"
  by (simp add: put_bytes_def)

lemma length_copy_at [simp]: "at + n \<le> length f \<Longrightarrow> length (copy_at f at n src) = length f"
  by (simp add: copy_at_def)

text \<open>Overwriting the head of what follows a prefix.\<close>

lemma put_bytes_append:
  "length old = length new \<Longrightarrow> put_bytes (p @ old @ r) (length p) new = Ret (p @ new @ r)"
  by (simp add: put_bytes_def)

lemma copy_at_append:
  "length old = length src \<Longrightarrow> n = length src \<Longrightarrow>
     copy_at (p @ old @ r) (length p) n src = p @ src @ r"
  by (simp add: copy_at_def)

lemma take_drop_append_mid:
  "take (length m) (drop (length p) (p @ m @ r)) = m"
  by simp

section \<open>Lemmas: little-endian encodings\<close>

lemma length_le_bytes [simp]: "length (le_bytes n w) = n"
  by (induction n arbitrary: w) auto

lemma bit_le_word_le_bytes:
  fixes w :: "'a::len word"
  shows "bit (le_word (le_bytes n w) :: 'a word) i \<longleftrightarrow> i < 8 * n \<and> bit w i"
proof (induction n arbitrary: w i)
  case 0
  then show ?case by simp
next
  case (Suc n)
  show ?case
  proof (cases "i < 8")
    case True
    then show ?thesis
      by (auto simp: bit_or_iff bit_push_bit_iff bit_ucast_iff dest: bit_imp_le_length)
  next
    case False
    then have "bit (ucast w :: byte) i = False"
      by (auto dest: bit_imp_le_length)
    with False show ?thesis
      by (auto simp: bit_or_iff bit_push_bit_iff bit_ucast_iff bit_drop_bit_eq Suc.IH
          dest: bit_imp_le_length)
  qed
qed

lemma le_word_le_bytes:
  fixes w :: "'a::len word"
  assumes "LENGTH('a) \<le> 8 * n"
  shows "le_word (le_bytes n w) = w"
proof (rule bit_word_eqI)
  fix i
  assume "i < LENGTH('a)"
  with assms show "bit (le_word (le_bytes n w) :: 'a word) i = bit w i"
    by (simp add: bit_le_word_le_bytes)
qed

lemma le16_inverse [simp]: "le_word (le16 w) = w"
  by (rule le_word_le_bytes) simp

lemma le32_inverse [simp]: "le_word (le32 w) = w"
  by (rule le_word_le_bytes) simp

lemma le64_inverse [simp]: "le_word (le64 w) = w"
  by (rule le_word_le_bytes) simp

lemma Uint16_le16 [simp]: "Uint16 (le16 w @ r) = Ret w"
  by (simp add: Uint16_def)

lemma Uint32_le32 [simp]: "Uint32 (le32 w @ r) = Ret w"
  by (simp add: Uint32_def)

lemma Uint64_le64 [simp]: "Uint64 (le64 w @ r) = Ret w"
  by (simp add: Uint64_def)

lemma Uint32_le32_exact [simp]: "Uint32 (le32 w) = Ret w"
  by (simp add: Uint32_def)

section \<open>Lemmas: machine integers\<close>

lemma unat_of_nat_small [word_nat]: "n < 2 ^ LENGTH('a) \<Longrightarrow> unat (of_nat n :: 'a::len word) = n"
  by (simp add: unat_of_nat)

lemma unat_of_nat_u32 [word_nat]: "n < 4294967296 \<Longrightarrow> unat (of_nat n :: u32) = n"
  by (rule unat_of_nat_small) simp

lemma unat_of_nat_u64 [word_nat]: "n < 18446744073709551616 \<Longrightarrow> unat (of_nat n :: u64) = n"
  by (rule unat_of_nat_small) simp

lemma unat_plus_small:
  fixes a b :: "'a::len word"
  assumes "unat a + unat b < 2 ^ LENGTH('a)"
  shows "unat (a + b) = unat a + unat b"
  using assms by (simp add: unat_word_ariths)

lemma word_of_unat: "unat w = n \<Longrightarrow> w = of_nat n"
  by (drule sym) simp

lemma unat_and_mask:
  fixes x m :: "'a::len word"
  assumes "m = mask k"
  shows "unat (x AND m) = unat x mod 2 ^ k"
proof -
  have "unat (take_bit k x) = take_bit k (unat x)"
    by (rule unsigned_take_bit_eq)
  then show ?thesis
    by (simp add: assms take_bit_eq_mask [symmetric] take_bit_eq_mod [of k "unat x"])
qed

lemma unat_ucast_u32_u64 [simp]: "unat (ucast (x :: u32) :: u64) = unat x"
  by (simp add: unsigned_ucast_eq take_bit_nat_eq_self order_less_le_trans [OF unsigned_less])

end
