(* ===== verification/Core_Locks.thy ===== *)
theory Core_Locks
  imports Treeless_Prelude
begin

text \<open>
  The mutexes of a server (src/core/core.go, src/core/defrag.go): the global read-write mutex of the
  core, the mutex of each chunk and the one that keeps the defragmenter away from a chunk. A
  call is the sequence of its locking actions; the calls of all goroutines interleave. What the
  calls do to the data between these actions is the subject of the theories of the core.
\<close>

section \<open>Mutexes\<close>

text \<open>\<open>CoreW\<close> and \<open>CoreR\<close> are \<open>c.mutex\<close> locked for writing and for reading.\<close>

datatype lock = CoreW | CoreR | DefragL nat | ChunkL nat

fun clash :: "lock \<Rightarrow> lock \<Rightarrow> bool" where
  "clash CoreW CoreW = True"
| "clash CoreW CoreR = True"
| "clash CoreR CoreW = True"
| "clash (DefragL i) (DefragL j) = (i = j)"
| "clash (ChunkL i) (ChunkL j) = (i = j)"
| "clash _ _ = False"

text \<open>
  A writer of a \<open>sync.RWMutex\<close> first announces itself, which holds new readers back, and
  then waits for its turn.
\<close>

datatype act = Want | Acq lock | Rel lock

abbreviation locked :: "lock \<Rightarrow> act list" where
  "locked l \<equiv> [Acq l, Rel l]"

section \<open>Calls\<close>

text \<open>
  The calls of the core, by their locking. The operations on a key, and \<open>LengthOfChunk\<close>, are
  \<open>CChunk\<close> with the number of the chunk; \<open>CSetFlag\<close> is one of \<open>ChunkSetPresent\<close>, \<open>ChunkSetNoPresent\<close> and
  \<open>ChunkSetProtected\<close>. An iteration has the number of its calls of the callback, or \<open>None\<close>
  when the chunk is not present; \<open>CList\<close> has the chunks that it finds present.
\<close>

datatype core_call =
    COpen nat | CClose nat
  | CReadFlag
  | CList "nat list"
  | CSetFlag nat
  | CExpire nat
  | CChunk nat
  | CIterate nat "nat option"
  | CBackwards nat "nat option"
  | CDefrag nat

definition callbacks :: "nat \<Rightarrow> nat \<Rightarrow> act list" where
  "callbacks i k = concat (replicate k [Rel (ChunkL i), Acq (ChunkL i)])"

fun locking :: "core_call \<Rightarrow> act list" where
  "locking (COpen n) = concat (map (\<lambda>i. locked (ChunkL i)) [0..<n])"
| "locking (CClose n) = concat (map (\<lambda>i. locked (ChunkL i)) [0..<n])"
| "locking CReadFlag = locked CoreR"
| "locking (CList is) = [Acq CoreR] @ concat (map (\<lambda>i. locked (ChunkL i)) is) @ [Rel CoreR]"
| "locking (CSetFlag i) = [Want, Acq CoreW, Acq (ChunkL i), Rel CoreW, Rel (ChunkL i)]"
| "locking (CExpire i) = [Want, Acq CoreW, Acq (ChunkL i), Rel (ChunkL i), Rel CoreW]"
| "locking (CChunk i) = locked (ChunkL i)"
| "locking (CIterate i None) = locked (ChunkL i)"
| "locking (CIterate i (Some k)) = [Acq (ChunkL i)] @ callbacks i k @ [Rel (ChunkL i)]"
| "locking (CBackwards i None) = locked (ChunkL i)"
| "locking (CBackwards i (Some k)) = [Acq (ChunkL i), Acq (DefragL i)] @ callbacks i k @ [Rel (ChunkL i), Rel (DefragL i)]"
| "locking (CDefrag i) = [Acq (DefragL i), Acq (ChunkL i), Rel (ChunkL i), Rel (DefragL i)]"

section \<open>Interleaving\<close>

record gor =
  held :: "lock list"
  todo :: "act list"

definition spawn :: "core_call \<Rightarrow> gor" where
  "spawn c = \<lparr>held = [], todo = locking c\<rparr>"

text \<open>
  \<open>may gs t\<close>: the next action of goroutine \<open>t\<close> can happen now. \<open>sure gs t\<close>: it can happen whatever
  the order in which the runtime serves readers and announced writers.
\<close>

definition may :: "gor list \<Rightarrow> nat \<Rightarrow> bool" where
  "may gs t \<longleftrightarrow> (case todo (gs ! t) of
       [] \<Rightarrow> False
     | Acq l # _ \<Rightarrow> (\<forall>g \<in> set gs. \<forall>l' \<in> set (held g). \<not> clash l' l)
     | _ \<Rightarrow> True)"

definition announced :: "gor list \<Rightarrow> bool" where
  "announced gs \<longleftrightarrow> (\<exists>g \<in> set gs. case todo g of Acq l # _ \<Rightarrow> l = CoreW | _ \<Rightarrow> False)"

definition sure :: "gor list \<Rightarrow> nat \<Rightarrow> bool" where
  "sure gs t \<longleftrightarrow> may gs t \<and> (case todo (gs ! t) of Acq l # _ \<Rightarrow> l = CoreR \<longrightarrow> \<not> announced gs | _ \<Rightarrow> True)"

definition move :: "gor \<Rightarrow> gor" where
  "move g = (case todo g of
       [] \<Rightarrow> g
     | Want # r \<Rightarrow> g\<lparr>todo := r\<rparr>
     | Acq l # r \<Rightarrow> g\<lparr>held := l # held g, todo := r\<rparr>
     | Rel l # r \<Rightarrow> g\<lparr>held := remove1 l (held g), todo := r\<rparr>)"

inductive lock_run :: "gor list \<Rightarrow> gor list \<Rightarrow> nat \<Rightarrow> bool" for gs0 where
  run_start: "lock_run gs0 gs0 0"
| run_step: "lock_run gs0 gs n \<Longrightarrow> t < length gs \<Longrightarrow> may gs t \<Longrightarrow> lock_run gs0 (gs[t := move (gs ! t)]) (Suc n)"

section \<open>Specification\<close>

text \<open>The actions of a set of goroutines that are still to come.\<close>

definition remaining :: "gor list \<Rightarrow> nat" where
  "remaining gs = sum_list (map (\<lambda>g. length (todo g)) gs)"

definition mentions :: "core_call \<Rightarrow> lock \<Rightarrow> bool" where
  "mentions c l \<longleftrightarrow> Acq l \<in> set (locking c)"

text \<open>While a chunk is iterated backwards, no other call takes its defragmentation mutex.\<close>

definition alone :: "core_call list \<Rightarrow> bool" where
  "alone cs \<longleftrightarrow> (\<forall>p < length cs. \<forall>q < length cs. p \<noteq> q \<longrightarrow>
     (case cs ! p of CBackwards i (Some k) \<Rightarrow> \<not> mentions (cs ! q) (DefragL i) | _ \<Rightarrow> True))"

section \<open>Lemmas: the order of the mutexes\<close>

fun level :: "lock \<Rightarrow> nat" where
  "level CoreW = 0"
| "level CoreR = 0"
| "level (DefragL i) = 1"
| "level (ChunkL i) = 2"

lemma clash_level: "clash a b \<Longrightarrow> level a = level b"
  by (induction a b rule: clash.induct) auto

text \<open>
  A goroutine takes a mutex only above those it holds, unless it is one of \<open>U\<close>, which nobody else takes;
  it releases what it holds, and holds nothing at the end.
\<close>

fun ordered :: "lock set \<Rightarrow> lock list \<Rightarrow> act list \<Rightarrow> bool" where
  "ordered U h [] = (h = [])"
| "ordered U h (Want # r) = ordered U h r"
| "ordered U h (Acq l # r) = ((l \<in> U \<and> l \<notin> set h \<or> (\<forall>l' \<in> set h. level l' < level l)) \<and> ordered U (l # h) r)"
| "ordered U h (Rel l # r) = ordered U (remove1 l h) r"

definition takes :: "gor \<Rightarrow> lock set" where
  "takes g = set (held g) \<union> {l. Acq l \<in> set (todo g)}"

definition lock_inv :: "lock set \<Rightarrow> gor list \<Rightarrow> bool" where
  "lock_inv U gs \<longleftrightarrow> (\<forall>g \<in> set gs. ordered U (held g) (todo g)) \<and> U \<subseteq> range DefragL
     \<and> (\<forall>l \<in> U. \<forall>t < length gs. \<forall>u < length gs. l \<in> takes (gs ! t) \<longrightarrow> l \<in> takes (gs ! u) \<longrightarrow> t = u)"

lemma ordered_move: "ordered U (held g) (todo g) \<Longrightarrow> ordered U (held (move g)) (todo (move g))"
  by (auto simp: move_def split: list.split act.split)

lemma takes_move: "takes (move g) \<subseteq> takes g"
  by (auto simp: takes_def move_def split: list.split act.split dest: notin_set_remove1 set_remove1_subset [THEN subsetD])

lemma lock_inv_step:
  assumes "lock_inv U gs" and "t < length gs"
  shows "lock_inv U (gs[t := move (gs ! t)])"
proof -
  have "takes (gs[t := move (gs ! t)] ! u) \<subseteq> takes (gs ! u)" if "u < length gs" for u
    using takes_move that assms(2) by (cases "u = t") auto
  then show ?thesis
    using assms unfolding lock_inv_def
    by (auto simp: ordered_move dest!: set_update_subset_insert [THEN subsetD]) (meson subsetD)
qed

lemma lock_inv_run: "lock_run gs0 gs n \<Longrightarrow> lock_inv U gs0 \<Longrightarrow> lock_inv U gs"
  by (induction rule: lock_run.induct) (auto intro: lock_inv_step)

lemma length_run: "lock_run gs0 gs n \<Longrightarrow> length gs = length gs0"
  by (induction rule: lock_run.induct) auto


lemma remaining_step:
  assumes "t < length gs" and "may gs t"
  shows "Suc (remaining (gs[t := move (gs ! t)])) = remaining gs"
proof -
  have "length (todo (gs ! t)) = Suc (length (todo (move (gs ! t))))"
    using assms(2) by (auto simp: may_def move_def split: list.splits act.splits)
  moreover have "remaining (gs[t := g]) + length (todo (gs ! t)) = remaining gs + length (todo g)" for g
    using assms(1) unfolding remaining_def
  proof (induction gs arbitrary: t)
    case (Cons g' gs)
    then show ?case by (cases t) (auto simp: add.assoc)
  qed simp
  ultimately show ?thesis by (metis add_Suc_right add_Suc add_right_cancel)
qed

lemma remaining_run: "lock_run gs0 gs n \<Longrightarrow> n + remaining gs = remaining gs0"
proof (induction rule: lock_run.induct)
  case (run_step gs n t)
  then show ?case using remaining_step [of t gs] by simp
qed simp

section \<open>Lemmas: progress\<close>

lemma waits_above:
  assumes "lock_inv U gs" and "g \<in> set gs" and "todo g = Acq l # r" and "l \<notin> U"
  shows "\<forall>l' \<in> set (held g). level l' < level l"
  using assms by (force simp: lock_inv_def)

lemma holder_waits:
  assumes "lock_inv U gs" and "g \<in> set gs" and "l \<in> set (held g)"
  shows "todo g \<noteq> []"
  using assms by (force simp: lock_inv_def)

definition awaits :: "gor list \<Rightarrow> nat \<Rightarrow> lock \<Rightarrow> bool" where
  "awaits gs t l \<longleftrightarrow> t < length gs \<and> (\<exists>r. todo (gs ! t) = Acq l # r)"

definition blocked :: "gor list \<Rightarrow> lock \<Rightarrow> bool" where
  "blocked gs l \<longleftrightarrow> (\<exists>u < length gs. \<exists>l' \<in> set (held (gs ! u)). clash l' l)"

lemma announced_awaits: "announced gs \<longleftrightarrow> (\<exists>u. awaits gs u CoreW)"
proof -
  have "(case todo g of Acq l # _ \<Rightarrow> l = CoreW | _ \<Rightarrow> False) \<longleftrightarrow> (\<exists>r. todo g = Acq CoreW # r)" for g
    by (auto split: list.split act.split)
  then show ?thesis by (metis announced_def awaits_def in_set_conv_nth)
qed

text \<open>When nobody can go on, everybody waits for a mutex that somebody holds.\<close>

lemma stuck_awaits:
  assumes "\<forall>t < length gs. \<not> sure gs t" and "t < length gs" and "todo (gs ! t) \<noteq> []"
  shows "\<exists>l. awaits gs t l"
  using assms by (cases "todo (gs ! t)") (auto simp: awaits_def sure_def may_def split: act.splits)

lemma stuck_blocked:
  assumes "\<forall>t < length gs. \<not> sure gs t" and "awaits gs t l"
  shows "l = CoreR \<and> announced gs \<or> blocked gs l"
proof -
  have free: "(\<forall>g \<in> set gs. \<forall>l' \<in> set (held g). \<not> clash l' l) \<longleftrightarrow> \<not> blocked gs l"
    by (simp add: blocked_def all_set_conv_all_nth)
  show ?thesis using assms by (auto simp: awaits_def sure_def may_def free)
qed

lemma own_not_blocked:
  assumes "lock_inv U gs" and "awaits gs t l" and "l \<in> U"
  shows "\<not> blocked gs l"
proof
  assume "blocked gs l"
  then obtain u l' where u: "u < length gs" "l' \<in> set (held (gs ! u))" "clash l' l" by (auto simp: blocked_def)
  obtain i where i: "l = DefragL i" using assms(1,3) by (auto simp: lock_inv_def)
  then have l': "l' = l" using u(3) by (cases l') auto
  obtain r where t: "t < length gs" "todo (gs ! t) = Acq l # r" using assms(2) by (auto simp: awaits_def)
  have "u = t" using assms(1,3) u(1,2) t l' by (simp add: lock_inv_def takes_def)
  then have "l \<in> set (held (gs ! t))" using u(2) l' by simp
  moreover have "ordered U (held (gs ! t)) (Acq l # r)" using assms(1) t by (metis lock_inv_def nth_mem)
  ultimately show False by force
qed

lemma blocked_below:
  assumes "lock_inv U gs" and "\<forall>t < length gs. \<not> sure gs t" and "blocked gs l"
  obtains u l2 where "awaits gs u l2" and "level l < level l2"
proof -
  from assms(3) obtain u l' where u: "u < length gs" "l' \<in> set (held (gs ! u))" "clash l' l" by (auto simp: blocked_def)
  have "todo (gs ! u) \<noteq> []" using holder_waits assms(1) u(1,2) nth_mem by blast
  then obtain l2 where l2: "awaits gs u l2" using stuck_awaits assms(2) u(1) by blast
  have "l2 \<notin> U"
    using stuck_blocked [OF assms(2) l2] own_not_blocked [OF assms(1) l2] assms(1) by (auto simp: lock_inv_def)
  then have "level l' < level l2" using waits_above assms(1) l2 u(1,2) nth_mem by (metis awaits_def)
  then show thesis using that l2 clash_level [OF u(3)] by simp
qed

lemma stuck_climbs:
  assumes "lock_inv U gs" and "\<forall>t < length gs. \<not> sure gs t" and "awaits gs t l"
  shows "\<exists>u l2. awaits gs u l2 \<and> level l < level l2"
proof (cases "blocked gs l")
  case True
  then show ?thesis using blocked_below assms(1,2) by metis
next
  case False
  then obtain u where "l = CoreR" "awaits gs u CoreW"
    using stuck_blocked [OF assms(2,3)] by (auto simp: announced_awaits)
  moreover then have "blocked gs CoreW" using stuck_blocked [OF assms(2), of u CoreW] by simp
  ultimately show ?thesis using blocked_below assms(1,2) by (metis level.simps(1,2))
qed

lemma not_stuck:
  assumes "lock_inv U gs" and "\<forall>t < length gs. \<not> sure gs t"
  shows "\<forall>g \<in> set gs. todo g = []"
proof (rule ccontr)
  assume "\<not> ?thesis"
  then obtain t0 where "t0 < length gs" "todo (gs ! t0) \<noteq> []" by (auto simp: in_set_conv_nth)
  then obtain l0 where l0: "awaits gs t0 l0" using stuck_awaits assms(2) by blast
  have "\<exists>t l. awaits gs t l \<and> n \<le> level l" for n
  proof (induction n)
    case 0
    then show ?case using l0 by blast
  next
    case (Suc n)
    then obtain t l where tl: "awaits gs t l" "n \<le> level l" by blast
    from stuck_climbs [OF assms tl(1)] obtain u l2 where "awaits gs u l2" "level l < level l2" by blast
    then show ?case using tl(2) by (intro exI [of _ u] exI [of _ l2]) simp
  qed
  from this [of 3] obtain l where "3 \<le> level l" by blast
  then show False by (cases l) auto
qed

section \<open>Lemmas: the calls keep the order\<close>

lemma ordered_callbacks:
  "\<forall>l \<in> set h. level l < 2 \<Longrightarrow> ordered U (ChunkL i # h) (callbacks i k @ r) = ordered U (ChunkL i # h) r"
  by (induction k) (auto simp: callbacks_def)

lemma ordered_sweep:
  "\<forall>l \<in> set h. level l < 2 \<Longrightarrow> ordered U h (concat (map (\<lambda>i. locked (ChunkL i)) is) @ r) = ordered U h r"
  by (induction "is") auto

lemma ordered_backwards:
  assumes "DefragL i \<in> U"
  shows "ordered U [] (locking (CBackwards i (Some k)))"
proof (cases k)
  case 0
  then show ?thesis using assms by (simp add: callbacks_def)
next
  case (Suc m)
  have "callbacks i (Suc m) @ r = Rel (ChunkL i) # Acq (ChunkL i) # callbacks i m @ r" for r by (simp add: callbacks_def)
  then show ?thesis using assms Suc by (simp add: ordered_callbacks [of "[DefragL i]"])
qed

lemma ordered_locking:
  assumes "\<And>i k. c = CBackwards i (Some k) \<Longrightarrow> DefragL i \<in> U"
  shows "ordered U [] (locking c)"
proof (cases c)
  case (CIterate i k)
  then show ?thesis using ordered_callbacks [of "[]"] by (cases k) auto
next
  case (CBackwards i k)
  then show ?thesis using assms ordered_backwards by (cases k) auto
next
  case (COpen n)
  then show ?thesis using ordered_sweep [of "[]" U "[0..<n]" "[]"] by simp
next
  case (CClose n)
  then show ?thesis using ordered_sweep [of "[]" U "[0..<n]" "[]"] by simp
qed (auto simp: ordered_sweep)

lemma start_inv:
  assumes "alone cs"
  shows "\<exists>U. lock_inv U (map spawn cs)"
proof -
  define U where "U = {DefragL i |i. \<exists>k. CBackwards i (Some k) \<in> set cs}"
  have ord: "ordered U [] (locking c)" if "c \<in> set cs" for c
    using that by (intro ordered_locking) (auto simp: U_def)
  have takes: "takes (spawn c) = {l. mentions c l}" for c
    by (simp add: takes_def spawn_def mentions_def)
  have "t = u" if l: "l \<in> U" "t < length cs" "u < length cs" "mentions (cs ! t) l" "mentions (cs ! u) l" for l t u
  proof -
    obtain i k p where p: "l = DefragL i" "p < length cs" "cs ! p = CBackwards i (Some k)"
      using l(1) by (auto simp: U_def in_set_conv_nth)
    have "q = p" if "q < length cs" "mentions (cs ! q) l" for q
    proof (rule ccontr)
      assume "q \<noteq> p"
      then have "case cs ! p of CBackwards i (Some k) \<Rightarrow> \<not> mentions (cs ! q) (DefragL i) | _ \<Rightarrow> True"
        using assms p(2) that(1) unfolding alone_def by blast
      then show False using p that(2) by simp
    qed
    then show ?thesis using l by metis
  qed
  moreover have "U \<subseteq> range DefragL" by (auto simp: U_def)
  moreover have "held (spawn c) = []" "todo (spawn c) = locking c" for c by (simp_all add: spawn_def)
  ultimately have "lock_inv U (map spawn cs)" using ord by (simp add: lock_inv_def takes)
  then show ?thesis ..
qed

section \<open>Properties\<close>

text \<open>
  C17: The server does not deadlock on its mutexes as long as no chunk is iterated backwards while its
  defragmentation mutex is wanted by another call. Whatever calls run at the same time
  and however they interleave, in every state that they reach, all of them have returned and
  released what they took, or one of them can go on, whether the runtime prefers readers
  or writers. They go on for no more than the number of their locking actions.
\<close>

theorem core_locks_progress:
  assumes "alone cs" and "lock_run (map spawn cs) gs n"
  shows "n + remaining gs = sum_list (map (\<lambda>c. length (locking c)) cs)
    \<and> ((\<forall>g \<in> set gs. todo g = [] \<and> held g = []) \<or> (\<exists>t < length gs. sure gs t))"
proof
  show "n + remaining gs = sum_list (map (\<lambda>c. length (locking c)) cs)"
    using remaining_run [OF assms(2)] by (simp add: remaining_def spawn_def comp_def)
  obtain U where inv: "lock_inv U gs" using start_inv [OF assms(1)] lock_inv_run [OF assms(2)] by blast
  then have "held g = []" if "g \<in> set gs" "todo g = []" for g using that by (force simp: lock_inv_def)
  then show "(\<forall>g \<in> set gs. todo g = [] \<and> held g = []) \<or> (\<exists>t < length gs. sure gs t)"
    using not_stuck [OF inv] by blast
qed

definition ex_calls :: "core_call list" where
  "ex_calls = [CBackwards 1 (Some 2), CDefrag 0, CSetFlag 1, CList [0, 1]]"

lemma ex_run: "lock_run (map spawn ex_calls) ((map spawn ex_calls)[3 := move (map spawn ex_calls ! 3)]) 1"
proof -
  have "may (map spawn ex_calls) 3" by (simp add: may_def ex_calls_def spawn_def)
  then show ?thesis using run_step [OF run_start, of 3 "map spawn ex_calls"] by (simp add: ex_calls_def)
qed

theorem core_locks_progress_witness:
  "alone ex_calls \<and> (\<exists>gs. lock_run (map spawn ex_calls) gs 1 \<and> remaining gs = 22 \<and> (\<exists>t < length gs. sure gs t))"
proof -
  have al: "alone ex_calls"
    by (auto simp: alone_def ex_calls_def mentions_def less_Suc_eq nth_Cons')
  let ?gs = "(map spawn ex_calls)[3 := move (map spawn ex_calls ! 3)]"
  have len: "sum_list (map (\<lambda>c. length (locking c)) ex_calls) = 23" by (simp add: ex_calls_def callbacks_def numeral_2_eq_2)
  have "todo (hd ?gs) \<noteq> []" by (simp add: ex_calls_def spawn_def)
  moreover have "hd ?gs \<in> set ?gs" by (simp add: ex_calls_def)
  ultimately show ?thesis using core_locks_progress [OF al ex_run] al ex_run len by (intro conjI exI [of _ ?gs]) auto
qed

section \<open>The deadlock\<close>

text \<open>A backwards iteration of chunk \<open>i\<close> and its defragmentation, each waiting for the other.\<close>

definition crossed :: "gor list \<Rightarrow> nat \<Rightarrow> nat \<Rightarrow> nat \<Rightarrow> bool" where
  "crossed gs p q i \<longleftrightarrow> p < length gs \<and> q < length gs
     \<and> held (gs ! p) = [ChunkL i] \<and> awaits gs p (DefragL i) \<and> held (gs ! q) = [DefragL i] \<and> awaits gs q (ChunkL i)"

lemma holds_back:
  assumes "awaits gs t l" and "u < length gs" and "l \<in> set (held (gs ! u))" and "clash l l"
  shows "\<not> may gs t"
proof -
  have "gs ! u \<in> set gs" using assms(2) by simp
  then show ?thesis using assms(1,3,4) by (auto simp: may_def awaits_def)
qed

lemma crossed_blocked:
  assumes "crossed gs p q i"
  shows "\<not> may gs p \<and> \<not> may gs q"
  using assms holds_back [of gs p "DefragL i" q] holds_back [of gs q "ChunkL i" p] by (simp add: crossed_def)

lemma crossed_stays:
  assumes "lock_run gs0 gs n" and "crossed gs0 p q i"
  shows "crossed gs p q i \<and> gs ! p = gs0 ! p \<and> gs ! q = gs0 ! q"
  using assms
proof (induction rule: lock_run.induct)
  case (run_step gs n t)
  then have "t \<noteq> p" "t \<noteq> q" using crossed_blocked by blast+
  then show ?case using run_step by (auto simp: crossed_def awaits_def)
qed simp

lemma reach_crossed:
  assumes "p < length cs" and "q < length cs" and "cs ! p = CBackwards i (Some k)" and "cs ! q = CDefrag i"
  shows "\<exists>gs. lock_run (map spawn cs) gs 2 \<and> crossed gs p q i"
proof -
  let ?g0 = "map spawn cs"
  let ?g1 = "?g0[p := move (?g0 ! p)]"
  let ?g2 = "?g1[q := move (?g1 ! q)]"
  have ne: "p \<noteq> q" using assms(3,4) by auto
  have "may ?g0 p" using assms by (simp add: may_def spawn_def)
  then have 1: "lock_run ?g0 ?g1 1" using run_step [OF run_start, of p ?g0] assms(1) by simp
  have p: "?g1 ! p = \<lparr>held = [ChunkL i], todo = Acq (DefragL i) # callbacks i k @ [Rel (ChunkL i), Rel (DefragL i)]\<rparr>"
    using assms by (simp add: spawn_def move_def)
  have q: "?g1 ! q = spawn (CDefrag i)" using assms ne by simp
  have "held g = [] \<or> held g = [ChunkL i]" if "g \<in> set ?g1" for g
    using set_update_subset_insert that p assms(1) by (fastforce simp: spawn_def)
  then have "may ?g1 q" using q by (fastforce simp: may_def spawn_def)
  then have 2: "lock_run ?g0 ?g2 2" using run_step [OF 1, of q] assms(2) by (simp add: numeral_2_eq_2)
  have "?g2 ! p = ?g1 ! p" "?g2 ! q = move (spawn (CDefrag i))" using assms ne by simp_all
  then have "crossed ?g2 p q i" using assms p by (simp add: crossed_def awaits_def spawn_def move_def)
  then show ?thesis using 2 by blast
qed

text \<open>
  C37: A backwards iteration and the defragmentation of the same chunk can deadlock: they take the two
  mutexes of the chunk in opposite orders. Whatever else runs, two steps lead to a state in
  which both hold one of the mutexes and wait for the other, and in no continuation does
  either of them move, so that the chunk stays locked for ever.
\<close>

theorem defrag_deadlock:
  assumes "p < length cs" and "q < length cs" and "cs ! p = CBackwards i (Some k)" and "cs ! q = CDefrag i"
  shows "\<exists>gs. lock_run (map spawn cs) gs 2 \<and> (\<forall>gs' n. lock_run gs gs' n \<longrightarrow>
    ChunkL i \<in> set (held (gs' ! p)) \<and> gs' ! p = gs ! p \<and> gs' ! q = gs ! q \<and> \<not> may gs' p \<and> \<not> may gs' q)"
proof -
  obtain gs where gs: "lock_run (map spawn cs) gs 2" "crossed gs p q i" using reach_crossed [OF assms] by blast
  have "ChunkL i \<in> set (held (gs' ! p)) \<and> gs' ! p = gs ! p \<and> gs' ! q = gs ! q \<and> \<not> may gs' p \<and> \<not> may gs' q"
    if "lock_run gs gs' n" for gs' n
  proof -
    have c: "crossed gs' p q i" "gs' ! p = gs ! p" "gs' ! q = gs ! q" using crossed_stays [OF that gs(2)] by blast+
    then have "held (gs' ! p) = [ChunkL i]" by (simp add: crossed_def)
    then show ?thesis using c crossed_blocked [OF c(1)] by simp
  qed
  then show ?thesis using gs(1) by blast
qed

theorem defrag_deadlock_witness:
  "\<exists>gs. lock_run (map spawn [CChunk 3, CBackwards 3 (Some 1), CDefrag 3]) gs 2 \<and> \<not> may gs 1 \<and> \<not> may gs 2"
  using defrag_deadlock [of 1 "[CChunk 3, CBackwards 3 (Some 1), CDefrag 3]" 2 3 1] run_start by force

end
