(* ===== verification/Hashing.thy ===== *)
theory Hashing
  imports Treeless_Prelude
begin

text \<open>
  Package \<open>hashing\<close> (src/hashing/hashing.go): the 64-bit FNV-1a hash of a key and the
  chunk a key belongs to. The client and the server core both route keys with it.
\<close>

section \<open>Definitions\<close>

definition offset64 :: u64 where
  "offset64 = 14695981039346656037"

definition prime64 :: u64 where
  "prime64 = 1099511628211"

definition fnv_step :: "byte \<Rightarrow> u64 \<Rightarrow> u64" where
  "fnv_step c h = (h XOR ucast c) * prime64"

definition FNV1a64 :: "bytes \<Rightarrow> u64" where
  "FNV1a64 b = fold fnv_step b offset64"

text \<open>
  \<open>int((h >> 32) % uint64(numChunks))\<close>; Go panics on a division by zero.
\<close>

definition GetChunkID :: "bytes \<Rightarrow> int \<Rightarrow> int go" where
  "GetChunkID b numChunks =
     (let h = FNV1a64 b; m = (word_of_int numChunks :: u64)
      in if m = 0 then Panic DivideByZero else Ret (sint (drop_bit 32 h mod m)))"

section \<open>Lemmas\<close>

lemma FNV1a64_Nil: "FNV1a64 [] = offset64"
  by (simp add: FNV1a64_def)

lemma FNV1a64_append: "FNV1a64 (a @ b) = fold fnv_step b (FNV1a64 a)"
  by (simp add: FNV1a64_def)

text \<open>One byte is mixed in without loss: a step is injective in the running hash.\<close>

lemma prime64_inverse: "prime64 * 14886173955864302971 = 1"
  by (simp add: prime64_def)

lemma fnv_step_inj: "fnv_step c h = fnv_step c h' \<Longrightarrow> h = h'"
proof -
  assume "fnv_step c h = fnv_step c h'"
  then have "(h XOR ucast c) * (prime64 * 14886173955864302971)
      = (h' XOR ucast c) * (prime64 * 14886173955864302971)"
    by (simp add: fnv_step_def mult.assoc [symmetric])
  then have "h XOR ucast c = h' XOR ucast c"
    by (simp add: prime64_inverse)
  then have "(h XOR ucast c) XOR ucast c = (h' XOR ucast c) XOR ucast c"
    by simp
  then show ?thesis
    by (simp add: xor.assoc)
qed

lemma unat_drop_bit_32: "unat (drop_bit 32 (h :: u64)) < 2 ^ 32"
proof -
  have "unat (drop_bit 32 h) = unat h div 2 ^ 32"
    by (subst unsigned_drop_bit_eq) (simp add: drop_bit_eq_div take_bit_nat_eq_self unsigned_less [of h, simplified])
  moreover have "unat h < 2 ^ 32 * 2 ^ 32"
    using unsigned_less [of h] by simp
  ultimately show ?thesis
    by (simp add: less_mult_imp_div_less)
qed

lemma sint_small:
  fixes w :: u64
  assumes "unat w < 2 ^ 63"
  shows "sint w = int (unat w)"
proof -
  have "sint w = signed_take_bit 63 (uint w)"
    by (simp add: sint_uint)
  also have "\<dots> = uint w"
  proof (rule signed_take_bit_int_eq_self)
    have "0 \<le> uint w" by simp
    then show "- (2 ^ 63) \<le> uint w" by (rule order_trans [rotated]) simp
    from assms have "int (unat w) < int (2 ^ 63)" by (simp only: of_nat_less_iff)
    then show "uint w < 2 ^ 63" by simp
  qed
  finally show ?thesis by simp
qed

lemma sint_of_unat: "unat (w :: u64) = n \<Longrightarrow> n < 2 ^ 63 \<Longrightarrow> sint w = int n"
  by (rule sint_small [of w, THEN trans]) (simp_all del: of_nat_unat)

lemma unat_word_of_int_pos:
  assumes "0 < n" and "n < 2 ^ 63"
  shows "unat (word_of_int n :: u64) = nat n"
proof -
  have "word_of_int n = (of_nat (nat n) :: u64)"
    using assms(1) by (simp add: of_nat_nat)
  moreover have "nat n < 2 ^ 64"
    using assms by simp
  ultimately show ?thesis
    by (simp add: unat_of_nat_small)
qed

lemma GetChunkID_eq:
  assumes "0 < n" and "n < 2 ^ 63"
  shows "GetChunkID b n = Ret (int (unat (drop_bit 32 (FNV1a64 b)) mod nat n))"
proof -
  let ?m = "word_of_int n :: u64" and ?q = "drop_bit 32 (FNV1a64 b)"
  have um: "unat ?m = nat n" using assms by (rule unat_word_of_int_pos)
  then have "?m \<noteq> 0" using assms(1) by auto
  moreover have "unat (?q mod ?m) = unat ?q mod nat n"
    by (simp add: unat_mod_distrib um)
  moreover have "unat ?q mod nat n < 2 ^ 63"
    by (rule order.strict_trans1 [OF mod_less_eq_dividend])
      (rule order.strict_trans [OF unat_drop_bit_32], simp)
  ultimately show ?thesis
    by (simp add: GetChunkID_def Let_def sint_small)
qed

text \<open>
  every key belongs to one of the chunks: for a positive number of chunks
  \<open>GetChunkID\<close> returns, and its result is a valid chunk index.
\<close>

lemma GetChunkID_in_range:
  assumes "0 < n" and "n < 2 ^ 63"
  shows "\<exists>i. GetChunkID b n = Ret i \<and> 0 \<le> i \<and> i < n"
proof -
  have "nat n > 0" using assms(1) by simp
  then have "unat (drop_bit 32 (FNV1a64 b)) mod nat n < nat n" by simp
  then show ?thesis using assms by (simp add: GetChunkID_eq nat_less_iff [symmetric] zmod_int)
qed

end
