(* ===== verification/Store.thy ===== *)
theory Store
  imports Hashing
begin

text \<open>
  The store of a chunk (src/core/pmap/store.go): an append-only file of key-value records
  in a memory mapping. The operations are translated with their 64-bit index arithmetic
  and Go's bounds checks; the abstraction is the list of records appended so far, and the
  locale \<open>append_log\<close> is what the persistent map relies on.
\<close>

section \<open>State\<close>

record store =
  st_deleted :: u64
  st_length :: u64
  st_size :: u64
  st_osFile :: "string option"
  st_file :: "bytes option"

text \<open>
  The file system the store lives in: paths and contents. A mapping is shared, so the
  file holds what the mapping held once it is unmapped. \<open>os_env\<close> says which calls of
  \<open>os\<close> and \<open>gommap\<close> report an error.
\<close>

type_synonym fs = "string \<rightharpoonup> bytes"

record os_env =
  open_err :: bool
  truncate_err :: bool
  stat_err :: bool
  map_err :: bool
  unmap_err :: bool
  fclose_err :: bool

definition headerValueOffset :: u64 where "headerValueOffset = 4"
definition headerSize :: u64 where "headerSize = 8"

text \<open>A \<open>nil\<close> mapping is an empty slice.\<close>

definition mapped :: "store \<Rightarrow> bytes" where
  "mapped st = (case st_file st of None \<Rightarrow> [] | Some f \<Rightarrow> f)"

section \<open>Opening and closing\<close>

definition newStore :: "os_env \<Rightarrow> fs \<Rightarrow> string \<Rightarrow> u64 \<Rightarrow> (store \<times> fs) go" where
  "newStore os d path sz =
     (let zeros = replicate (unat sz) 0;
          st = \<lparr>st_deleted = 0, st_length = 0, st_size = sz, st_osFile = None, st_file = None\<rparr>
      in if path \<noteq> [] then
           if open_err os then Panic (Raised ''open'')
           else if truncate_err os then Panic (Raised ''truncate'')
           else if map_err os then Panic (Raised ''mmap'')
           else Ret (st\<lparr>st_osFile := Some path, st_file := Some zeros\<rparr>, d(path \<mapsto> zeros))
         else
           if map_err os then Panic (Raised ''mmap'')
           else Ret (st\<lparr>st_file := Some zeros\<rparr>, d))"

definition openStore :: "os_env \<Rightarrow> fs \<Rightarrow> string \<Rightarrow> store go" where
  "openStore os d path =
     (case d path of
        None \<Rightarrow> Panic (Raised ''open'')
      | Some f \<Rightarrow>
          if open_err os then Panic (Raised ''open'')
          else if stat_err os then Panic (Raised ''Could not obtain stat'')
          else if map_err os then Panic (Raised ''mmap'')
          else Ret \<lparr>st_deleted = 0, st_length = 0, st_size = of_nat (length f),
                     st_osFile = Some path, st_file = Some f\<rparr>)"

definition st_close :: "os_env \<Rightarrow> fs \<Rightarrow> store \<Rightarrow> (store \<times> fs) go" where
  "st_close os d st =
     (case st_file st of
        None \<Rightarrow> Panic (Raised ''Already closed'')
      | Some f \<Rightarrow>
          if unmap_err os then Panic (Raised ''unmap'')
          else (case st_osFile st of
                  None \<Rightarrow> Ret (st\<lparr>st_file := None\<rparr>, d)
                | Some path \<Rightarrow>
                    if fclose_err os then Panic (Raised ''close'')
                    else Ret (st\<lparr>st_file := None\<rparr>, d(path \<mapsto> f))))"

definition deleteStore :: "fs \<Rightarrow> store \<Rightarrow> fs go" where
  "deleteStore d st =
     (if st_file st \<noteq> None then Panic (Raised ''Not closed'')
      else (case st_osFile st of None \<Rightarrow> Ret d | Some path \<Rightarrow> Ret (d(path := None))))"

section \<open>Access\<close>

definition keyLen :: "store \<Rightarrow> u64 \<Rightarrow> u32 go" where
  "keyLen st index = bindG (slice_from (mapped st) (unat index)) Uint32"

definition valLen :: "store \<Rightarrow> u64 \<Rightarrow> u32 go" where
  "valLen st index = bindG (slice_from (mapped st) (unat (index + headerValueOffset))) Uint32"

definition totalLen :: "store \<Rightarrow> u64 \<Rightarrow> u32 go" where
  "totalLen st index = bindG (keyLen st index) (\<lambda>k. bindG (valLen st index) (\<lambda>v. Ret (k + v)))"

definition set_mapped :: "store \<Rightarrow> bytes \<Rightarrow> store" where
  "set_mapped st f = st\<lparr>st_file := Some f\<rparr>"

definition setKeyLen :: "store \<Rightarrow> u64 \<Rightarrow> u32 \<Rightarrow> store go" where
  "setKeyLen st index x =
     bindG (put_bytes (mapped st) (unat index) (le32 x)) (\<lambda>f. Ret (set_mapped st f))"

definition setValLen :: "store \<Rightarrow> u64 \<Rightarrow> u32 \<Rightarrow> store go" where
  "setValLen st index x =
     bindG (put_bytes (mapped st) (unat (index + headerValueOffset)) (le32 x))
       (\<lambda>f. Ret (set_mapped st f))"

text \<open>\<open>prev\<close> returns a signed 64-bit index, \<open>-1\<close> when there is no record before \<open>index\<close>.\<close>

definition st_prev :: "store \<Rightarrow> u64 \<Rightarrow> int go" where
  "st_prev st index =
     (if sint (index - 4) > 0 then
        bindG (slice_of (mapped st) (unat (index - 4)) (unat index)) (\<lambda>b.
        bindG (Uint32 b) (\<lambda>n. Ret (sint (index - 12 - ucast n))))
      else Ret (- 1))"

text \<open>\<open>st.file[a:b]\<close> keeps the capacity of the mapping.\<close>

definition file_slice :: "bytes \<Rightarrow> u64 \<Rightarrow> u64 \<Rightarrow> slice go" where
  "file_slice f a b =
     (if unat a \<le> unat b \<and> unat b \<le> length f
      then Ret \<lparr>sarr = drop (unat a) f, slen = unat b - unat a\<rparr> else Panic OutOfRange)"

definition st_key :: "store \<Rightarrow> u64 \<Rightarrow> slice go" where
  "st_key st index = bindG (keyLen st index) (\<lambda>k.
     file_slice (mapped st) (index + headerSize) (index + headerSize + ucast k))"

definition st_val :: "store \<Rightarrow> u64 \<Rightarrow> slice go" where
  "st_val st index = bindG (keyLen st index) (\<lambda>k. bindG (totalLen st index) (\<lambda>t.
     file_slice (mapped st) (index + headerSize + ucast k) (index + headerSize + ucast t)))"

section \<open>Appending\<close>

abbreviation store_full :: string where
  "store_full \<equiv> ''store size limit reached: denied put operation''"

text \<open>\<open>copy(st.key(index), key)\<close> and \<open>copy(st.val(index), val)\<close>.\<close>

definition copy_key :: "store \<Rightarrow> u64 \<Rightarrow> bytes \<Rightarrow> store go" where
  "copy_key st index k = bindG (st_key st index) (\<lambda>s.
     Ret (set_mapped st (copy_at (mapped st) (unat (index + headerSize)) (slen s) k)))"

definition copy_val :: "store \<Rightarrow> u64 \<Rightarrow> bytes \<Rightarrow> store go" where
  "copy_val st index v = bindG (keyLen st index) (\<lambda>kl. bindG (st_val st index) (\<lambda>s.
     Ret (set_mapped st
       (copy_at (mapped st) (unat (index + headerSize + ucast kl)) (slen s) v))))"

definition st_put :: "store \<Rightarrow> bytes \<Rightarrow> bytes \<Rightarrow> ((string + u32) \<times> store) go" where
  "st_put st k v =
     (let sz = (of_nat (4 + 4 + 4 + length k + length v) :: u64)
      in if st_length st + sz \<ge> st_size st then Ret (Inl store_full, st)
         else let index = st_length st; st1 = st\<lparr>st_length := st_length st + sz\<rparr>
         in bindG (setKeyLen st1 index (of_nat (length k))) (\<lambda>st2.
            bindG (setValLen st2 index (of_nat (length v))) (\<lambda>st3.
            bindG (copy_key st3 index k) (\<lambda>st4.
            bindG (copy_val st4 index v) (\<lambda>st5.
            bindG (put_bytes (mapped st5) (unat index + 8 + length k + length v)
                     (le32 (of_nat (length k + length v)))) (\<lambda>f.
            Ret (Inr (ucast index), set_mapped st5 f)))))))"

section \<open>Abstraction: the list of records\<close>

type_synonym logrec = "bytes \<times> bytes"

definition enc_rec :: "logrec \<Rightarrow> bytes" where
  "enc_rec r = le32 (of_nat (length (fst r))) @ le32 (of_nat (length (snd r)))
     @ fst r @ snd r @ le32 (of_nat (length (fst r) + length (snd r)))"

definition log_bytes :: "logrec list \<Rightarrow> bytes" where
  "log_bytes l = concat (map enc_rec l)"

definition rec_size :: "logrec \<Rightarrow> nat" where
  "rec_size r = 12 + length (fst r) + length (snd r)"

definition log_size :: "logrec list \<Rightarrow> nat" where
  "log_size l = sum_list (map rec_size l)"

text \<open>The record that starts at byte \<open>i\<close> of the store.\<close>

fun rec_at :: "logrec list \<Rightarrow> nat \<Rightarrow> logrec option" where
  "rec_at [] i = None"
| "rec_at (r # l) i =
     (if i = 0 then Some r else if i < rec_size r then None else rec_at l (i - rec_size r))"

text \<open>
  The well-formed store: the mapping holds the records and zeros behind them, and every
  index fits the 32 bits the hash map keeps of it.
\<close>

definition store_inv :: "store \<Rightarrow> logrec list \<Rightarrow> bool" where
  "store_inv st l \<longleftrightarrow>
     st_file st = Some (log_bytes l @ replicate (unat (st_size st) - log_size l) 0)
     \<and> unat (st_length st) = log_size l
     \<and> (l = [] \<or> log_size l < unat (st_size st))
     \<and> unat (st_size st) \<le> 2 ^ 32"

definition fits :: "store \<Rightarrow> bytes \<Rightarrow> bytes \<Rightarrow> bool" where
  "fits st k v \<longleftrightarrow> unat (st_length st) + rec_size (k, v) < unat (st_size st)"

section \<open>Lemmas: sizes and record positions\<close>

lemma length_enc_rec [simp]: "length (enc_rec r) = rec_size r"
  by (simp add: enc_rec_def rec_size_def)

lemma log_bytes_simps [simp]:
  "log_bytes [] = []"
  "log_bytes (r # l) = enc_rec r @ log_bytes l"
  "log_bytes (l @ m) = log_bytes l @ log_bytes m"
  by (simp_all add: log_bytes_def)

lemma log_size_simps [simp]:
  "log_size [] = 0"
  "log_size (r # l) = rec_size r + log_size l"
  "log_size (l @ m) = log_size l + log_size m"
  by (simp_all add: log_size_def)

lemma length_log_bytes [simp]: "length (log_bytes l) = log_size l"
  by (induction l) auto

lemma rec_size_pos [simp]: "12 \<le> rec_size r" "0 < rec_size r" "rec_size r \<noteq> 0"
  by (simp_all add: rec_size_def)

lemma log_size_ge: "l \<noteq> [] \<Longrightarrow> 12 \<le> log_size l"
  by (cases l) (simp_all add: trans_le_add1)

lemma log_size_eq_0 [simp]: "log_size l = 0 \<longleftrightarrow> l = []"
  using log_size_ge [of l] by (cases "l = []") auto

lemma rec_at_here: "rec_at (p @ r # q) (log_size p) = Some r"
  by (induction p) auto

lemma rec_at_Some: "rec_at l i = Some r \<Longrightarrow> \<exists>p q. l = p @ r # q \<and> i = log_size p"
proof (induction l arbitrary: i)
  case Nil
  then show ?case by simp
next
  case (Cons a l)
  show ?case
  proof (cases "i = 0")
    case True
    with Cons.prems have "a # l = [] @ r # l \<and> i = log_size []" by simp
    then show ?thesis by (intro exI)
  next
    case False
    with Cons.prems have ge: "rec_size a \<le> i" and "rec_at l (i - rec_size a) = Some r"
      by (simp_all split: if_splits)
    then obtain p q where "l = p @ r # q" "i - rec_size a = log_size p"
      using Cons.IH by blast
    with ge have "a # l = (a # p) @ r # q \<and> i = log_size (a # p)" by simp
    then show ?thesis by (intro exI)
  qed
qed

lemma rec_at_append: "rec_at l i = Some r \<Longrightarrow> rec_at (l @ m) i = Some r"
proof -
  assume "rec_at l i = Some r"
  then obtain p q where "l = p @ r # q" "i = log_size p" by (blast dest: rec_at_Some)
  then show ?thesis by (simp add: rec_at_here)
qed

lemma rec_at_bound: "rec_at l i = Some r \<Longrightarrow> i + rec_size r \<le> log_size l"
  by (drule rec_at_Some) auto

lemma rec_at_new: "rec_at (l @ [r]) i = (if i = log_size l then Some r else rec_at l i)"
proof (induction l arbitrary: i)
  case Nil
  then show ?case by simp
next
  case (Cons a l)
  show ?case
    using rec_size_pos(2) [of a] by (auto simp: Cons.IH)
qed

section \<open>Lemmas: reading a record\<close>

lemma mapped_Some [simp]: "st_file st = Some f \<Longrightarrow> mapped st = f"
  by (simp add: mapped_def)

lemma mapped_set_mapped [simp]: "mapped (set_mapped st f) = f"
  by (simp add: set_mapped_def)

lemma mapped_frame [simp]:
  "mapped (st\<lparr>st_length := x\<rparr>) = mapped st" "mapped (st\<lparr>st_deleted := x\<rparr>) = mapped st"
  by (simp_all add: mapped_def)

lemma unat_add3_u64:
  fixes i :: u64
  assumes "unat i + n < 2 ^ 63"
  shows "unat (i + of_nat n) = unat i + n"
  using assms by (simp add: unat_word_ariths unat_of_nat)

lemma ucast_of_nat_u32_u64:
  assumes "n < 2 ^ 32"
  shows "(ucast (of_nat n :: u32) :: u64) = of_nat n"
  using assms by (intro word_unat_eq_iff [THEN iffD2]) (simp add: unat_of_nat)

text \<open>
  A header with key length \<open>kl\<close> and value length \<open>vl\<close> at position \<open>i\<close>, and enough bytes
  behind it: what the accessors read there.
\<close>

definition header_at :: "store \<Rightarrow> u64 \<Rightarrow> bytes \<Rightarrow> nat \<Rightarrow> nat \<Rightarrow> bytes \<Rightarrow> bool" where
  "header_at st i p kl vl x \<longleftrightarrow>
     mapped st = p @ le32 (of_nat kl) @ le32 (of_nat vl) @ x
     \<and> unat i = length p \<and> length (mapped st) \<le> 2 ^ 32 \<and> kl + vl \<le> length x"

lemma header_atD:
  assumes "header_at st i p kl vl x"
  shows "mapped st = p @ le32 (of_nat kl) @ le32 (of_nat vl) @ x" and "unat i = length p"
    and "length p + 8 + length x \<le> 4294967296" and "kl + vl \<le> length x"
  using assms by (auto simp: header_at_def)

lemma header_reads:
  assumes h: "header_at st i p kl vl x"
  shows "keyLen st i = Ret (of_nat kl)" and "valLen st i = Ret (of_nat vl)"
    and "totalLen st i = Ret (of_nat (kl + vl))"
    and "st_key st i = Ret \<lparr>sarr = x, slen = kl\<rparr>"
    and "st_val st i = Ret \<lparr>sarr = drop kl x, slen = vl\<rparr>"
proof -
  note d = header_atD [OF h]
  have u4: "unat (i + headerValueOffset) = length p + 4"
    using unat_add3_u64 [of i 4] d by (simp add: headerValueOffset_def)
  have u8: "unat (i + headerSize) = length p + 8"
    using unat_add3_u64 [of i 8] d by (simp add: headerSize_def)
  show kl: "keyLen st i = Ret (of_nat kl)"
    by (simp add: keyLen_def d slice_from_def)
  show vl: "valLen st i = Ret (of_nat vl)"
    by (simp add: valLen_def u4 d slice_from_def)
  show tl: "totalLen st i = Ret (of_nat (kl + vl))"
    by (simp add: totalLen_def kl vl)
  have n: "unat (i + headerSize + ucast (of_nat n :: u32)) = length p + 8 + n"
    if "n \<le> length x" for n
  proof -
    have "n < 2 ^ 32" using that d by simp
    moreover have "unat (i + headerSize + of_nat n) = unat (i + headerSize) + n"
      using that d by (intro unat_add3_u64) (simp add: u8)
    ultimately show ?thesis by (simp add: ucast_of_nat_u32_u64 u8)
  qed
  show "st_key st i = Ret \<lparr>sarr = x, slen = kl\<rparr>"
    using d(4) by (simp add: st_key_def kl file_slice_def u8 n d(1))
  have t: "unat (i + headerSize + ucast (of_nat (kl + vl) :: u32)) = length p + 8 + (kl + vl)"
    using d(4) by (rule n)
  show "st_val st i = Ret \<lparr>sarr = drop kl x, slen = vl\<rparr>"
    using d(4) t n [of kl] by (simp add: st_val_def kl tl file_slice_def d(1) del: of_nat_add)
qed

lemma store_inv_mapped:
  assumes "store_inv st l"
  shows "mapped st = log_bytes l @ replicate (unat (st_size st) - log_size l) 0"
    and "length (mapped st) = unat (st_size st)" and "unat (st_size st) \<le> 4294967296"
    and "unat (st_length st) = log_size l" and "log_size l \<le> unat (st_size st)"
  using assms by (auto simp: store_inv_def)

lemma store_inv_header:
  assumes "store_inv st l" and "rec_at l (unat i) = Some (k, v)"
  obtains p x where "header_at st i p (length k) (length v) (k @ v @ x)"
    and "length x \<ge> 4"
proof -
  note s = store_inv_mapped [OF assms(1)]
  from assms(2) obtain a b where ab: "l = a @ (k, v) # b" "unat i = log_size a"
    by (blast dest: rec_at_Some)
  let ?x = "le32 (of_nat (length k + length v)) @ log_bytes b
    @ replicate (unat (st_size st) - log_size l) 0"
  have "mapped st = log_bytes a @ le32 (of_nat (length k)) @ le32 (of_nat (length v))
      @ (k @ v @ ?x)"
    by (simp add: s(1) ab enc_rec_def)
  then have "header_at st i (log_bytes a) (length k) (length v) (k @ v @ ?x)"
    using ab(2) s by (simp add: header_at_def)
  then show thesis by (rule that) simp
qed

lemma store_reads:
  assumes "store_inv st l" and "rec_at l (unat i) = Some (k, v)"
  shows "keyLen st i = Ret (of_nat (length k))" and "totalLen st i = Ret (of_nat (length k + length v))"
    and "\<exists>s. st_key st i = Ret s \<and> content s = k"
    and "\<exists>s. st_val st i = Ret s \<and> content s = v \<and> slen s = length v \<and> length (sarr s) \<ge> length v + 4"
proof -
  obtain p x where h: "header_at st i p (length k) (length v) (k @ v @ x)" and "length x \<ge> 4"
    using assms by (rule store_inv_header)
  then show "\<exists>s. st_val st i = Ret s \<and> content s = v \<and> slen s = length v
      \<and> length (sarr s) \<ge> length v + 4"
    by (simp add: header_reads [OF h] content_def)
  show "keyLen st i = Ret (of_nat (length k))" "totalLen st i = Ret (of_nat (length k + length v))"
    "\<exists>s. st_key st i = Ret s \<and> content s = k"
    by (simp_all add: header_reads [OF h] content_def)
qed

section \<open>Lemmas: appending a record\<close>

definition small :: "bytes \<Rightarrow> bytes \<Rightarrow> bool" where
  "small k v \<longleftrightarrow> length k + length v < 2 ^ 62"

lemma fits_small: "store_inv st l \<Longrightarrow> fits st k v \<Longrightarrow> small k v"
  by (auto simp: store_inv_def fits_def small_def rec_size_def)

lemma unat_put_size:
  assumes "store_inv st l" and "small k v"
  shows "unat (st_length st + of_nat (4 + 4 + 4 + length k + length v))
    = unat (st_length st) + rec_size (k, v)"
proof -
  have "unat (st_length st) + (4 + 4 + 4 + length k + length v) < 2 ^ 63"
    using assms by (auto simp: store_inv_def small_def)
  then have "unat (st_length st + of_nat (4 + 4 + 4 + length k + length v))
      = unat (st_length st) + (4 + 4 + 4 + length k + length v)"
    by (rule unat_add3_u64)
  then show ?thesis by (simp add: rec_size_def)
qed

lemma put_full:
  assumes "store_inv st l" and "\<not> fits st k v" and "small k v"
  shows "st_put st k v = Ret (Inl store_full, st)"
  using assms unat_put_size [OF assms(1,3)]
  by (simp add: st_put_def fits_def word_le_nat_alt)

lemma replicate_split5:
  "replicate (a + (b + (c + (d + (e + n))))) x =
     replicate a x @ replicate b x @ replicate c x @ replicate d x @ replicate e x @ replicate n x"
  by (simp add: replicate_add)

definition appended :: "store \<Rightarrow> logrec list \<Rightarrow> store" where
  "appended st l = st\<lparr>st_length := of_nat (log_size l),
     st_file := Some (log_bytes l @ replicate (unat (st_size st) - log_size l) 0)\<rparr>"

lemma store_inv_appended:
  assumes "store_inv st l" and "fits st k v"
  shows "store_inv (appended st (l @ [(k, v)])) (l @ [(k, v)])"
  using assms by (auto simp: store_inv_def appended_def fits_def unat_word_ariths unat_of_nat)

text \<open>The five writes of \<open>put\<close>, on a mapping that ends in zeros.\<close>

lemma put_writes:
  fixes st :: store
  assumes m: "mapped st = p @ replicate 4 0 @ replicate 4 0 @ replicate (length k) 0
      @ replicate (length v) 0 @ replicate 4 0 @ z"
    and i: "unat i = length p" and b: "length (mapped st) \<le> 2 ^ 32"
  shows "bindG (setKeyLen st i (of_nat (length k))) (\<lambda>st2.
            bindG (setValLen st2 i (of_nat (length v))) (\<lambda>st3.
            bindG (copy_key st3 i k) (\<lambda>st4.
            bindG (copy_val st4 i v) (\<lambda>st5.
            bindG (put_bytes (mapped st5) (unat i + 8 + length k + length v)
                     (le32 (of_nat (length k + length v)))) (\<lambda>f.
            Ret (Inr (ucast i :: u32), set_mapped st5 f))))))
     = Ret (Inr (ucast i), set_mapped st (p @ enc_rec (k, v) @ z))"
proof -
  define zk zv z4 :: bytes where "zk = replicate (length k) 0"
    and "zv = replicate (length v) 0" and "z4 = replicate 4 0"
  define lk lv lt :: bytes where "lk = le32 (of_nat (length k))"
    and "lv = le32 (of_nat (length v))" and "lt = le32 (of_nat (length k + length v))"
  have len: "length zk = length k" "length zv = length v" "length z4 = 4"
    "length lk = 4" "length lv = 4" "length lt = 4"
    by (simp_all add: zk_def zv_def z4_def lk_def lv_def lt_def)
  have m': "mapped st = p @ z4 @ z4 @ zk @ zv @ z4 @ z"
    using m by (simp add: zk_def zv_def z4_def)
  have bd: "length p + 12 + length k + length v + length z \<le> 4294967296"
    using b by (simp add: m)
  define s2 s3 s4 s5 where "s2 = set_mapped st (p @ lk @ z4 @ zk @ zv @ z4 @ z)"
    and "s3 = set_mapped st (p @ lk @ lv @ zk @ zv @ z4 @ z)"
    and "s4 = set_mapped st (p @ lk @ lv @ k @ zv @ z4 @ z)"
    and "s5 = set_mapped st (p @ lk @ lv @ k @ v @ z4 @ z)"
  have u4: "unat (i + headerValueOffset) = length p + 4"
    using unat_add3_u64 [of i 4] i bd by (simp add: headerValueOffset_def)
  have u8: "unat (i + headerSize) = length p + 8"
    using unat_add3_u64 [of i 8] i bd by (simp add: headerSize_def)
  have uk: "unat (i + headerSize + ucast (of_nat (length k) :: u32)) = length p + 8 + length k"
    using unat_add3_u64 [of "i + headerSize" "length k"] u8 bd
    by (simp add: ucast_of_nat_u32_u64)
  have 1: "setKeyLen st i (of_nat (length k)) = Ret s2"
    using put_bytes_append [of z4 lk p "z4 @ zk @ zv @ z4 @ z"]
    by (simp add: setKeyLen_def i m' len s2_def lk_def)
  have 2: "setValLen s2 i (of_nat (length v)) = Ret s3"
    using put_bytes_append [of z4 lv "p @ lk" "zk @ zv @ z4 @ z"]
    by (simp add: setValLen_def u4 len s2_def s3_def lv_def set_mapped_def [of "set_mapped _ _"])
      (simp add: set_mapped_def)
  have h3: "header_at s3 i p (length k) (length v) (zk @ zv @ z4 @ z)"
    using bd by (simp add: header_at_def s3_def i len lk_def lv_def)
  have 3: "copy_key s3 i k = Ret s4"
    using copy_at_append [of zk k "length k" "p @ lk @ lv" "zv @ z4 @ z"]
    by (simp add: copy_key_def header_reads [OF h3] u8 len)
      (simp add: s3_def s4_def len set_mapped_def)
  have h4: "header_at s4 i p (length k) (length v) (k @ zv @ z4 @ z)"
    using bd by (simp add: header_at_def s4_def i len lk_def lv_def)
  have 4: "copy_val s4 i v = Ret s5"
    using copy_at_append [of zv v "length v" "p @ lk @ lv @ k" "z4 @ z"]
    by (simp add: copy_val_def header_reads [OF h4] uk len)
      (simp add: s4_def s5_def len set_mapped_def add.assoc)
  have 5: "put_bytes (mapped s5) (unat i + 8 + length k + length v) lt
      = Ret (p @ lk @ lv @ k @ v @ lt @ z)"
    using put_bytes_append [of z4 lt "p @ lk @ lv @ k @ v" z]
    by (simp add: s5_def i len algebra_simps)
  have 6: "set_mapped s5 (p @ lk @ lv @ k @ v @ lt @ z) = set_mapped st (p @ enc_rec (k, v) @ z)"
    by (simp add: s5_def set_mapped_def enc_rec_def lk_def lv_def lt_def)
  show ?thesis
    by (simp only: 1 2 3 4 5 6 bindG.simps lt_def [symmetric])
qed

lemma put_ok:
  assumes inv: "store_inv st l" and fit: "fits st k v"
  shows "st_put st k v = Ret (Inr (of_nat (log_size l)), appended st (l @ [(k, v)]))"
proof -
  note s = store_inv_mapped [OF inv]
  have sm: "small k v" using inv fit by (rule fits_small)
  let ?n = "unat (st_size st) - log_size l - rec_size (k, v)"
  let ?st1 = "st\<lparr>st_length := st_length st + of_nat (4 + 4 + 4 + length k + length v)\<rparr>"
  have n: "unat (st_size st) - log_size l = 4 + (4 + (length k + (length v + (4 + ?n))))"
    using fit s by (simp add: fits_def rec_size_def)
  have "replicate (unat (st_size st) - log_size l) 0 = replicate 4 0 @ replicate 4 0
      @ replicate (length k) 0 @ replicate (length v) 0 @ replicate 4 0 @ replicate ?n (0 :: byte)"
    by (subst n) (rule replicate_split5)
  then have m: "mapped ?st1 = log_bytes l @ replicate 4 0 @ replicate 4 0 @ replicate (length k) 0
      @ replicate (length v) 0 @ replicate 4 0 @ replicate ?n 0"
    using s(1) by (simp only: mapped_frame)
  have i: "unat (st_length st) = length (log_bytes l)" using s by simp
  have b: "length (mapped ?st1) \<le> 2 ^ 32" using s by simp
  have len: "st_length st + of_nat (4 + 4 + 4 + length k + length v) = of_nat (log_size (l @ [(k, v)]))"
  proof -
    have "st_length st = of_nat (log_size l)"
      using s(4) by (rule word_of_unat)
    then show ?thesis by (simp add: rec_size_def)
  qed
  have "set_mapped ?st1 (log_bytes l @ enc_rec (k, v) @ replicate ?n 0) = appended st (l @ [(k, v)])"
    by (simp only: appended_def set_mapped_def len) (simp add: add.assoc)
  moreover have "\<not> st_size st \<le> st_length st + of_nat (4 + 4 + 4 + length k + length v)"
    using fit by (simp only: word_le_nat_alt unat_put_size [OF inv sm] fits_def not_le)
  moreover have "(ucast (st_length st) :: u32) = of_nat (log_size l)"
    by (simp add: s(4) [symmetric])
  ultimately show ?thesis
    using put_writes [OF m i b] by (simp add: st_put_def Let_def)
qed

section \<open>Lemmas: stepping back over a record\<close>

lemma prev_start: "unat i = 0 \<Longrightarrow> st_prev st i = Ret (- 1)"
  by (drule word_of_unat) (simp add: st_prev_def)

lemma unat_minus_u64:
  fixes i :: u64
  assumes "n \<le> unat i" and "n < 2 ^ 63"
  shows "unat (i - of_nat n) = unat i - n"
proof -
  have u: "unat (of_nat n :: u64) = n" using assms(2) by (simp add: unat_of_nat)
  then have "of_nat n \<le> i" using assms(1) by (simp add: word_le_nat_alt)
  then show ?thesis using u by (simp add: unat_sub)
qed

lemma prev_record:
  assumes inv: "store_inv st (a @ r # b)" and i: "unat i = log_size (a @ [r])"
  shows "st_prev st i = Ret (int (log_size a))"
proof -
  note s = store_inv_mapped [OF inv]
  obtain k v where r: "r = (k, v)" by fastforce
  let ?t = "length k + length v"
  have ui: "unat i = log_size a + 12 + ?t" using i by (simp add: r rec_size_def)
  have hi: "log_size a + 12 + ?t \<le> 4294967296" using s by (simp add: r rec_size_def)
  have m: "mapped st = (log_bytes a @ le32 (of_nat (length k)) @ le32 (of_nat (length v)) @ k @ v)
      @ le32 (of_nat ?t) @ log_bytes b @ replicate (unat (st_size st) - log_size (a @ r # b)) 0"
    by (simp add: s(1) r enc_rec_def)
  have u4: "unat (i - 4) = log_size a + 8 + ?t"
    using unat_minus_u64 [of 4 i] ui by simp
  have "slice_of (mapped st) (unat (i - 4)) (unat i) = Ret (le32 (of_nat ?t))"
    by (simp add: slice_of_def u4 ui m)
  moreover have "sint (i - 4) > 0"
    using sint_small [of "i - 4"] u4 hi by simp
  moreover have "i - 12 - ucast (of_nat ?t :: u32) = i - of_nat (12 + ?t)"
    using hi by (simp add: ucast_of_nat_u32_u64 del: of_nat_add) (simp add: algebra_simps)
  moreover have "unat (i - of_nat (12 + ?t)) = log_size a"
    using unat_minus_u64 [of "12 + ?t" i] ui hi by simp
  moreover have "sint (i - of_nat (12 + ?t)) = int (log_size a)"
    using calculation(4) by (rule sint_of_unat) (use hi in simp)
  ultimately show ?thesis
    by (simp only: st_prev_def if_True bindG.simps Uint32_le32_exact)
qed

section \<open>Interface: an append-only log\<close>

text \<open>
  What the persistent map relies on: appending succeeds exactly when there is room,
  returns the position of the new record, and every record can be read back.
\<close>

locale append_log =
  fixes inv :: "'s \<Rightarrow> logrec list \<Rightarrow> bool"
    and room :: "'s \<Rightarrow> bytes \<Rightarrow> bytes \<Rightarrow> bool"
    and append :: "'s \<Rightarrow> bytes \<Rightarrow> bytes \<Rightarrow> ((string + u32) \<times> 's) go"
    and rkey :: "'s \<Rightarrow> u32 \<Rightarrow> bytes go"
    and rval :: "'s \<Rightarrow> u32 \<Rightarrow> bytes go"
  assumes append_room: "inv s l \<Longrightarrow> room s k v \<Longrightarrow>
      \<exists>s'. append s k v = Ret (Inr (of_nat (log_size l)), s') \<and> inv s' (l @ [(k, v)])"
    and append_full: "inv s l \<Longrightarrow> \<not> room s k v \<Longrightarrow> small k v \<Longrightarrow>
      append s k v = Ret (Inl store_full, s)"
    and read_key: "inv s l \<Longrightarrow> rec_at l (unat i) = Some (k, v) \<Longrightarrow> rkey s i = Ret k"
    and read_val: "inv s l \<Longrightarrow> rec_at l (unat i) = Some (k, v) \<Longrightarrow> rval s i = Ret v"
    and index_fits: "inv s l \<Longrightarrow> l \<noteq> [] \<Longrightarrow> log_size l < 2 ^ 32"
begin

lemma append_total:
  assumes "inv s l" and "small k v"
  shows "\<exists>r s'. append s k v = Ret (r, s') \<and> (\<exists>l'. inv s' (l @ l'))"
  using append_room [OF assms(1)] append_full [OF assms(1) _ assms(2)] assms(1)
  by (cases "room s k v") (fastforce intro: exI [of _ "[]"])+

lemma old_index:
  assumes "inv s (l @ [r])"
  shows "unat (of_nat (log_size l) :: u32) = log_size l"
  using index_fits [OF assms] by (intro unat_of_nat_small) simp

lemma reads_back:
  assumes "inv s l" and "room s k v"
  shows "\<exists>i s'. append s k v = Ret (Inr i, s') \<and> rkey s' i = Ret k \<and> rval s' i = Ret v
     \<and> (\<forall>j k' v'. rec_at l (unat j) = Some (k', v') \<longrightarrow> rkey s' j = Ret k' \<and> rval s' j = Ret v')"
proof -
  obtain s' where s': "append s k v = Ret (Inr (of_nat (log_size l)), s')"
    "inv s' (l @ [(k, v)])"
    using append_room [OF assms] by blast
  have "rec_at (l @ [(k, v)]) (unat (of_nat (log_size l) :: u32)) = Some (k, v)"
    by (simp add: old_index [OF s'(2)] rec_at_here)
  then have "rkey s' (of_nat (log_size l)) = Ret k" "rval s' (of_nat (log_size l)) = Ret v"
    using s'(2) by (auto dest: read_key read_val)
  moreover have "rkey s' j = Ret k' \<and> rval s' j = Ret v'"
    if "rec_at l (unat j) = Some (k', v')" for j k' v'
    using rec_at_append [OF that] s'(2) by (auto dest: read_key read_val)
  ultimately show ?thesis using s'(1) by blast
qed

end

definition read_key :: "store \<Rightarrow> u32 \<Rightarrow> bytes go" where
  "read_key st i = bindG (st_key st (ucast i)) (\<lambda>s. Ret (content s))"

definition read_val :: "store \<Rightarrow> u32 \<Rightarrow> bytes go" where
  "read_val st i = bindG (st_val st (ucast i)) (\<lambda>s. Ret (content s))"

interpretation log: append_log store_inv fits st_put read_key read_val
proof unfold_locales
  fix s l k v
  assume "store_inv s l" and "fits s k v"
  then show "\<exists>s'. st_put s k v = Ret (Inr (of_nat (log_size l)), s')
      \<and> store_inv s' (l @ [(k, v)])"
    using put_ok store_inv_appended by blast
next
  fix s l k v
  assume "store_inv s l" and "\<not> fits s k v" and "small k v"
  then show "st_put s k v = Ret (Inl store_full, s)"
    by (rule put_full)
next
  fix s l i k v
  assume "store_inv s l" and "rec_at l (unat (i :: u32)) = Some (k, v)"
  then show "read_key s i = Ret k" and "read_val s i = Ret v"
    using store_reads(3,4) [of s l "ucast i" k v] by (auto simp: read_key_def read_val_def)
next
  fix s l
  assume "store_inv s l" and "l \<noteq> []"
  then show "log_size l < 2 ^ 32" by (auto simp: store_inv_def)
qed

lemma newStore_inv:
  assumes "newStore os d path sz = Ret (st, d')" and "unat sz \<le> 2 ^ 32"
  shows "store_inv st []"
  using assms by (auto simp: newStore_def Let_def store_inv_def split: if_splits)

end
