(* ===== verification/Hash_Map.thy ===== *)
theory Hash_Map
  imports Treeless_Prelude "HOL-Library.Multiset"
begin

text \<open>
  The index of a chunk (src/core/pmap/hashmap.go): an open-addressed table of buckets, two
  32-bit words each (a hash and a store index), with linear probing. Hash 0 marks an empty
  bucket and hash 1 a deleted one.
\<close>

section \<open>State\<close>

record hashmap =
  sizeLimit :: u32
  hm_size :: u32
  sizeMask :: u32
  sizelog2 :: u32
  numKeysToExpand :: u32
  numStoredKeys :: u32
  numDeletedKeys :: u32
  hm_mem :: "u32 list"

definition defaultHashMapInitialLog2Size :: u32 where "defaultHashMapInitialLog2Size = 16"
definition defaultHashMapSizeLimit :: u32 where "defaultHashMapSizeLimit = 1024 * 1024 * 64"
definition emptyBucket :: u32 where "emptyBucket = 0"
definition deletedBucket :: u32 where "deletedBucket = 1"

section \<open>Operations\<close>

text \<open>
  \<open>uint32(float64(size) * 0.7)\<close>. The double nearest to 0.7 is
  \<open>6305039478318694 / 2 ^ 53\<close>; the sizes are powers of two, for which the product is
  exact.
\<close>

definition load_limit :: "u32 \<Rightarrow> u32" where
  "load_limit sz = word_of_int ((uint sz * 6305039478318694) div 2 ^ 53)"

definition setSize :: "hashmap \<Rightarrow> u32 \<Rightarrow> hashmap" where
  "setSize m log2Size =
     (let sz = push_bit (unat log2Size) (1 :: u32)
      in m\<lparr>sizelog2 := log2Size, hm_size := sz,
           sizeMask := fold (\<lambda>i a. a OR push_bit i 1) [0..<unat log2Size] 0,
           numKeysToExpand := load_limit sz\<rparr>)"

definition alloc :: "hashmap \<Rightarrow> hashmap" where
  "alloc m = (let m1 = setSize m (sizelog2 m)
     in m1\<lparr>hm_mem := replicate (unat (hm_size m1 * 8)) 0\<rparr>)"

definition newHashMap :: "u32 \<Rightarrow> u32 \<Rightarrow> hashmap" where
  "newHashMap initialLog2Size limit =
     alloc \<lparr>sizeLimit = limit, hm_size = 0, sizeMask = 0, sizelog2 = initialLog2Size,
            numKeysToExpand = 0, numStoredKeys = 0, numDeletedKeys = 0, hm_mem = []\<rparr>"

definition getHash :: "hashmap \<Rightarrow> u32 \<Rightarrow> u32 go" where
  "getHash m index = index_of (hm_mem m) (unat (2 * index))"

definition getStoreIndex :: "hashmap \<Rightarrow> u32 \<Rightarrow> u32 go" where
  "getStoreIndex m index = index_of (hm_mem m) (unat (2 * index + 1))"

definition setHash :: "hashmap \<Rightarrow> u32 \<Rightarrow> u32 \<Rightarrow> hashmap go" where
  "setHash m index h =
     bindG (store_at (hm_mem m) (unat (2 * index)) h) (\<lambda>a. Ret (m\<lparr>hm_mem := a\<rparr>))"

definition setStoreIndex :: "hashmap \<Rightarrow> u32 \<Rightarrow> u32 \<Rightarrow> hashmap go" where
  "setStoreIndex m index x =
     bindG (store_at (hm_mem m) (unat (2 * index + 1)) x) (\<lambda>a. Ret (m\<lparr>hm_mem := a\<rparr>))"

definition hashReMap :: "u32 \<Rightarrow> u32" where
  "hashReMap h = (if h < 2 then h + 2 else h)"

text \<open>
  The inner loop of \<open>expand\<close>: walk to the next empty bucket. The first argument is the
  number of buckets still to visit; a walk over the whole table that meets no empty
  bucket repeats itself forever.
\<close>

fun find_empty :: "nat \<Rightarrow> hashmap \<Rightarrow> u32 \<Rightarrow> u32 go" where
  "find_empty 0 m index = Loop"
| "find_empty (Suc n) m index =
     bindG (getHash m index) (\<lambda>storedHash.
       if storedHash = emptyBucket then Ret index
       else find_empty n m ((index + 1) AND sizeMask m))"

text \<open>Putting one pair at an empty bucket, counting it.\<close>

definition put_bucket :: "hashmap \<Rightarrow> u32 \<Rightarrow> u32 \<Rightarrow> u32 \<Rightarrow> hashmap go" where
  "put_bucket m index h storeIndex =
     bindG (setHash m index h) (\<lambda>m1.
     bindG (setStoreIndex m1 index storeIndex) (\<lambda>m2.
     Ret (m2\<lparr>numStoredKeys := numStoredKeys m2 + 1\<rparr>)))"

text \<open>The outer loop of \<open>expand\<close>, over the bucket indices of the old table.\<close>

fun expand_loop :: "hashmap \<Rightarrow> u32 list \<Rightarrow> hashmap \<Rightarrow> hashmap go" where
  "expand_loop m [] newHM = Ret newHM"
| "expand_loop m (i # is) newHM =
     bindG (getHash m i) (\<lambda>h.
       if h > deletedBucket then
         bindG (getStoreIndex m i) (\<lambda>storeIndex.
         bindG (find_empty (unat (hm_size newHM)) newHM (h AND sizeMask newHM)) (\<lambda>index.
         bindG (put_bucket newHM index h storeIndex) (\<lambda>newHM'.
         expand_loop m is newHM')))
       else expand_loop m is newHM)"

abbreviation hm_full :: string where
  "hm_full \<equiv> ''HashMap size limit reached''"

definition expand :: "hashmap \<Rightarrow> (err \<times> hashmap) go" where
  "expand m =
     (if hm_size m * 2 > sizeLimit m then Ret (Some hm_full, m)
      else bindG (expand_loop m (map of_nat [0..<unat (hm_size m)])
                    (newHashMap (sizelog2 m + 1) (sizeLimit m)))
             (\<lambda>newHM. Ret (None, newHM)))"

section \<open>Abstraction and invariant\<close>

definition hs :: "hashmap \<Rightarrow> nat \<Rightarrow> u32" where
  "hs m i = hm_mem m ! (2 * i)"

definition si :: "hashmap \<Rightarrow> nat \<Rightarrow> u32" where
  "si m i = hm_mem m ! (2 * i + 1)"

text \<open>The live entries, bucket by bucket, and the number of buckets in use.\<close>

definition entries :: "hashmap \<Rightarrow> (u32 \<times> u32) list" where
  "entries m = map (\<lambda>i. (hs m i, si m i)) (filter (\<lambda>i. 1 < hs m i) [0..<unat (hm_size m)])"

definition used :: "hashmap \<Rightarrow> nat" where
  "used m = length (filter (\<lambda>i. hs m i \<noteq> 0) [0..<unat (hm_size m)])"

text \<open>
  Bucket \<open>i\<close> is found by probing from \<open>h\<close>: every bucket met before it is in use. In a
  chained table every live entry is found by probing from its hash.
\<close>

definition on_path :: "nat \<Rightarrow> (nat \<Rightarrow> u32) \<Rightarrow> nat \<Rightarrow> nat \<Rightarrow> bool" where
  "on_path n f h i \<longleftrightarrow> (\<exists>d<n. (h + d) mod n = i \<and> (\<forall>j<d. f ((h + j) mod n) \<noteq> 0))"

definition chain :: "nat \<Rightarrow> (nat \<Rightarrow> u32) \<Rightarrow> bool" where
  "chain n f \<longleftrightarrow> (\<forall>i<n. 1 < f i \<longrightarrow> on_path n f (unat (f i)) i)"

definition hm_shape :: "hashmap \<Rightarrow> nat \<Rightarrow> bool" where
  "hm_shape m k \<longleftrightarrow> k \<le> 28 \<and> sizelog2 m = of_nat k \<and> hm_size m = 2 ^ k \<and> sizeMask m = mask k
     \<and> numKeysToExpand m = load_limit (2 ^ k) \<and> length (hm_mem m) = 8 * 2 ^ k"

definition hm_inv :: "hashmap \<Rightarrow> bool" where
  "hm_inv m \<longleftrightarrow> (\<exists>k. hm_shape m k) \<and> chain (unat (hm_size m)) (hs m)
     \<and> unat (numStoredKeys m) = used m \<and> numStoredKeys m \<le> numKeysToExpand m
     \<and> unat (hm_size m) \<le> unat (sizeLimit m) \<and> unat (sizeLimit m) \<le> 2 ^ 28"

section \<open>Lemmas: sizes and bucket access\<close>

lemma unat_pow2_u32: "k \<le> 28 \<Longrightarrow> unat ((2 :: u32) ^ k) = 2 ^ k"
proof -
  assume "k \<le> 28"
  then have "(2 :: nat) ^ k < 2 ^ 32" by (intro power_strict_increasing) auto
  then have "unat (of_nat (2 ^ k) :: u32) = 2 ^ k" by (intro unat_of_nat_small) simp
  then show ?thesis by simp
qed

lemma pow2_bound: "k \<le> 28 \<Longrightarrow> (2 :: nat) ^ k \<le> 268435456"
proof -
  assume "k \<le> 28"
  then have "(2 :: nat) ^ k \<le> 2 ^ 28" by (intro power_increasing) auto
  then show ?thesis by simp
qed

lemma hm_shapeD:
  assumes "hm_shape m k"
  shows "k \<le> 28" and "unat (hm_size m) = 2 ^ k" and "sizeMask m = mask k"
    and "length (hm_mem m) = 8 * 2 ^ k" and "numKeysToExpand m = load_limit (2 ^ k)"
    and "(2 :: nat) ^ k \<le> 268435456" and "sizelog2 m = of_nat k" and "hm_size m = 2 ^ k"
  using assms by (simp_all add: hm_shape_def unat_pow2_u32 pow2_bound)

lemma unat_double:
  fixes i :: u32
  assumes "unat i < 2 ^ 28"
  shows "unat (2 * i) = 2 * unat i" and "unat (2 * i + 1) = 2 * unat i + 1"
  using assms by (simp_all add: unat_word_ariths)

lemma bucket_index:
  fixes i :: u32
  assumes "hm_shape m k" and "unat i < 2 ^ k"
  shows "unat (2 * i) = 2 * unat i" and "unat (2 * i + 1) = 2 * unat i + 1"
    and "2 * unat i + 1 < length (hm_mem m)"
proof -
  note d = hm_shapeD [OF assms(1)]
  have "unat i < 2 ^ 28" using assms(2) d(6) by simp
  then show "unat (2 * i) = 2 * unat i" and "unat (2 * i + 1) = 2 * unat i + 1"
    using unat_double [of i] by auto
  show "2 * unat i + 1 < length (hm_mem m)" using assms(2) d(4) by simp
qed

lemma getHash_Ret: "hm_shape m k \<Longrightarrow> unat i < 2 ^ k \<Longrightarrow> getHash m i = Ret (hs m (unat i))"
  using bucket_index [of m k i] by (simp add: getHash_def index_of_def hs_def)

lemma getStoreIndex_Ret:
  "hm_shape m k \<Longrightarrow> unat i < 2 ^ k \<Longrightarrow> getStoreIndex m i = Ret (si m (unat i))"
  using bucket_index [of m k i] by (simp add: getStoreIndex_def index_of_def si_def)

definition upd_hash :: "hashmap \<Rightarrow> nat \<Rightarrow> u32 \<Rightarrow> hashmap" where
  "upd_hash m i h = m\<lparr>hm_mem := (hm_mem m)[2 * i := h]\<rparr>"

definition upd_index :: "hashmap \<Rightarrow> nat \<Rightarrow> u32 \<Rightarrow> hashmap" where
  "upd_index m i x = m\<lparr>hm_mem := (hm_mem m)[2 * i + 1 := x]\<rparr>"

lemma setHash_Ret:
  "hm_shape m k \<Longrightarrow> unat i < 2 ^ k \<Longrightarrow> setHash m i h = Ret (upd_hash m (unat i) h)"
  using bucket_index [of m k i] by (simp add: setHash_def store_at_def upd_hash_def)

lemma setStoreIndex_Ret:
  "hm_shape m k \<Longrightarrow> unat i < 2 ^ k \<Longrightarrow> setStoreIndex m i x = Ret (upd_index m (unat i) x)"
  using bucket_index [of m k i] by (simp add: setStoreIndex_def store_at_def upd_index_def)

lemma upd_shape [simp]:
  "hm_shape (upd_hash m i h) k = hm_shape m k" "hm_shape (upd_index m i x) k = hm_shape m k"
  "hm_shape (m\<lparr>numStoredKeys := c\<rparr>) k = hm_shape m k"
  by (simp_all add: hm_shape_def upd_hash_def upd_index_def)

lemma upd_frame [simp]:
  "hm_size (upd_hash m i h) = hm_size m" "hm_size (upd_index m i x) = hm_size m"
  "numStoredKeys (upd_hash m i h) = numStoredKeys m" "numStoredKeys (upd_index m i x) = numStoredKeys m"
  "numKeysToExpand (upd_hash m i h) = numKeysToExpand m" "numKeysToExpand (upd_index m i x) = numKeysToExpand m"
  "sizeLimit (upd_hash m i h) = sizeLimit m" "sizeLimit (upd_index m i x) = sizeLimit m"
  "sizelog2 (upd_hash m i h) = sizelog2 m" "sizelog2 (upd_index m i x) = sizelog2 m"
  by (simp_all add: upd_hash_def upd_index_def)

lemma count_frame [simp]:
  "hs (m\<lparr>numStoredKeys := c\<rparr>) = hs m" "si (m\<lparr>numStoredKeys := c\<rparr>) = si m"
  by (simp_all add: hs_def si_def fun_eq_iff)

lemma hs_upd:
  assumes "hm_shape m k" and "i < 2 ^ k"
  shows "hs (upd_hash m i h) = (hs m)(i := h)" and "hs (upd_index m i x) = hs m"
    and "si (upd_hash m i h) = si m" and "si (upd_index m i x) = (si m)(i := x)"
proof -
  have l: "2 * i + 1 < length (hm_mem m)" using assms hm_shapeD(4) [OF assms(1)] by simp
  have o: "2 * j \<noteq> Suc (2 * i)" "Suc (2 * i) \<noteq> 2 * j" "Suc (2 * j) \<noteq> 2 * i" "2 * i \<noteq> Suc (2 * j)"
    for j
    by presburger+
  show "hs (upd_hash m i h) = (hs m)(i := h)" "hs (upd_index m i x) = hs m"
    "si (upd_hash m i h) = si m" "si (upd_index m i x) = (si m)(i := x)"
    using l o by (auto simp: fun_eq_iff hs_def si_def upd_hash_def upd_index_def nth_list_update)
qed

section \<open>Lemmas: entries of a changed table\<close>

lemma upt_split: "i < n \<Longrightarrow> [0..<n] = [0..<i] @ i # [Suc i..<n]"
  using upt_add_eq_append [of 0 i "n - i"] by (simp add: upt_conv_Cons)

lemma entries_change:
  assumes i: "i < unat (hm_size m)" and sz: "hm_size m' = hm_size m"
    and same: "\<And>j. j \<noteq> i \<Longrightarrow> hs m' j = hs m j" "\<And>j. j \<noteq> i \<Longrightarrow> si m' j = si m j"
  shows "mset (entries m') + (if 1 < hs m i then {#(hs m i, si m i)#} else {#})
    = mset (entries m) + (if 1 < hs m' i then {#(hs m' i, si m' i)#} else {#})"
proof -
  let ?n = "unat (hm_size m)"
  have f: "map (\<lambda>j. (hs m' j, si m' j)) (filter (\<lambda>j. 1 < hs m' j) xs)
      = map (\<lambda>j. (hs m j, si m j)) (filter (\<lambda>j. 1 < hs m j) xs)" if "i \<notin> set xs" for xs
    using that by (induction xs) (auto simp: same)
  define A B where "A = map (\<lambda>j. (hs m j, si m j)) (filter (\<lambda>j. 1 < hs m j) [0..<i])"
    and "B = map (\<lambda>j. (hs m j, si m j)) (filter (\<lambda>j. 1 < hs m j) [Suc i..<?n])"
  have "i \<notin> set [0..<i]" "i \<notin> set [Suc i..<?n]" by auto
  then have "entries m' = A @ (if 1 < hs m' i then [(hs m' i, si m' i)] else []) @ B"
    "entries m = A @ (if 1 < hs m i then [(hs m i, si m i)] else []) @ B"
    by (simp_all add: entries_def sz upt_split [OF i] f A_def B_def del: upt_Suc)
  then show ?thesis by simp
qed

lemma used_change:
  assumes i: "i < unat (hm_size m)" and sz: "hm_size m' = hm_size m"
    and same: "\<And>j. j \<noteq> i \<Longrightarrow> hs m' j = hs m j"
  shows "used m' + (if hs m i \<noteq> 0 then 1 else 0) = used m + (if hs m' i \<noteq> 0 then 1 else 0)"
proof -
  let ?n = "unat (hm_size m)"
  have f: "filter (\<lambda>j. hs m' j \<noteq> 0) xs = filter (\<lambda>j. hs m j \<noteq> 0) xs" if "i \<notin> set xs" for xs
    using that by (induction xs) (auto simp: same)
  define A B where "A = filter (\<lambda>j. hs m j \<noteq> 0) [0..<i]"
    and "B = filter (\<lambda>j. hs m j \<noteq> 0) [Suc i..<?n]"
  have "i \<notin> set [0..<i]" "i \<notin> set [Suc i..<?n]" by auto
  then have "filter (\<lambda>j. hs m' j \<noteq> 0) [0..<i] = A" "filter (\<lambda>j. hs m' j \<noteq> 0) [Suc i..<?n] = B"
    using f by (simp_all only: A_def B_def)
  then show ?thesis
    by (simp add: used_def sz upt_split [OF i] A_def [symmetric] B_def [symmetric] del: upt_Suc)
qed

lemma entries_le_used: "length (entries m) \<le> used m"
proof -
  have "length (filter (\<lambda>i. 1 < hs m i) xs) \<le> length (filter (\<lambda>i. hs m i \<noteq> 0) xs)" for xs
    by (induction xs) (auto simp: le_SucI)
  then show ?thesis by (simp add: entries_def used_def)
qed

lemma entries_nth: "i < unat (hm_size m) \<Longrightarrow> 1 < hs m i \<Longrightarrow> (hs m i, si m i) \<in> set (entries m)"
  by (auto simp: entries_def)

lemma entries_memD:
  "(h, x) \<in> set (entries m) \<Longrightarrow> \<exists>i < unat (hm_size m). hs m i = h \<and> si m i = x \<and> 1 < h"
  by (auto simp: entries_def)

section \<open>Lemmas: probing\<close>

lemma on_path_mono:
  assumes "on_path n f h i" and "0 < n" and "\<And>j. j < n \<Longrightarrow> f j \<noteq> 0 \<Longrightarrow> g j \<noteq> 0"
  shows "on_path n g h i"
proof -
  obtain d where "d < n" "(h + d) mod n = i" "\<And>j. j < d \<Longrightarrow> f ((h + j) mod n) \<noteq> 0"
    using assms(1) by (auto simp: on_path_def)
  then have "d < n \<and> (h + d) mod n = i \<and> (\<forall>j<d. g ((h + j) mod n) \<noteq> 0)"
    using assms(2,3) by simp
  then show ?thesis unfolding on_path_def by (rule exI)
qed

lemma chain_insert:
  assumes "chain n f" and "on_path n f (unat h) i" and "h \<noteq> 0"
  shows "chain n (f(i := h))"
proof -
  have "0 < n" using assms(2) by (auto simp: on_path_def)
  have m: "on_path n f a j \<Longrightarrow> on_path n (f(i := h)) a j" for a j
    by (erule on_path_mono) (use \<open>0 < n\<close> assms(3) in auto)
  show ?thesis
    using assms(1,2) m by (auto simp: chain_def)
qed

lemma chain_delete: "chain n f \<Longrightarrow> i < n \<Longrightarrow> chain n (f(i := 1))"
  unfolding chain_def
proof (intro allI impI)
  fix j
  assume c: "\<forall>i<n. 1 < f i \<longrightarrow> on_path n f (unat (f i)) i" and "i < n" "j < n" "1 < (f(i := 1)) j"
  then have "on_path n f (unat ((f(i := 1)) j)) j" by (auto split: if_splits)
  then show "on_path n (f(i := 1)) (unat ((f(i := 1)) j)) j"
    by (rule on_path_mono) (use \<open>i < n\<close> in auto)
qed

text \<open>A walk of \<open>n\<close> steps meets every bucket, so it meets an empty one if there is one.\<close>

lemma walk_meets:
  assumes "i < (n :: nat)"
  shows "\<exists>d<n. (a + d) mod n = i"
proof -
  let ?d = "(i + (n - a mod n)) mod n"
  have a: "a mod n < n" using assms by simp
  have "(a + ?d) mod n = (a + (i + (n - a mod n))) mod n"
    by (simp add: mod_add_right_eq)
  also have "\<dots> = (a mod n + (i + (n - a mod n))) mod n"
    by (simp add: mod_add_left_eq)
  also have "a mod n + (i + (n - a mod n)) = i + n"
    using a by simp
  finally have "(a + ?d) mod n = i" using assms by simp
  moreover have "?d < n" using assms by simp
  ultimately show ?thesis by blast
qed

lemma first_empty:
  fixes f :: "nat \<Rightarrow> u32"
  assumes "i < n" and "f i = 0"
  obtains d where "d < n" "f ((a + d) mod n) = 0" "\<And>j. j < d \<Longrightarrow> f ((a + j) mod n) \<noteq> 0"
proof -
  let ?P = "\<lambda>d. f ((a + d) mod n) = 0"
  obtain d where d: "d < n" "?P d" using walk_meets [OF assms(1), of a] assms(2) by metis
  show thesis
  proof (rule that)
    show "?P (LEAST d. ?P d)" using d(2) by (rule LeastI)
    show "(LEAST d. ?P d) < n" using d Least_le [of ?P d] by simp
    show "f ((a + j) mod n) \<noteq> 0" if "j < (LEAST d. ?P d)" for j
      using that not_less_Least by blast
  qed
qed

lemma next_bucket:
  fixes i :: u32
  assumes "hm_shape m k" and "unat i = a mod 2 ^ k"
  shows "unat ((i + 1) AND sizeMask m) = (a + 1) mod 2 ^ k"
proof -
  note d = hm_shapeD [OF assms(1)]
  have "a mod 2 ^ k < 2 ^ k" by simp
  then have "unat i < 268435456" using assms(2) d(6) by linarith
  then have "unat (i + 1) = unat i + 1" by (simp add: unat_word_ariths)
  then show ?thesis using assms(2) by (simp add: unat_and_mask [OF d(3)] mod_Suc_eq)
qed

lemma hash_bucket: "hm_shape m k \<Longrightarrow> unat (h AND sizeMask m) = unat h mod 2 ^ k"
  by (rule unat_and_mask) (rule hm_shapeD)

lemma used_room:
  assumes "used m < unat (hm_size m)"
  shows "\<exists>i < unat (hm_size m). hs m i = 0"
proof (rule ccontr)
  assume "\<not> ?thesis"
  then have "filter (\<lambda>i. hs m i \<noteq> 0) [0..<unat (hm_size m)] = [0..<unat (hm_size m)]"
    by (auto simp: filter_id_conv)
  with assms show False by (simp add: used_def)
qed

lemma find_empty_Ret:
  assumes "hm_shape m k" and "unat i = a mod 2 ^ k" and "d < n"
    and "hs m ((a + d) mod 2 ^ k) = 0" and "\<And>j. j < d \<Longrightarrow> hs m ((a + j) mod 2 ^ k) \<noteq> 0"
  shows "\<exists>p. find_empty n m i = Ret p \<and> unat p = (a + d) mod 2 ^ k"
  using assms(2-)
proof (induction d arbitrary: n i a)
  case 0
  then obtain n' where "n = Suc n'" by (cases n) auto
  moreover have "unat i < 2 ^ k" using 0 by simp
  ultimately show ?case
    using 0 by (simp add: getHash_Ret [OF assms(1)] emptyBucket_def)
next
  case (Suc d)
  then obtain n' where n: "n = Suc n'" by (cases n) auto
  have i: "unat i < 2 ^ k" using Suc.prems by simp
  have "hs m (unat i) \<noteq> 0" using Suc.prems(4) [of 0] Suc.prems(1) by simp
  moreover have "\<exists>p. find_empty n' m ((i + 1) AND sizeMask m) = Ret p
      \<and> unat p = ((a + 1) + d) mod 2 ^ k"
  proof (rule Suc.IH)
    show "unat ((i + 1) AND sizeMask m) = (a + 1) mod 2 ^ k"
      using assms(1) Suc.prems(1) by (rule next_bucket)
    show "d < n'" using Suc.prems(2) n by simp
    show "hs m (((a + 1) + d) mod 2 ^ k) = 0" using Suc.prems(3) by simp
    show "hs m (((a + 1) + j) mod 2 ^ k) \<noteq> 0" if "j < d" for j
      using Suc.prems(4) [of "Suc j"] that by simp
  qed
  ultimately show ?case
    using i by (simp add: n getHash_Ret [OF assms(1)] emptyBucket_def)
qed

section \<open>Lemmas: inserting and expanding\<close>

definition hm_core :: "hashmap \<Rightarrow> nat \<Rightarrow> bool" where
  "hm_core m k \<longleftrightarrow> hm_shape m k \<and> chain (2 ^ k) (hs m) \<and> unat (numStoredKeys m) = used m"

lemma hm_inv_core: "hm_inv m \<Longrightarrow> \<exists>k. hm_core m k"
  by (auto simp: hm_inv_def hm_core_def hm_shapeD(2))

lemma used_le: "used m \<le> unat (hm_size m)"
  unfolding used_def by (rule order_trans [OF length_filter_le]) simp

lemma put_bucket_core:
  assumes c: "hm_core m k" and i: "unat i < 2 ^ k" and e: "hs m (unat i) = 0"
    and p: "on_path (2 ^ k) (hs m) (unat h) (unat i)" and h: "1 < h"
  shows "\<exists>m'. put_bucket m i h x = Ret m' \<and> hm_core m' k
    \<and> mset (entries m') = add_mset (h, x) (mset (entries m)) \<and> used m' = Suc (used m)
    \<and> hs m' = (hs m)(unat i := h) \<and> si m' = (si m)(unat i := x)
    \<and> sizeLimit m' = sizeLimit m \<and> numKeysToExpand m' = numKeysToExpand m
    \<and> hm_size m' = hm_size m"
proof -
  have sh: "hm_shape m k" and ch: "chain (2 ^ k) (hs m)" and n: "unat (numStoredKeys m) = used m"
    using c by (simp_all add: hm_core_def)
  note d = hm_shapeD [OF sh]
  define m2 where "m2 = upd_index (upd_hash m (unat i) h) (unat i) x"
  define m' where "m' = m2\<lparr>numStoredKeys := numStoredKeys m2 + 1\<rparr>"
  have put: "put_bucket m i h x = Ret m'"
    using sh i by (simp add: put_bucket_def setHash_Ret setStoreIndex_Ret m2_def m'_def)
  have hs': "hs m' = (hs m)(unat i := h)" and si': "si m' = (si m)(unat i := x)"
    using sh i by (simp_all add: m'_def m2_def hs_upd)
  have fr: "hm_size m' = hm_size m" "sizeLimit m' = sizeLimit m"
    "numKeysToExpand m' = numKeysToExpand m" "hm_shape m' k"
    using sh by (simp_all add: m'_def m2_def)
  have h0: "h \<noteq> 0" using h by auto
  have in_range: "unat i < unat (hm_size m)" using i d(2) by simp
  have u: "used m' = Suc (used m)"
    using used_change [OF in_range fr(1)] hs' e h0 by simp
  have en: "mset (entries m') = add_mset (h, x) (mset (entries m))"
    using entries_change [OF in_range fr(1)] hs' si' e h by simp
  have "unat (numStoredKeys m') = Suc (used m)"
  proof -
    have "used m' \<le> 268435456" using used_le [of m'] d(2,6) fr(1) by simp
    then have "unat (numStoredKeys m) + 1 < 2 ^ 32" using n u by simp
    then show ?thesis using n by (simp add: m'_def m2_def unat_word_ariths)
  qed
  moreover have "chain (2 ^ k) (hs m')"
    using chain_insert [OF ch p h0] hs' by simp
  ultimately have "hm_core m' k" using u fr(4) by (simp add: hm_core_def)
  then show ?thesis using put en u hs' si' fr by blast
qed

lemma find_empty_core:
  assumes c: "hm_core m k" and room: "used m < 2 ^ k"
  shows "\<exists>i. find_empty (unat (hm_size m)) m (h AND sizeMask m) = Ret i \<and> unat i < 2 ^ k
    \<and> hs m (unat i) = 0 \<and> on_path (2 ^ k) (hs m) (unat h) (unat i)"
proof -
  have sh: "hm_shape m k" using c by (simp add: hm_core_def)
  note d = hm_shapeD [OF sh]
  obtain e where "e < 2 ^ k" "hs m e = 0" using used_room [of m] room d(2) by auto
  then obtain dd where dd: "dd < 2 ^ k" "hs m ((unat h + dd) mod 2 ^ k) = 0"
    "\<And>j. j < dd \<Longrightarrow> hs m ((unat h + j) mod 2 ^ k) \<noteq> 0"
    by (rule first_empty [where a = "unat h"]) blast
  have "unat (h AND sizeMask m) = unat h mod 2 ^ k" using sh by (rule hash_bucket)
  then obtain p where "find_empty (2 ^ k) m (h AND sizeMask m) = Ret p"
    "unat p = (unat h + dd) mod 2 ^ k"
    using find_empty_Ret [OF sh _ dd] by blast
  then show ?thesis using dd d(2) by (auto simp: on_path_def)
qed

text \<open>Each round of \<open>expand\<close> moves the entry of one bucket to the new table.\<close>

definition moved :: "hashmap \<Rightarrow> u32 list \<Rightarrow> (u32 \<times> u32) list" where
  "moved m is = map (\<lambda>i. (hs m (unat i), si m (unat i))) (filter (\<lambda>i. 1 < hs m (unat i)) is)"

lemma moved_simps [simp]:
  "moved m [] = []"
  "moved m (i # is) = (if 1 < hs m (unat i) then [(hs m (unat i), si m (unat i))] else []) @ moved m is"
  by (simp_all add: moved_def)

lemma expand_loop_core:
  assumes sh: "hm_shape m k" and nk: "hm_core nm k'" and rng: "\<forall>i\<in>set is. unat i < 2 ^ k"
    and room: "used nm + length is < 2 ^ k'" and nodel: "used nm = length (entries nm)"
  shows "\<exists>nm'. expand_loop m is nm = Ret nm' \<and> hm_core nm' k' \<and> used nm' = length (entries nm')
    \<and> mset (entries nm') = mset (entries nm) + mset (moved m is)
    \<and> sizeLimit nm' = sizeLimit nm \<and> numKeysToExpand nm' = numKeysToExpand nm"
  using nk rng room nodel
proof (induction "is" arbitrary: nm)
  case Nil
  then show ?case by simp
next
  case (Cons i "is")
  have i: "unat i < 2 ^ k" using Cons.prems(2) by simp
  show ?case
  proof (cases "1 < hs m (unat i)")
    case False
    then show ?thesis
      using Cons.IH [OF Cons.prems(1)] Cons.prems i
      by (simp add: getHash_Ret [OF sh] deletedBucket_def)
  next
    case True
    let ?h = "hs m (unat i)" and ?x = "si m (unat i)"
    have r: "used nm < 2 ^ k'" using Cons.prems(3) by simp
    obtain p where p: "find_empty (unat (hm_size nm)) nm (?h AND sizeMask nm) = Ret p"
      "unat p < 2 ^ k'" "hs nm (unat p) = 0" "on_path (2 ^ k') (hs nm) (unat ?h) (unat p)"
      using find_empty_core [OF Cons.prems(1) r, of ?h] by blast
    obtain nm1 where nm1: "put_bucket nm p ?h ?x = Ret nm1" "hm_core nm1 k'"
      "mset (entries nm1) = add_mset (?h, ?x) (mset (entries nm))" "used nm1 = Suc (used nm)"
      "sizeLimit nm1 = sizeLimit nm" "numKeysToExpand nm1 = numKeysToExpand nm"
      using put_bucket_core [OF Cons.prems(1) p(2-4) True] by blast
    have "length (entries nm1) = Suc (length (entries nm))"
      using nm1(3) by (metis size_add_mset size_mset)
    then obtain nm' where nm': "expand_loop m is nm1 = Ret nm'" "hm_core nm' k'"
      "used nm' = length (entries nm')" "mset (entries nm') = mset (entries nm1) + mset (moved m is)"
      "sizeLimit nm' = sizeLimit nm1" "numKeysToExpand nm' = numKeysToExpand nm1"
      using Cons.IH [OF nm1(2)] Cons.prems nm1(4) by fastforce
    have "expand_loop m (i # is) nm = Ret nm'"
      using True p(1) nm1(1) nm'(1) i
      by (simp add: getHash_Ret [OF sh] getStoreIndex_Ret [OF sh] deletedBucket_def)
    then show ?thesis using nm' nm1 True by auto
  qed
qed

lemma fold_mask: "fold (\<lambda>i a. a OR 2 ^ i) [0..<k] 0 = (mask k :: u32)"
  by (induction k) (simp_all add: mask_Suc_exp or.commute)

lemma newHashMap_core:
  assumes "k \<le> 28"
  shows "hm_core (newHashMap (of_nat k) lim) k" and "entries (newHashMap (of_nat k) lim) = []"
    and "used (newHashMap (of_nat k) lim) = 0" and "sizeLimit (newHashMap (of_nat k) lim) = lim"
    and "numKeysToExpand (newHashMap (of_nat k) lim) = load_limit (2 ^ k)"
    and "numStoredKeys (newHashMap (of_nat k) lim) = 0"
proof -
  let ?m = "newHashMap (of_nat k) lim"
  have uk: "unat (of_nat k :: u32) = k" using assms by (simp add: unat_of_nat_small)
  have u8: "unat ((2 :: u32) ^ k * 8) = 8 * 2 ^ k"
    using pow2_bound [OF assms] unat_pow2_u32 [OF assms] by (simp add: unat_word_ariths)
  have m: "?m = \<lparr>sizeLimit = lim, hm_size = 2 ^ k, sizeMask = mask k, sizelog2 = of_nat k,
      numKeysToExpand = load_limit (2 ^ k), numStoredKeys = 0, numDeletedKeys = 0,
      hm_mem = replicate (8 * 2 ^ k) 0\<rparr>"
    by (simp add: newHashMap_def alloc_def setSize_def Let_def uk fold_mask u8)
  have sz: "unat (hm_size ?m) = 2 ^ k" using assms by (simp add: m unat_pow2_u32)
  have z: "hs ?m i = 0" if "i < 2 ^ k" for i
    using that by (simp add: m hs_def)
  then show "entries ?m = []" "used ?m = 0"
    by (auto simp: entries_def used_def sz filter_empty_conv)
  then show "hm_core ?m k"
    using assms z by (simp add: hm_core_def hm_shape_def chain_def) (simp add: m)
  show "sizeLimit ?m = lim" "numKeysToExpand ?m = load_limit (2 ^ k)" "numStoredKeys ?m = 0"
    by (simp_all add: m)
qed

lemma load_limit_unat: "k \<le> 28 \<Longrightarrow> unat (load_limit (2 ^ k)) = (2 ^ k * 6305039478318694) div 2 ^ 53"
proof -
  assume k: "k \<le> 28"
  have "(2 :: nat) ^ k * 6305039478318694 div 2 ^ 53 \<le> 268435456 * 6305039478318694 div 2 ^ 53"
    using pow2_bound [OF k] by (intro div_le_mono mult_le_mono1)
  then have "(2 :: nat) ^ k * 6305039478318694 div 2 ^ 53 < 2 ^ 32" by simp
  then have small: "unat (of_nat (2 ^ k * 6305039478318694 div 2 ^ 53) :: u32)
      = 2 ^ k * 6305039478318694 div 2 ^ 53"
    by (intro unat_of_nat_small) simp
  have "uint ((2 :: u32) ^ k) = int (2 ^ k)"
    using unat_pow2_u32 [OF k] by (metis of_nat_unat)
  then have "(uint ((2 :: u32) ^ k) * 6305039478318694) div 2 ^ 53
      = int (2 ^ k * 6305039478318694 div 2 ^ 53)"
    by (simp only: zdiv_int of_nat_mult of_nat_power of_nat_numeral)
  then have "load_limit (2 ^ k) = of_nat (2 ^ k * 6305039478318694 div 2 ^ 53)"
    by (simp only: load_limit_def of_int_of_nat_eq)
  then show ?thesis using small by simp
qed

text \<open>There is always an empty bucket, and doubling the table always makes room for one more key.\<close>

lemma load_limit_less: "k \<le> 28 \<Longrightarrow> unat (load_limit (2 ^ k)) < 2 ^ k"
proof -
  assume k: "k \<le> 28"
  have "(2 :: nat) ^ k * 6305039478318694 < 2 ^ k * 2 ^ 53" by simp
  then show ?thesis
    unfolding load_limit_unat [OF k] by (simp only: less_mult_imp_div_less)
qed

lemma load_limit_double:
  assumes "k < 28"
  shows "unat (load_limit (2 ^ k)) < unat (load_limit (2 ^ Suc k))"
proof -
  have "k \<in> set [0..<28]" using assms by simp
  then have "k = 0 \<or> 2 ^ 53 \<le> 2 ^ k * (6305039478318694 :: nat)"
    by (simp add: upt_rec) auto
  then have "(2 ^ k * 6305039478318694) div 2 ^ 53 < (2 ^ Suc k * 6305039478318694) div (2 ^ 53 :: nat)"
  proof
    assume "k = 0"
    then show ?thesis by simp
  next
    assume ge: "2 ^ 53 \<le> 2 ^ k * (6305039478318694 :: nat)"
    have "2 ^ k * 6305039478318694 + 2 ^ 53 \<le> 2 ^ Suc k * (6305039478318694 :: nat)"
      using ge by simp
    then have "(2 ^ k * 6305039478318694 + 2 ^ 53) div 2 ^ 53
        \<le> (2 ^ Suc k * 6305039478318694) div (2 ^ 53 :: nat)"
      by (rule div_le_mono)
    then show ?thesis by simp
  qed
  then show ?thesis
    using load_limit_unat [of k] load_limit_unat [of "Suc k"] assms by simp
qed

lemma hm_inv_room: "hm_inv m \<Longrightarrow> used m < unat (hm_size m)"
proof -
  assume inv: "hm_inv m"
  then obtain k where sh: "hm_shape m k" by (auto simp: hm_inv_def)
  note d = hm_shapeD [OF sh]
  have "used m \<le> unat (numKeysToExpand m)"
    using inv by (simp add: hm_inv_def word_le_nat_alt)
  also have "\<dots> < 2 ^ k" using load_limit_less [OF d(1)] d(5) by simp
  finally show ?thesis using d(2) by simp
qed

lemma entries_upt:
  assumes "hm_shape m k"
  shows "moved m (map of_nat [0..<unat (hm_size m)]) = entries m"
proof -
  note d = hm_shapeD [OF assms]
  have u: "unat (of_nat i :: u32) = i" if "i < 2 ^ k" for i
    using that d(6) by (intro unat_of_nat_small) simp
  have "moved m (map of_nat xs) = map (\<lambda>i. (hs m i, si m i)) (filter (\<lambda>i. 1 < hs m i) xs)"
    if "set xs \<subseteq> {..<2 ^ k}" for xs
    using that by (induction xs) (auto simp: u)
  from this [of "[0..<unat (hm_size m)]"] show ?thesis
    using d(2) by (simp add: entries_def lessThan_atLeast0)
qed

definition can_grow :: "hashmap \<Rightarrow> bool" where
  "can_grow m \<longleftrightarrow> 2 * unat (hm_size m) \<le> unat (sizeLimit m)"

lemma grow_test:
  assumes "hm_shape m k"
  shows "hm_size m * 2 > sizeLimit m \<longleftrightarrow> \<not> can_grow m"
proof -
  note d = hm_shapeD [OF assms]
  have "unat (hm_size m * 2) = 2 * unat (hm_size m)"
    using d(2,6) by (simp add: unat_word_ariths)
  then show ?thesis by (simp add: can_grow_def word_less_nat_alt not_le)
qed

lemma expand_full: "hm_inv m \<Longrightarrow> \<not> can_grow m \<Longrightarrow> expand m = Ret (Some hm_full, m)"
  by (auto simp: hm_inv_def expand_def grow_test)

lemma expand_grow:
  assumes inv: "hm_inv m" and g: "can_grow m"
  shows "\<exists>m'. expand m = Ret (None, m') \<and> hm_inv m' \<and> mset (entries m') = mset (entries m)
    \<and> numStoredKeys m' < numKeysToExpand m' \<and> unat (hm_size m') = 2 * unat (hm_size m)
    \<and> sizeLimit m' = sizeLimit m \<and> used m' = length (entries m')"
proof -
  obtain k where sh: "hm_shape m k" using inv by (auto simp: hm_inv_def)
  note d = hm_shapeD [OF sh]
  have "2 ^ Suc k \<le> (2 :: nat) ^ 28"
    using g inv d(2) by (simp add: can_grow_def hm_inv_def)
  then have "Suc k \<le> 28" by (rule power_le_imp_le_exp [rotated]) simp
  then have k: "k < 28" and Sk: "Suc k \<le> 28" by simp_all
  have l2: "sizelog2 m + 1 = of_nat (Suc k)" using d(7) by (simp add: add.commute)
  define nm where "nm = newHashMap (of_nat (Suc k)) (sizeLimit m)"
  note nmc = newHashMap_core [OF Sk, of "sizeLimit m", folded nm_def]
  let ?is = "map of_nat [0..<unat (hm_size m)] :: u32 list"
  have "\<forall>i\<in>set ?is. unat i < 2 ^ k"
    using d(2,6) by (auto simp: unat_of_nat intro: order.strict_trans1 [OF mod_less_eq_dividend])
  moreover have "used nm + length ?is < 2 ^ Suc k" using nmc(3) d(2) by simp
  moreover have "used nm = length (entries nm)" using nmc(2,3) by simp
  ultimately obtain m' where m': "expand_loop m ?is nm = Ret m'" "hm_core m' (Suc k)"
    "used m' = length (entries m')" "mset (entries m') = mset (entries m)"
    "sizeLimit m' = sizeLimit m" "numKeysToExpand m' = load_limit (2 ^ Suc k)"
    using expand_loop_core [OF sh nmc(1), of ?is] nmc(2,4,5) entries_upt [OF sh] by auto
  have "used m' \<le> used m"
    using m'(3,4) entries_le_used [of m] by (metis size_mset)
  also have "\<dots> \<le> unat (load_limit (2 ^ k))"
    using inv d(5) by (simp add: hm_inv_def word_le_nat_alt)
  also have "\<dots> < unat (numKeysToExpand m')"
    using load_limit_double [OF k] m'(6) by simp
  finally have lt: "numStoredKeys m' < numKeysToExpand m'"
    using m'(2) by (simp add: hm_core_def word_less_nat_alt)
  have sz: "unat (hm_size m') = 2 * unat (hm_size m)"
    using m'(2) d(2) hm_shapeD(2) [of m' "Suc k"] by (simp add: hm_core_def)
  have "hm_inv m'"
    using m'(2,5) lt inv sz g by (auto simp: hm_inv_def hm_core_def hm_shapeD(2) can_grow_def)
  moreover have "expand m = Ret (None, m')"
    using g m'(1) by (simp add: expand_def grow_test [OF sh] l2 nm_def)
  ultimately show ?thesis using m'(3,4,5) lt sz by blast
qed

lemma newHashMap_inv:
  assumes "2 ^ k \<le> unat lim" and "unat lim \<le> 2 ^ 28"
  shows "hm_inv (newHashMap (of_nat k) lim)" and "entries (newHashMap (of_nat k) lim) = []"
proof -
  have "(2 :: nat) ^ k \<le> 2 ^ 28" using assms by (rule order_trans)
  then have "k \<le> 28" by (rule power_le_imp_le_exp [rotated]) simp
  then show "hm_inv (newHashMap (of_nat k) lim)" "entries (newHashMap (of_nat k) lim) = []"
    using newHashMap_core [of k lim] assms by (auto simp: hm_inv_def hm_core_def hm_shapeD(2))
qed

section \<open>Lemmas: changing one bucket\<close>

lemma put_bucket_inv:
  assumes inv: "hm_inv m" and room: "numStoredKeys m < numKeysToExpand m"
    and i: "unat i < unat (hm_size m)" and e: "hs m (unat i) = 0"
    and p: "on_path (unat (hm_size m)) (hs m) (unat h) (unat i)" and h: "1 < h"
  shows "\<exists>m'. put_bucket m i h x = Ret m' \<and> hm_inv m'
    \<and> mset (entries m') = add_mset (h, x) (mset (entries m))
    \<and> sizeLimit m' = sizeLimit m \<and> used m' = Suc (used m)"
proof -
  obtain k where c: "hm_core m k" using hm_inv_core [OF inv] by blast
  then have sz: "unat (hm_size m) = 2 ^ k" by (simp add: hm_core_def hm_shapeD(2))
  obtain m' where m': "put_bucket m i h x = Ret m'" "hm_core m' k"
    "mset (entries m') = add_mset (h, x) (mset (entries m))" "used m' = Suc (used m)"
    "sizeLimit m' = sizeLimit m" "numKeysToExpand m' = numKeysToExpand m" "hm_size m' = hm_size m"
    using put_bucket_core [OF c _ e _ h] i p unfolding sz by blast
  have "unat (numStoredKeys m') \<le> unat (numKeysToExpand m')"
    using m'(2,4,6) c room by (simp add: hm_core_def word_less_nat_alt)
  then have "hm_inv m'"
    using m'(2,5,7) inv sz by (auto simp: hm_inv_def hm_core_def word_le_nat_alt)
  with m' show ?thesis by blast
qed

lemma replace_inv:
  assumes inv: "hm_inv m" and i: "unat i < unat (hm_size m)" and e: "hs m (unat i) = h" and h: "1 < h"
  shows "\<exists>m' E. bindG (setHash m i h) (\<lambda>hm. setStoreIndex hm i x) = Ret m' \<and> hm_inv m'
    \<and> mset (entries m) = add_mset (h, si m (unat i)) E \<and> mset (entries m') = add_mset (h, x) E
    \<and> sizeLimit m' = sizeLimit m \<and> used m' = used m"
proof -
  obtain k where sh: "hm_shape m k" using inv by (auto simp: hm_inv_def)
  have sz: "unat (hm_size m) = 2 ^ k" using sh by (rule hm_shapeD)
  have ik: "unat i < 2 ^ k" using i sz by simp
  define m' where "m' = upd_index (upd_hash m (unat i) h) (unat i) x"
  have sh': "hm_shape m' k" "hm_shape (upd_hash m (unat i) h) k" using sh by (simp_all add: m'_def)
  have ex: "bindG (setHash m i h) (\<lambda>hm. setStoreIndex hm i x) = Ret m'"
    by (simp add: setHash_Ret [OF sh ik] setStoreIndex_Ret [OF sh'(2) ik] m'_def)
  have hs: "hs m' = hs m" and si: "si m' = (si m)(unat i := x)"
    using e by (auto simp: m'_def hs_upd [OF sh'(2) ik] hs_upd [OF sh ik])
  have fr: "hm_size m' = hm_size m" "sizeLimit m' = sizeLimit m"
    "numStoredKeys m' = numStoredKeys m" "numKeysToExpand m' = numKeysToExpand m"
    by (simp_all add: m'_def)
  have us: "used m' = used m" by (simp add: used_def hs fr)
  then have inv': "hm_inv m'" using inv sh' by (auto simp: hm_inv_def hs fr)
  have en: "mset (entries m') + {#(h, si m (unat i))#} = mset (entries m) + {#(h, x)#}"
    using entries_change [OF i fr(1)] h e by (simp add: hs si)
  have "(h, si m (unat i)) \<in># mset (entries m)" using entries_nth [OF i] e h by simp
  then obtain E where E: "mset (entries m) = add_mset (h, si m (unat i)) E"
    by (metis mset_add)
  with en have "mset (entries m') = add_mset (h, x) E" by simp
  with ex inv' E fr us show ?thesis by blast
qed

lemma delete_inv:
  assumes inv: "hm_inv m" and i: "unat i < unat (hm_size m)" and h: "1 < hs m (unat i)"
  shows "\<exists>m'. setHash m i deletedBucket = Ret m' \<and> hm_inv m'
    \<and> mset (entries m) = add_mset (hs m (unat i), si m (unat i)) (mset (entries m'))
    \<and> sizeLimit m' = sizeLimit m \<and> used m' = used m"
proof -
  obtain k where sh: "hm_shape m k" using inv by (auto simp: hm_inv_def)
  have sz: "unat (hm_size m) = 2 ^ k" using sh by (rule hm_shapeD)
  have ik: "unat i < 2 ^ k" using i sz by simp
  define m' where "m' = upd_hash m (unat i) deletedBucket"
  have sh': "hm_shape m' k" using sh by (simp add: m'_def)
  have hs: "hs m' = (hs m)(unat i := 1)" and si: "si m' = si m"
    by (simp_all add: m'_def hs_upd [OF sh ik] deletedBucket_def)
  have fr: "hm_size m' = hm_size m" "sizeLimit m' = sizeLimit m"
    "numStoredKeys m' = numStoredKeys m" "numKeysToExpand m' = numKeysToExpand m"
    by (simp_all add: m'_def)
  have h0: "hs m (unat i) \<noteq> 0" using h by auto
  have us: "used m' = used m"
    using used_change [OF i fr(1)] h0 by (simp add: hs)
  moreover have "chain (2 ^ k) (hs m')"
    using inv sz ik unfolding hs hm_inv_def by (intro chain_delete) simp_all
  ultimately have inv': "hm_inv m'" using inv sh' sz by (auto simp: hm_inv_def fr)
  have "mset (entries m) = add_mset (hs m (unat i), si m (unat i)) (mset (entries m'))"
    using entries_change [OF i fr(1)] h by (simp add: hs si)
  moreover have "setHash m i deletedBucket = Ret m'"
    by (simp add: setHash_Ret [OF sh ik] m'_def)
  ultimately show ?thesis using inv' fr us by blast
qed

text \<open>
  The capacity of a table: it accepts another key as long as fewer buckets are in use than
  the load limit of its largest size.
\<close>

lemma room_or_grow:
  assumes inv: "hm_inv m" and lim: "unat (sizeLimit m) = 2 ^ j"
    and u: "used m < unat (load_limit (2 ^ j))"
  shows "numStoredKeys m < numKeysToExpand m \<or> can_grow m"
proof (cases "can_grow m")
  case False
  obtain k where sh: "hm_shape m k" using inv by (auto simp: hm_inv_def)
  note d = hm_shapeD [OF sh]
  have "(2 :: nat) ^ k \<le> 2 ^ j" using inv lim d(2) by (simp add: hm_inv_def)
  then have kj: "k \<le> j" by (rule power_le_imp_le_exp [rotated]) simp
  have "\<not> Suc k \<le> j"
  proof
    assume "Suc k \<le> j"
    then have "(2 :: nat) ^ Suc k \<le> 2 ^ j" by (rule power_increasing) simp
    with False lim d(2) show False by (simp add: can_grow_def)
  qed
  then have "k = j" using kj by simp
  then show ?thesis
    using u d(5) inv by (simp add: hm_inv_def word_less_nat_alt)
qed simp

end
