(* ===== verification/Sync_Checksum.thy ===== *)
theory Sync_Checksum
  imports Treeless_Prelude "HOL-Library.Multiset"
begin

text \<open>
  The time-stable checksum of a chunk (src/core/pmap/syncchecksum.go): three running sums
  over windows that end at whole seconds. Replicas compare the oldest one.
\<close>

section \<open>Definitions\<close>

record syncChecksum =
  newChecksum :: u64
  mediumChecksum :: u64
  oldChecksum :: u64
  newTime :: time
  mediumTime :: time
  oldTime :: time

text \<open>The zero value of the struct.\<close>

definition zeroChecksum :: syncChecksum where
  "zeroChecksum = \<lparr>newChecksum = 0, mediumChecksum = 0, oldChecksum = 0,
     newTime = zero_time, mediumTime = zero_time, oldTime = zero_time\<rparr>"

definition sc_sum :: "syncChecksum \<Rightarrow> u64 \<Rightarrow> time \<Rightarrow> syncChecksum" where
  "sc_sum s el t =
     (let s1 = (if t > newTime s
                then s\<lparr>oldTime := mediumTime s, mediumTime := newTime s,
                       newTime := (unix_sec t + 1) * second,
                       oldChecksum := mediumChecksum s, mediumChecksum := newChecksum s\<rparr>
                else s);
          s2 = s1\<lparr>newChecksum := newChecksum s1 + el\<rparr>;
          s3 = (if t < mediumTime s2 then s2\<lparr>mediumChecksum := mediumChecksum s2 + el\<rparr> else s2)
      in if t < oldTime s3 then s3\<lparr>oldChecksum := oldChecksum s3 + el\<rparr> else s3)"

definition sc_sub :: "syncChecksum \<Rightarrow> u64 \<Rightarrow> time \<Rightarrow> syncChecksum" where
  "sc_sub s el t = sc_sum s (- el) t"

text \<open>\<open>checksum()\<close> first moves the windows to the present.\<close>

definition sc_checksum :: "syncChecksum \<Rightarrow> time \<Rightarrow> u64 \<times> syncChecksum" where
  "sc_checksum s now = (let s' = sc_sum s 0 now in (oldChecksum s', s'))"

text \<open>A run of contributions, and the sum of those stamped before an instant.\<close>

definition sc_run :: "(u64 \<times> time) list \<Rightarrow> syncChecksum" where
  "sc_run cs = fold (\<lambda>(el, t) s. sc_sum s el t) cs zeroChecksum"

definition total :: "(u64 \<times> time) list \<Rightarrow> u64" where
  "total cs = sum_list (map fst cs)"

definition before :: "time \<Rightarrow> (u64 \<times> time) list \<Rightarrow> u64" where
  "before w cs = total (filter (\<lambda>(el, t). t < w) cs)"

text \<open>No contribution is stamped at a whole second, where the windows meet.\<close>

definition off_boundary :: "(u64 \<times> time) list \<Rightarrow> bool" where
  "off_boundary cs \<longleftrightarrow> (\<forall>(el, t)\<in>set cs. el \<noteq> 0 \<longrightarrow> \<not> second dvd t)"

section \<open>Lemmas\<close>

lemma sc_run_snoc: "sc_run (cs @ [(el, t)]) = sc_sum (sc_run cs) el t"
  by (simp add: sc_run_def)

lemma total_simps [simp]:
  "total [] = 0" "total ((el, t) # cs) = el + total cs" "total (a @ b) = total a + total b"
  by (simp_all add: total_def)

lemma before_simps [simp]:
  "before w [] = 0" "before w ((el, t) # cs) = (if t < w then el else 0) + before w cs"
  "before w (a @ b) = before w a + before w b"
  by (simp_all add: before_def)

lemma before_all: "\<forall>(el, t)\<in>set cs. el \<noteq> 0 \<longrightarrow> t < w \<Longrightarrow> before w cs = total cs"
  by (induction cs) (auto split: if_splits)

lemma newChecksum_sum [simp]:
  "newChecksum (sc_sum s el t) = newChecksum s + el"
  "newChecksum (sc_sub s el t) = newChecksum s - el"
  by (simp_all add: sc_sum_def sc_sub_def Let_def)

lemma second_window: "t < (unix_sec t + 1) * second"
  by (simp add: unix_sec_def second_def)

text \<open>What the windows hold, and how they are ordered, after any run.\<close>

definition windows_ok :: "(u64 \<times> time) list \<Rightarrow> syncChecksum \<Rightarrow> bool" where
  "windows_ok cs s \<longleftrightarrow> newChecksum s = total cs
     \<and> mediumChecksum s = before (mediumTime s) cs \<and> oldChecksum s = before (oldTime s) cs
     \<and> oldTime s \<le> mediumTime s \<and> mediumTime s \<le> newTime s \<and> second dvd newTime s
     \<and> (\<forall>(el, t)\<in>set cs. el \<noteq> 0 \<longrightarrow> t < newTime s)"

lemma windows_ok_sum:
  assumes w: "windows_ok cs s" and b: "el \<noteq> 0 \<longrightarrow> \<not> second dvd t"
  shows "windows_ok (cs @ [(el, t)]) (sc_sum s el t)"
proof (cases "t > newTime s")
  case True
  have "before (newTime s) cs = total cs"
    using w by (intro before_all) (simp add: windows_ok_def)
  moreover have "\<forall>(el, t')\<in>set cs. el \<noteq> 0 \<longrightarrow> t' < (unix_sec t + 1) * second"
    using w True second_window [of t] by (fastforce simp: windows_ok_def)
  ultimately show ?thesis
    using w True second_window [of t] by (auto simp: windows_ok_def sc_sum_def Let_def)
next
  case False
  have "el \<noteq> 0 \<longrightarrow> t < newTime s"
    using False b w by (auto simp: windows_ok_def intro: order.not_eq_order_implies_strict)
  with False w show ?thesis
    by (auto simp: windows_ok_def sc_sum_def Let_def)
qed

lemma windows_ok_run: "off_boundary cs \<Longrightarrow> windows_ok cs (sc_run cs)"
proof (induction cs rule: rev_induct)
  case Nil
  then show ?case
    by (simp add: windows_ok_def sc_run_def zeroChecksum_def zero_time_def second_def)
next
  case (snoc c cs)
  obtain el t where "c = (el, t)" by fastforce
  with snoc show ?case
    by (simp add: off_boundary_def sc_run_snoc windows_ok_sum)
qed

lemma total_mset: "total cs = (\<Sum>c\<in>#mset cs. fst c)"
  by (induction cs) (auto simp: total_def)

lemma before_mset: "mset cs = mset ds \<Longrightarrow> before w cs = before w ds"
  by (simp add: before_def total_mset)

lemma sc_sum_eval:
  "sc_sum \<lparr>newChecksum = n, mediumChecksum = m, oldChecksum = a, newTime = nt, mediumTime = mt,
      oldTime = at\<rparr> el t =
     (if nt < t
      then \<lparr>newChecksum = n + el, mediumChecksum = n,
             oldChecksum = (if t < mt then m + el else m),
             newTime = (unix_sec t + 1) * second, mediumTime = nt, oldTime = mt\<rparr>
      else \<lparr>newChecksum = n + el, mediumChecksum = (if t < mt then m + el else m),
             oldChecksum = (if t < at then a + el else a),
             newTime = nt, mediumTime = mt, oldTime = at\<rparr>)"
  by (simp add: sc_sum_def Let_def)

lemmas sc_eval = sc_run_def zeroChecksum_def sc_sum_eval zero_time_def unix_sec_def second_def

section \<open>Properties\<close>

text \<open>C7: the checksum a replica reports depends only on what it received and on the window it
  is in, not on the order of arrival: two replicas that applied the same contributions
  (none stamped at a whole second) and are in the same window report the same checksum.\<close>

theorem replicas_agree:
  assumes "off_boundary cs" and "mset cs = mset ds"
    and "oldTime (sc_run cs) = oldTime (sc_run ds)"
  shows "oldChecksum (sc_run cs) = oldChecksum (sc_run ds)"
proof -
  have "off_boundary ds"
    using assms(1) mset_eq_setD [OF assms(2)] by (simp add: off_boundary_def)
  then have "oldChecksum (sc_run ds) = before (oldTime (sc_run ds)) ds"
    using windows_ok_run by (simp add: windows_ok_def)
  moreover have "oldChecksum (sc_run cs) = before (oldTime (sc_run cs)) cs"
    using windows_ok_run assms(1) by (simp add: windows_ok_def)
  ultimately show ?thesis using assms(3) before_mset [OF assms(2)] by simp
qed

definition ex_stream1 :: "(u64 \<times> time) list" where
  "ex_stream1 = [(5, 100), (7, 200), (0, 1500000000), (9, 300), (0, 2500000000)]"

definition ex_stream2 :: "(u64 \<times> time) list" where
  "ex_stream2 = [(7, 200), (9, 300), (5, 100), (0, 1500000000), (0, 2500000000)]"

theorem replicas_agree_witness:
  "oldTime (sc_run ex_stream1) = 1000000000 \<and> oldChecksum (sc_run ex_stream1) = 21
   \<and> oldChecksum (sc_run ex_stream1) = oldChecksum (sc_run ex_stream2)"
proof -
  note ev = ex_stream1_def ex_stream2_def sc_eval
  have "off_boundary ex_stream1" by (simp add: off_boundary_def ex_stream1_def second_def)
  moreover have "mset ex_stream1 = mset ex_stream2" by (simp add: ex_stream1_def ex_stream2_def)
  moreover have "oldTime (sc_run ex_stream1) = oldTime (sc_run ex_stream2)" by (simp add: ev)
  ultimately have "oldChecksum (sc_run ex_stream1) = oldChecksum (sc_run ex_stream2)"
    by (rule replicas_agree)
  then show ?thesis by (simp add: ev)
qed

text \<open>a contribution stamped at a whole second falls between the windows: the same three
  contributions in two orders leave two replicas in the same window with different
  checksums, although they hold the same data.\<close>

lemma boundary_disagreement:
  "let r1 = sc_run [(5, 100), (7, 1000000000), (0, 1500000000), (0, 2500000000)];
       r2 = sc_run [(5, 100), (0, 1500000000), (7, 1000000000), (0, 2500000000)]
   in newChecksum r1 = newChecksum r2 \<and> oldTime r1 = oldTime r2
      \<and> oldChecksum r1 = 12 \<and> oldChecksum r2 = 5"
  by (simp add: sc_eval Let_def)

end
