(* ===== verification/PMap.thy ===== *)
theory PMap
  imports Store Hash_Map Sync_Checksum
begin

text \<open>
  The persistent map of a chunk (src/core/pmap/pmap.go): the hash map indexes the records
  of the store, and the checksum sums up the live pairs. This theory translates the
  operations; the theories \<open>PMap_Rep\<close> and \<open>PMap_Spec\<close> hold the representation invariant and
  the properties.

  Values carry an 8-byte time stamp in front. Arguments are slices whose capacity is their
  length, as \<open>protocol.Unmarshal\<close> builds them; slices of the store keep the capacity of
  the mapping.
\<close>

section \<open>State\<close>

record pmap =
  pm_hm :: hashmap
  pm_st :: store
  pm_checksum :: syncChecksum
  pm_path :: string

definition pm_New :: "os_env \<Rightarrow> fs \<Rightarrow> string \<Rightarrow> u64 \<Rightarrow> (pmap \<times> fs) go" where
  "pm_New os d path sz =
     bindG (newStore os d path sz) (\<lambda>(st, d').
     Ret (\<lparr>pm_hm = newHashMap defaultHashMapInitialLog2Size defaultHashMapSizeLimit,
           pm_st = st, pm_checksum = zeroChecksum, pm_path = path\<rparr>, d'))"

text \<open>\<open>binary.LittleEndian.Uint64(value[:8])\<close>, of an argument and of a slice of the store.\<close>

definition stamp8 :: "bytes \<Rightarrow> u64 go" where
  "stamp8 value = bindG (slice_of value 0 8) Uint64"

definition slice_stamp8 :: "slice \<Rightarrow> u64 go" where
  "slice_stamp8 s = bindG (reslice s 0 8) Uint64"

section \<open>Probing\<close>

text \<open>
  The search loop shared by \<open>Get\<close>, \<open>Set\<close>, \<open>CAS\<close>, \<open>Del\<close> and \<open>restorePair\<close>: walk from the
  bucket of \<open>h\<close> until a bucket is empty, or has the hash \<open>h\<close> and the key. The table does
  not change during the walk, so a walk over all its buckets that finds neither never
  ends.
\<close>

datatype probe_result = PEmpty u32 | PFound u32 u32

fun probe :: "nat \<Rightarrow> hashmap \<Rightarrow> store \<Rightarrow> u32 \<Rightarrow> bytes \<Rightarrow> u32 \<Rightarrow> probe_result go" where
  "probe 0 hm st h key index = Loop"
| "probe (Suc n) hm st h key index =
     bindG (getHash hm index) (\<lambda>storedHash.
       if storedHash = emptyBucket then Ret (PEmpty index)
       else if h = storedHash then
         bindG (getStoreIndex hm index) (\<lambda>stIndex.
         bindG (read_key st stIndex) (\<lambda>storedKey.
           if storedKey = key then Ret (PFound index stIndex)
           else probe n hm st h key ((index + 1) AND sizeMask hm)))
       else probe n hm st h key ((index + 1) AND sizeMask hm))"

definition search :: "pmap \<Rightarrow> u32 \<Rightarrow> bytes \<Rightarrow> probe_result go" where
  "search c h key =
     probe (unat (hm_size (pm_hm c))) (pm_hm c) (pm_st c) h key (h AND sizeMask (pm_hm c))"

text \<open>The check for available space at the head of the operations that insert.\<close>

definition check_space :: "pmap \<Rightarrow> (err \<times> pmap) go" where
  "check_space c =
     (if numStoredKeys (pm_hm c) \<ge> numKeysToExpand (pm_hm c)
      then bindG (expand (pm_hm c)) (\<lambda>(e, hm). Ret (e, c\<lparr>pm_hm := hm\<rparr>))
      else Ret (None, c))"

section \<open>Primitives\<close>

text \<open>\<open>Get\<close> searches with the hash it is given; its error is always \<open>nil\<close>.\<close>

definition pm_Get :: "pmap \<Rightarrow> u32 \<Rightarrow> bytes \<Rightarrow> bytes option go" where
  "pm_Get c h32 key =
     bindG (search c h32 key) (\<lambda>r. case r of
       PEmpty index \<Rightarrow> Ret None
     | PFound index stIndex \<Rightarrow>
         bindG (read_val (pm_st c) stIndex) (\<lambda>v. Ret (Some v)))"

abbreviation short_value :: string where
  "short_value \<equiv> ''Error: message value len < 8''"

text \<open>Putting a new pair at an empty bucket, and replacing the pair of a bucket.\<close>

definition insert_pair :: "pmap \<Rightarrow> u64 \<Rightarrow> bytes \<Rightarrow> bytes \<Rightarrow> u32 \<Rightarrow> u32 \<Rightarrow> (err \<times> pmap) go" where
  "insert_pair c h64 key value h index =
     bindG (st_put (pm_st c) key value) (\<lambda>(res, st). case res of
       Inl e \<Rightarrow> Ret (Some e, c\<lparr>pm_st := st\<rparr>)
     | Inr storeIndex \<Rightarrow>
         bindG (put_bucket (pm_hm c) index h storeIndex) (\<lambda>hm.
         bindG (stamp8 value) (\<lambda>ts.
         Ret (None, c\<lparr>pm_hm := hm, pm_st := st,
                      pm_checksum := sc_sum (pm_checksum c) (h64 XOR ts) (unix_nano ts)\<rparr>))))"

definition replace_index :: "pmap \<Rightarrow> u32 \<Rightarrow> u32 \<Rightarrow> u32 \<Rightarrow> hashmap go" where
  "replace_index c index h storeIndex =
     bindG (setHash (pm_hm c) index h) (\<lambda>hm. setStoreIndex hm index storeIndex)"

definition pm_Set :: "pmap \<Rightarrow> u64 \<Rightarrow> bytes \<Rightarrow> bytes \<Rightarrow> (err \<times> pmap) go" where
  "pm_Set c h64 key value =
     (if length value < 8 then Ret (Some short_value, c)
      else bindG (check_space c) (\<lambda>(e, c1).
        if e \<noteq> None then Ret (e, c1)
        else let h = hashReMap (ucast h64) in
          bindG (search c1 h key) (\<lambda>r. case r of
            PEmpty index \<Rightarrow> insert_pair c1 h64 key value h index
          | PFound index stIndex \<Rightarrow>
              bindG (st_val (pm_st c1) (ucast stIndex)) (\<lambda>v.
              bindG (slice_stamp8 v) (\<lambda>ots.
              bindG (stamp8 value) (\<lambda>ts.
              let oldT = unix_nano ots; t = unix_nano ts in
              if oldT > t \<or> oldT = t then Ret (None, c1)
              else bindG (st_put (pm_st c1) key value) (\<lambda>(res, st). case res of
                  Inl e \<Rightarrow> Ret (Some e, c1\<lparr>pm_st := st\<rparr>)
                | Inr storeIndex \<Rightarrow>
                    bindG (replace_index c1 index h storeIndex) (\<lambda>hm.
                    Ret (None, c1\<lparr>pm_hm := hm, pm_st := st,
                      pm_checksum := sc_sum (sc_sub (pm_checksum c1) (h64 XOR ots) t)
                                       (h64 XOR ts) t\<rparr>)))))))))"

abbreviation cas_short :: string where "cas_short \<equiv> ''Error: CAS value len < 16''"
abbreviation cas_empty :: string where "cas_empty \<equiv> ''CAS failed: empty pair: non-zero timestamp''"
abbreviation cas_time :: string where "cas_time \<equiv> ''CAS failed: timestamp mismatch''"
abbreviation cas_hash :: string where "cas_hash \<equiv> ''CAS failed: hash mismatch''"

text \<open>
  \<open>CAS\<close>: bytes 0 to 8 of the argument are the expected stamp, 8 to 16 the hash of the
  expected value, and the rest is the new stamped value.
\<close>

definition pm_CAS :: "pmap \<Rightarrow> u64 \<Rightarrow> bytes \<Rightarrow> bytes \<Rightarrow> (err \<times> pmap) go" where
  "pm_CAS c h64 key value =
     (if length value < 24 then Ret (Some cas_short, c)
      else bindG (check_space c) (\<lambda>(e, c1).
        if e \<noteq> None then Ret (e, c1)
        else
          bindG (stamp8 value) (\<lambda>pts.
          bindG (bindG (slice_of value 8 16) Uint64) (\<lambda>hv.
          bindG (bindG (slice_of value 16 24) Uint64) (\<lambda>ts.
          let providedTime = unix_nano pts; t = unix_nano ts; h = hashReMap (ucast h64);
              newValue = drop 16 value in
          bindG (search c1 h key) (\<lambda>r. case r of
            PEmpty index \<Rightarrow>
              if providedTime \<noteq> 0 \<and> hv \<noteq> FNV1a64 [] then Ret (Some cas_empty, c1)
              else insert_pair c1 h64 key newValue h index
          | PFound index stIndex \<Rightarrow>
              bindG (st_val (pm_st c1) (ucast stIndex)) (\<lambda>v.
              bindG (slice_stamp8 v) (\<lambda>ots.
              if unix_nano ots \<noteq> providedTime then Ret (Some cas_time, c1)
              else bindG (slice_of (content v) 8 (slen v)) (\<lambda>old.
                if hv \<noteq> FNV1a64 old then Ret (Some cas_hash, c1)
                else
                  let sub = sc_sub (pm_checksum c1) (h64 XOR ots) t in
                  bindG (st_put (pm_st c1) key newValue) (\<lambda>(res, st). case res of
                    Inl e \<Rightarrow> Ret (Some e, c1\<lparr>pm_st := st, pm_checksum := sub\<rparr>)
                  | Inr storeIndex \<Rightarrow>
                      bindG (replace_index c1 index h storeIndex) (\<lambda>hm.
                      Ret (None, c1\<lparr>pm_hm := hm, pm_st := st,
                                    pm_checksum := sc_sum sub (h64 XOR ts) t\<rparr>))))))))))))"

text \<open>\<open>Del\<close> marks the bucket as deleted and appends a record without value.\<close>

definition pm_Del :: "pmap \<Rightarrow> u64 \<Rightarrow> bytes \<Rightarrow> bytes \<Rightarrow> (err \<times> pmap) go" where
  "pm_Del c h64 key value =
     (let h = hashReMap (ucast h64) in
      bindG (search c h key) (\<lambda>r. case r of
        PEmpty index \<Rightarrow> Ret (None, c)
      | PFound index stIndex \<Rightarrow>
          bindG (st_val (pm_st c) (ucast stIndex)) (\<lambda>v.
          bindG (slice_stamp8 v) (\<lambda>ots.
          bindG (stamp8 value) (\<lambda>ts.
          let oldT = unix_nano ots; t = unix_nano ts in
          if t < oldT then Ret (None, c)
          else
            let st1 = (pm_st c)\<lparr>st_deleted := st_deleted (pm_st c)
                         + of_nat (12 + length key + slen v)\<rparr> in
            bindG (setHash (pm_hm c) index deletedBucket) (\<lambda>hm.
            bindG (st_put st1 key []) (\<lambda>(res, st).
            Ret ((case res of Inl e \<Rightarrow> Some e | Inr _ \<Rightarrow> None),
                 c\<lparr>pm_hm := hm, pm_st := st,
                   pm_checksum := sc_sub (pm_checksum c) (h64 XOR ots) t\<rparr>))))))))"

section \<open>Iteration\<close>

definition isPresent :: "pmap \<Rightarrow> u64 \<Rightarrow> bool go" where
  "isPresent c index =
     bindG (st_key (pm_st c) index) (\<lambda>ks.
     let key = content ks in
     bindG (pm_Get c (ucast (FNV1a64 key)) key) (\<lambda>value. case value of
       None \<Rightarrow> Ret False
     | Some v \<Rightarrow>
         bindG (st_val (pm_st c) index) (\<lambda>storeValue.
         bindG (slice_of v 0 8) (\<lambda>a.
         bindG (reslice storeValue 0 8) (\<lambda>b. Ret (a = b))))))"

text \<open>
  The callback \<open>foreach\<close> threads a state of its own and says whether to go on. The first
  argument bounds the number of records visited.
\<close>

fun iterate_loop ::
  "nat \<Rightarrow> pmap \<Rightarrow> (bytes \<Rightarrow> bytes \<Rightarrow> 's \<Rightarrow> (bool \<times> 's) go) \<Rightarrow> u64 \<Rightarrow> 's \<Rightarrow> 's go" where
  "iterate_loop 0 c foreach index s = Loop"
| "iterate_loop (Suc n) c foreach index s =
     (if index < st_length (pm_st c) then
        bindG (isPresent c index) (\<lambda>p.
        bindG (if p then
                 bindG (st_key (pm_st c) index) (\<lambda>key.
                 bindG (st_val (pm_st c) index) (\<lambda>val.
                 foreach (content key) (content val) s))
               else Ret (True, s)) (\<lambda>(ok, s').
        if ok then
          bindG (totalLen (pm_st c) index) (\<lambda>tl.
          iterate_loop n c foreach (index + (12 + ucast tl)) s')
        else Ret s'))
      else Ret s)"

definition pm_Iterate ::
  "pmap \<Rightarrow> (bytes \<Rightarrow> bytes \<Rightarrow> 's \<Rightarrow> (bool \<times> 's) go) \<Rightarrow> 's \<Rightarrow> 's go" where
  "pm_Iterate c foreach s = iterate_loop (Suc (unat (st_length (pm_st c)))) c foreach 0 s"

fun backwards_loop ::
  "nat \<Rightarrow> pmap \<Rightarrow> (bytes \<Rightarrow> bytes \<Rightarrow> 's \<Rightarrow> (bool \<times> 's) go) \<Rightarrow> u64 \<Rightarrow> 's \<Rightarrow> 's go" where
  "backwards_loop 0 c foreach index s = Loop"
| "backwards_loop (Suc n) c foreach index s =
     bindG (isPresent c index) (\<lambda>p.
     bindG (if p then
              bindG (st_key (pm_st c) index) (\<lambda>key.
              bindG (st_val (pm_st c) index) (\<lambda>val.
              foreach (content key) (content val) s))
            else Ret (True, s)) (\<lambda>(ok, s').
     if ok then
       bindG (st_prev (pm_st c) index) (\<lambda>prev.
       if prev < 0 then Ret s' else backwards_loop n c foreach (word_of_int prev) s')
     else Ret s'))"

definition pm_BackwardsIterate ::
  "pmap \<Rightarrow> (bytes \<Rightarrow> bytes \<Rightarrow> 's \<Rightarrow> (bool \<times> 's) go) \<Rightarrow> 's \<Rightarrow> 's go" where
  "pm_BackwardsIterate c foreach s =
     (let index = st_length (pm_st c) in
      if index \<le> 0 then Ret s
      else bindG (st_prev (pm_st c) index) (\<lambda>prev.
        backwards_loop (Suc (unat index)) c foreach (word_of_int prev) s))"

section \<open>Reopening\<close>

text \<open>
  \<open>restorePair\<close> gets its value as a slice of the store: \<open>value[:8]\<close> of a record without
  value reads the bytes that follow it.
\<close>

definition restorePair :: "pmap \<Rightarrow> bytes \<Rightarrow> slice \<Rightarrow> u32 \<Rightarrow> (err \<times> pmap) go" where
  "restorePair c key value storeIndex =
     bindG (check_space c) (\<lambda>(e, c1).
       if e \<noteq> None then Ret (e, c1)
       else let h64 = FNV1a64 key; h = hashReMap (ucast h64) in
         bindG (search c1 h key) (\<lambda>r. case r of
           PEmpty index \<Rightarrow>
             bindG (put_bucket (pm_hm c1) index h storeIndex) (\<lambda>hm.
             bindG (slice_stamp8 value) (\<lambda>ts.
             Ret (None, c1\<lparr>pm_hm := hm,
               pm_checksum := sc_sum (pm_checksum c1) (h64 XOR ts) (unix_nano ts)\<rparr>)))
         | PFound index stIndex \<Rightarrow>
             bindG (st_val (pm_st c1) (ucast stIndex)) (\<lambda>v.
             bindG (slice_stamp8 value) (\<lambda>ts.
             bindG (slice_stamp8 v) (\<lambda>ots.
             let t = unix_nano ts;
                 sub = sc_sub (pm_checksum c1) (h64 XOR ots) t;
                 st = (pm_st c1)\<lparr>st_deleted := st_deleted (pm_st c1)
                        + of_nat (12 + length key + slen v)\<rparr> in
             if slen value > 0 then
               bindG (replace_index c1 index h storeIndex) (\<lambda>hm.
               Ret (None, c1\<lparr>pm_hm := hm, pm_st := st,
                             pm_checksum := sc_sum sub (h64 XOR ts) t\<rparr>))
             else
               bindG (setHash (pm_hm c1) index deletedBucket) (\<lambda>hm.
               Ret (None, c1\<lparr>pm_hm := hm, pm_st := st, pm_checksum := sub\<rparr>)))))))"

text \<open>The scan of \<open>Open\<close>; the error of \<open>restorePair\<close> is dropped.\<close>

fun open_loop :: "nat \<Rightarrow> pmap \<Rightarrow> u64 \<Rightarrow> pmap go" where
  "open_loop 0 c index = Loop"
| "open_loop (Suc n) c index =
     bindG (keyLen (pm_st c) index) (\<lambda>kl.
       if kl \<le> 0 then Ret c
       else
         bindG (st_key (pm_st c) index) (\<lambda>key.
         bindG (st_val (pm_st c) index) (\<lambda>val.
         bindG (restorePair c (content key) val (ucast index)) (\<lambda>(e, c1).
         let c2 = (if slen val > 0 then c1
                   else c1\<lparr>pm_st := (pm_st c1)\<lparr>st_deleted := st_deleted (pm_st c1)
                                + of_nat (12 + length (content key))\<rparr>\<rparr>) in
         bindG (totalLen (pm_st c2) index) (\<lambda>tl.
         let index' = index + (12 + ucast tl) in
         open_loop n (c2\<lparr>pm_st := (pm_st c2)\<lparr>st_length := index'\<rparr>\<rparr>) index')))))"

definition pm_Open :: "os_env \<Rightarrow> fs \<Rightarrow> string \<Rightarrow> pmap go" where
  "pm_Open os d path =
     bindG (openStore os d path) (\<lambda>st.
     open_loop (Suc (unat (st_size st)))
       \<lparr>pm_hm = newHashMap defaultHashMapInitialLog2Size defaultHashMapSizeLimit,
        pm_st = st, pm_checksum = zeroChecksum, pm_path = path\<rparr> 0)"

section \<open>Closing and sizes\<close>

definition pm_Close :: "os_env \<Rightarrow> fs \<Rightarrow> pmap \<Rightarrow> (pmap \<times> fs) go" where
  "pm_Close os d c = bindG (st_close os d (pm_st c)) (\<lambda>(st, d'). Ret (c\<lparr>pm_st := st\<rparr>, d'))"

definition pm_CloseAndDelete :: "os_env \<Rightarrow> fs \<Rightarrow> pmap \<Rightarrow> (pmap \<times> fs) go" where
  "pm_CloseAndDelete os d c =
     bindG (st_close os d (pm_st c)) (\<lambda>(st, d').
     bindG (deleteStore d' st) (\<lambda>d''. Ret (c\<lparr>pm_st := st\<rparr>, d'')))"

definition pm_Checksum :: "pmap \<Rightarrow> time \<Rightarrow> u64 \<times> pmap" where
  "pm_Checksum c now =
     (let (s, cs) = sc_checksum (pm_checksum c) now in (s, c\<lparr>pm_checksum := cs\<rparr>))"

definition pm_Deleted :: "pmap \<Rightarrow> int" where "pm_Deleted c = sint (st_deleted (pm_st c))"
definition pm_Used :: "pmap \<Rightarrow> int" where "pm_Used c = sint (st_length (pm_st c))"
definition pm_Size :: "pmap \<Rightarrow> int" where "pm_Size c = sint (st_size (pm_st c))"

end
