(* ===== verification/PMap_Rep.thy ===== *)
theory PMap_Rep
  imports PMap
begin

text \<open>
  The representation invariant of a persistent map and what its building blocks do to it:
  searching finds a key exactly when it is in the map, and inserting, replacing and
  deleting a pair change the abstract map accordingly. The abstract map (\<open>pm_abs\<close>) is the
  finite map of the live pairs, read through the index and the store.
\<close>

section \<open>Abstract map and invariant\<close>

definition key_hash :: "bytes \<Rightarrow> u32" where
  "key_hash k = hashReMap (ucast (FNV1a64 k))"

definition pair_at :: "store \<Rightarrow> u32 \<Rightarrow> (bytes \<times> bytes) option" where
  "pair_at st x = (case read_key st x of
     Ret k \<Rightarrow> (case read_val st x of Ret v \<Rightarrow> Some (k, v) | _ \<Rightarrow> None) | _ \<Rightarrow> None)"

definition pm_pairs :: "pmap \<Rightarrow> (bytes \<times> bytes) list" where
  "pm_pairs c = List.map_filter (\<lambda>(h, x). pair_at (pm_st c) x) (entries (pm_hm c))"

definition pm_abs :: "pmap \<Rightarrow> bytes \<rightharpoonup> bytes" where
  "pm_abs c = map_of (pm_pairs c)"

definition rec_of :: "logrec list \<Rightarrow> u32 \<Rightarrow> logrec" where
  "rec_of l x = (case rec_at l (unat x) of None \<Rightarrow> ([], []) | Some r \<Rightarrow> r)"

definition live :: "hashmap \<Rightarrow> logrec list \<Rightarrow> logrec list" where
  "live hm l = map (\<lambda>(h, x). rec_of l x) (entries hm)"

text \<open>
  Every live bucket points at a stamped record and carries the hash of its key; no key
  has two buckets.
\<close>

definition index_ok :: "hashmap \<Rightarrow> logrec list \<Rightarrow> bool" where
  "index_ok hm l \<longleftrightarrow>
     (\<forall>(h, x)\<in>set (entries hm). \<exists>k v. rec_at l (unat x) = Some (k, v) \<and> h = key_hash k \<and> 8 \<le> length v)
     \<and> distinct (map fst (live hm l))"

definition pm_rep :: "pmap \<Rightarrow> logrec list \<Rightarrow> bool" where
  "pm_rep c l \<longleftrightarrow> store_inv (pm_st c) l \<and> hm_inv (pm_hm c) \<and> index_ok (pm_hm c) l"

definition pm_inv :: "pmap \<Rightarrow> bool" where
  "pm_inv c \<longleftrightarrow> (\<exists>l. pm_rep c l)"

section \<open>Lemmas: the abstract map\<close>

lemma key_hash_gt1: "1 < key_hash k"
proof -
  have "\<not> h < 2 \<Longrightarrow> 1 < h" for h :: u32 by (simp add: word_less_nat_alt)
  moreover have "h < 2 \<Longrightarrow> 1 < h + 2" for h :: u32
    by (simp add: word_less_nat_alt unat_word_ariths)
  ultimately show ?thesis by (simp add: key_hash_def hashReMap_def)
qed

lemma index_okD:
  assumes "index_ok hm l" and "(h, x) \<in> set (entries hm)"
  obtains k v where "rec_at l (unat x) = Some (k, v)" and "h = key_hash k" and "8 \<le> length v"
    and "rec_of l x = (k, v)" and "(k, v) \<in> set (live hm l)"
proof -
  obtain k v where kv: "rec_at l (unat x) = Some (k, v)" "h = key_hash k" "8 \<le> length v"
    using assms unfolding index_ok_def by blast
  then have "rec_of l x = (k, v)" by (simp add: rec_of_def)
  moreover from this have "(k, v) \<in> set (live hm l)" using assms(2) by (force simp: live_def)
  ultimately show thesis using kv that by blast
qed

lemma live_memD:
  assumes "index_ok hm l" and "(k, v) \<in> set (live hm l)"
  obtains x where "(key_hash k, x) \<in> set (entries hm)" and "rec_at l (unat x) = Some (k, v)"
    and "8 \<le> length v"
proof -
  obtain h x where hx: "(h, x) \<in> set (entries hm)" "rec_of l x = (k, v)"
    using assms(2) by (auto simp: live_def)
  then show thesis
    using index_okD [OF assms(1) hx(1)] that by (metis prod.inject)
qed

lemma pair_at_rec: "store_inv st l \<Longrightarrow> rec_at l (unat x) = Some r \<Longrightarrow> pair_at st x = Some r"
  by (cases r) (simp add: pair_at_def log.read_key log.read_val)

lemma map_filter_Some:
  "(\<And>x. x \<in> set xs \<Longrightarrow> f x = Some (g x)) \<Longrightarrow> List.map_filter f xs = map g xs"
  by (induction xs) (auto simp: List.map_filter_def)

lemma pm_pairs_live: "pm_rep c l \<Longrightarrow> pm_pairs c = live (pm_hm c) l"
  unfolding pm_pairs_def live_def
proof (rule map_filter_Some, clarify)
  fix h x
  assume r: "pm_rep c l" and hx: "(h, x) \<in> set (entries (pm_hm c))"
  then obtain k v where "rec_at l (unat x) = Some (k, v)" "rec_of l x = (k, v)"
    by (metis index_okD pm_rep_def)
  then show "pair_at (pm_st c) x = Some (rec_of l x)"
    using r by (auto simp: pm_rep_def dest: pair_at_rec)
qed

lemma pm_abs_live: "pm_rep c l \<Longrightarrow> pm_abs c = map_of (live (pm_hm c) l)"
  by (simp add: pm_abs_def pm_pairs_live)

lemma pm_abs_Some: "pm_rep c l \<Longrightarrow> pm_abs c k = Some v \<longleftrightarrow> (k, v) \<in> set (live (pm_hm c) l)"
  by (subst pm_abs_live) (auto simp: pm_rep_def index_ok_def)

lemma pm_abs_stamped: "pm_rep c l \<Longrightarrow> pm_abs c k = Some v \<Longrightarrow> 8 \<le> length v"
  by (metis live_memD pm_abs_Some pm_rep_def)

text \<open>Lists of pairs with distinct keys: equal multisets are equal maps.\<close>

lemma map_of_mset:
  assumes "distinct (map fst xs)" and "mset xs = mset ys"
  shows "map_of xs = map_of ys"
proof -
  have "distinct (map fst ys)"
    using assms by (metis mset_eq_imp_distinct_iff mset_map)
  then show ?thesis
    using assms mset_eq_setD [OF assms(2)] by (simp add: map_of_inject_set)
qed

lemma map_of_add_mset:
  assumes "distinct (map fst xs)" and "mset xs = add_mset (k, v) (mset ys)"
  shows "map_of xs = (map_of ys)(k \<mapsto> v)"
  using map_of_mset [OF assms(1), of "(k, v) # ys"] assms(2) by simp

lemma distinct_fst_add:
  assumes "mset xs = add_mset (k, v) (mset ys)" and "distinct (map fst ys)" and "k \<notin> fst ` set ys"
  shows "distinct (map fst xs)"
proof -
  have "mset (map fst xs) = mset (map fst ((k, v) # ys))" using assms(1) by simp
  moreover have "distinct (map fst ((k, v) # ys))" using assms(2,3) by simp
  ultimately show ?thesis by (metis mset_eq_imp_distinct_iff)
qed

section \<open>Lemmas: searching\<close>

lemma probe_walk:
  assumes sh: "hm_shape hm K"
    and kf: "\<And>b. b < 2 ^ K \<Longrightarrow> hs hm b \<noteq> 0 \<Longrightarrow> hs hm b = h \<Longrightarrow> read_key st (si hm b) = Ret (kf b)"
    and i: "unat i = a mod 2 ^ K" and d: "d < n"
    and before: "\<And>j. j < d \<Longrightarrow> hs hm ((a + j) mod 2 ^ K) \<noteq> 0
      \<and> \<not> (hs hm ((a + j) mod 2 ^ K) = h \<and> kf ((a + j) mod 2 ^ K) = key)"
    and stop: "hs hm ((a + d) mod 2 ^ K) = 0
      \<or> hs hm ((a + d) mod 2 ^ K) = h \<and> kf ((a + d) mod 2 ^ K) = key"
  shows "\<exists>p. unat p = (a + d) mod 2 ^ K \<and> probe n hm st h key i =
     Ret (if hs hm ((a + d) mod 2 ^ K) = 0 then PEmpty p else PFound p (si hm ((a + d) mod 2 ^ K)))"
  using i d before stop
proof (induction d arbitrary: n i a)
  case 0
  then obtain n' where n: "n = Suc n'" by (cases n) auto
  have ib: "unat i < 2 ^ K" using 0 by simp
  have u: "unat i = a mod 2 ^ K" by (rule 0)
  show ?case
    using 0(4) kf [OF ib] ib u
    by (auto simp: n getHash_Ret [OF sh] getStoreIndex_Ret [OF sh] emptyBucket_def)
next
  case (Suc d)
  then obtain n' where n: "n = Suc n'" by (cases n) auto
  have ib: "unat i < 2 ^ K" using Suc.prems by simp
  have b: "hs hm (unat i) \<noteq> 0" "\<not> (hs hm (unat i) = h \<and> kf (unat i) = key)"
    using Suc.prems(3) [of 0] Suc.prems(1) by simp_all
  have step: "probe n hm st h key i = probe n' hm st h key ((i + 1) AND sizeMask hm)"
    using b kf [OF ib]
    by (auto simp: n getHash_Ret [OF sh ib] getStoreIndex_Ret [OF sh ib] emptyBucket_def)
  have e: "a + Suc j = (a + 1) + j" for j by simp
  show ?case
    unfolding step e
  proof (rule Suc.IH)
    show "unat ((i + 1) AND sizeMask hm) = (a + 1) mod 2 ^ K"
      using sh Suc.prems(1) by (rule next_bucket)
    show "d < n'" using Suc.prems(2) n by simp
    show "hs hm (((a + 1) + d) mod 2 ^ K) = 0
        \<or> hs hm (((a + 1) + d) mod 2 ^ K) = h \<and> kf (((a + 1) + d) mod 2 ^ K) = key"
      using Suc.prems(4) unfolding e .
    show "hs hm (((a + 1) + j) mod 2 ^ K) \<noteq> 0
        \<and> \<not> (hs hm (((a + 1) + j) mod 2 ^ K) = h \<and> kf (((a + 1) + j) mod 2 ^ K) = key)"
      if "j < d" for j
      using Suc.prems(3) [of "Suc j"] that unfolding e by simp
  qed
qed

lemma search_cases:
  assumes r: "pm_rep c l" and h: "h = key_hash key"
  shows "(\<exists>p x v. search c h key = Ret (PFound p x) \<and> unat p < unat (hm_size (pm_hm c))
        \<and> hs (pm_hm c) (unat p) = h \<and> si (pm_hm c) (unat p) = x
        \<and> rec_at l (unat x) = Some (key, v) \<and> pm_abs c key = Some v)
    \<or> (\<exists>p. search c h key = Ret (PEmpty p) \<and> unat p < unat (hm_size (pm_hm c))
        \<and> hs (pm_hm c) (unat p) = 0
        \<and> on_path (unat (hm_size (pm_hm c))) (hs (pm_hm c)) (unat h) (unat p)
        \<and> pm_abs c key = None)"
proof -
  let ?hm = "pm_hm c"
  have st: "store_inv (pm_st c) l" and inv: "hm_inv ?hm" and ok: "index_ok ?hm l"
    using r by (simp_all add: pm_rep_def)
  obtain K where sh: "hm_shape ?hm K" using inv by (auto simp: hm_inv_def)
  note sz = hm_shapeD(2) [OF sh]
  have h1: "1 < h" using h by (simp add: key_hash_gt1)
  have h0: "h \<noteq> 0" using h1 by auto
  define kf where "kf b = fst (rec_of l (si ?hm b))" for b
  have kf: "read_key (pm_st c) (si ?hm b) = Ret (kf b)" if b: "b < 2 ^ K" "hs ?hm b = h" for b
  proof -
    have "(hs ?hm b, si ?hm b) \<in> set (entries ?hm)" using b h1 sz by (intro entries_nth) auto
    then show ?thesis
      using index_okD [OF ok] log.read_key [OF st] by (metis kf_def fst_conv)
  qed
  define stop where "stop b \<longleftrightarrow> hs ?hm b = 0 \<or> hs ?hm b = h \<and> kf b = key" for b
  obtain e where "e < 2 ^ K" "hs ?hm e = 0" using used_room [OF hm_inv_room [OF inv]] sz by auto
  then obtain d0 where d0: "d0 < 2 ^ K" "stop ((unat h + d0) mod 2 ^ K)"
    using walk_meets [of e "2 ^ K" "unat h"] unfolding stop_def by metis
  define d where "d = (LEAST d. stop ((unat h + d) mod 2 ^ K))"
  let ?b = "(unat h + d) mod 2 ^ K"
  have d: "stop ?b" "d < 2 ^ K"
    using LeastI [of "\<lambda>d. stop ((unat h + d) mod 2 ^ K)", OF d0(2)]
      Least_le [of "\<lambda>d. stop ((unat h + d) mod 2 ^ K)", OF d0(2)] d0(1)
    by (simp_all add: d_def)
  have least: "\<not> stop ((unat h + j) mod 2 ^ K)" if "j < d" for j
    using that not_less_Least unfolding d_def by blast
  obtain p where p: "unat p = ?b" "search c h key =
      Ret (if hs ?hm ?b = 0 then PEmpty p else PFound p (si ?hm ?b))"
    using probe_walk [where h = h and key = key, OF sh kf hash_bucket [OF sh] d(2)] least d(1)
    unfolding stop_def search_def sz by blast
  have pb: "unat p < unat (hm_size ?hm)" using p(1) sz by simp
  show ?thesis
  proof (cases "hs ?hm ?b = 0")
    case False
    with d(1) have m: "hs ?hm ?b = h" "kf ?b = key" by (simp_all add: stop_def)
    have "(h, si ?hm ?b) \<in> set (entries ?hm)"
      using entries_nth [OF pb] m(1) h1 p(1) by simp
    then obtain v where "rec_at l (unat (si ?hm ?b)) = Some (key, v)"
      "(key, v) \<in> set (live ?hm l)"
      using m(2) index_okD [OF ok] unfolding kf_def by (metis fst_conv)
    then show ?thesis
      using False p pb m pm_abs_Some [OF r] by auto
  next
    case True
    have path: "on_path (2 ^ K) (hs ?hm) (unat h) ?b"
      using d(2) least by (auto simp: on_path_def stop_def)
    have "pm_abs c key = None"
    proof (rule ccontr)
      assume "pm_abs c key \<noteq> None"
      then obtain v where "(key, v) \<in> set (live ?hm l)" using pm_abs_Some [OF r] by auto
      then obtain x where x: "(h, x) \<in> set (entries ?hm)" "rec_at l (unat x) = Some (key, v)"
        using live_memD [OF ok] h by metis
      then obtain i where i: "i < 2 ^ K" "hs ?hm i = h" "si ?hm i = x"
        using entries_memD sz by metis
      then obtain d' where d': "d' < 2 ^ K" "(unat h + d') mod 2 ^ K = i"
        "\<And>j. j < d' \<Longrightarrow> hs ?hm ((unat h + j) mod 2 ^ K) \<noteq> 0"
        using inv h1 sz unfolding hm_inv_def chain_def on_path_def by metis
      have "kf i = key" using i(3) x(2) by (simp add: kf_def rec_of_def)
      then have "stop ((unat h + d') mod 2 ^ K)" using d'(2) i(2) by (simp add: stop_def)
      then have "d \<le> d'" unfolding d_def by (rule Least_le)
      moreover have "d \<noteq> d'" using True i(2) d'(2) h0 by auto
      ultimately show False using d'(3) [of d] True by simp
    qed
    then show ?thesis using True p pb path sz by auto
  qed
qed

section \<open>Lemmas: stamps\<close>

definition stamp_word :: "bytes \<Rightarrow> u64" where
  "stamp_word v = le_word (take 8 v)"

definition stamp :: "bytes \<Rightarrow> time" where
  "stamp v = unix_nano (stamp_word v)"

lemma stamp8_Ret: "8 \<le> length v \<Longrightarrow> stamp8 v = Ret (stamp_word v)"
  by (simp add: stamp8_def slice_of_def Uint64_def stamp_word_def)

lemma slice_stamp8_Ret:
  assumes "8 \<le> length (content s)"
  shows "slice_stamp8 s = Ret (stamp_word (content s))"
proof -
  have "8 \<le> slen s" "8 \<le> length (sarr s)" using assms by (simp_all add: content_def)
  then show ?thesis
    by (simp add: slice_stamp8_def reslice_def slice_of_def Uint64_def stamp_word_def content_def
        min_def)
qed

section \<open>Lemmas: steps of the operations\<close>

lemma store_inv_deleted [simp]: "store_inv (st\<lparr>st_deleted := x\<rparr>) l = store_inv st l"
  by (simp add: store_inv_def)

lemma fits_deleted [simp]: "fits (st\<lparr>st_deleted := x\<rparr>) k v = fits st k v"
  by (simp add: fits_def)

lemma index_ok_append:
  assumes "index_ok hm l"
  shows "index_ok hm (l @ [r])" and "live hm (l @ [r]) = live hm l"
proof -
  have "rec_of (l @ [r]) x = rec_of l x" if "(h, x) \<in> set (entries hm)" for h x
    using index_okD [OF assms that] rec_at_append by (metis option.simps(5) rec_of_def)
  then show *: "live hm (l @ [r]) = live hm l" by (auto simp: live_def)
  show "index_ok hm (l @ [r])"
    unfolding index_ok_def *
  proof (intro conjI ballI, clarify)
    fix h x
    assume "(h, x) \<in> set (entries hm)"
    then obtain k v where "rec_at l (unat x) = Some (k, v)" "h = key_hash k" "8 \<le> length v"
      by (rule index_okD [OF assms])
    then show "\<exists>k v. rec_at (l @ [r]) (unat x) = Some (k, v) \<and> h = key_hash k \<and> 8 \<le> length v"
      using rec_at_append by blast
  qed (use assms in \<open>simp add: index_ok_def\<close>)
qed

lemma live_mset: "mset (live hm l) = image_mset (\<lambda>(h, x). rec_of l x) (mset (entries hm))"
  by (simp add: live_def)

lemma index_ok_mset:
  assumes ok: "index_ok hm l" and e: "mset (entries hm') = mset (entries hm)"
  shows "index_ok hm' l" and "mset (live hm' l) = mset (live hm l)"
proof -
  show *: "mset (live hm' l) = mset (live hm l)" by (simp add: live_mset e)
  then have "mset (map fst (live hm' l)) = mset (map fst (live hm l))" by simp
  then have "distinct (map fst (live hm' l)) = distinct (map fst (live hm l))"
    by (rule mset_eq_imp_distinct_iff)
  then show "index_ok hm' l"
    using ok mset_eq_setD [OF e] by (simp add: index_ok_def)
qed

lemma index_ok_add:
  assumes ok: "index_ok hm l" and r: "rec_at l (unat x) = Some (k, v)" and v: "8 \<le> length v"
    and e: "mset (entries hm') = add_mset (key_hash k, x) (mset (entries hm))"
    and new: "k \<notin> fst ` set (live hm l)"
  shows "index_ok hm' l" and "mset (live hm' l) = add_mset (k, v) (mset (live hm l))"
proof -
  show *: "mset (live hm' l) = add_mset (k, v) (mset (live hm l))"
    using r by (simp add: live_mset e rec_of_def)
  then have d: "distinct (map fst (live hm' l))"
    using ok new by (auto simp: index_ok_def intro: distinct_fst_add)
  have "set (entries hm') = insert (key_hash k, x) (set (entries hm))"
    using e by (metis set_mset_add_mset_insert set_mset_mset)
  then show "index_ok hm' l"
    using ok d r v by (auto simp: index_ok_def)
qed

lemma index_ok_remove:
  assumes ok: "index_ok hm l" and r: "rec_at l (unat x) = Some (k, v)"
    and e: "mset (entries hm) = add_mset (h, x) (mset (entries hm'))"
  shows "index_ok hm' l" and "mset (live hm l) = add_mset (k, v) (mset (live hm' l))"
    and "k \<notin> fst ` set (live hm' l)"
proof -
  show *: "mset (live hm l) = add_mset (k, v) (mset (live hm' l))"
    using r by (simp add: live_mset e rec_of_def)
  have "mset (map fst (live hm l)) = mset (k # map fst (live hm' l))" using * by simp
  then have "distinct (map fst (live hm l)) = distinct (k # map fst (live hm' l))"
    by (rule mset_eq_imp_distinct_iff)
  then have d: "distinct (k # map fst (live hm' l))" using ok by (simp only: index_ok_def)
  then show "k \<notin> fst ` set (live hm' l)" by simp
  have "set (entries hm') \<subseteq> set (entries hm)"
    using e by (metis set_mset_add_mset_insert set_mset_mset subset_insertI)
  then show "index_ok hm' l"
    using ok d by (auto simp: index_ok_def)
qed

text \<open>Room in the index: the table is below its load limit, or it may still grow.\<close>

definition can_insert :: "pmap \<Rightarrow> bool" where
  "can_insert c \<longleftrightarrow> numStoredKeys (pm_hm c) < numKeysToExpand (pm_hm c) \<or> can_grow (pm_hm c)"

lemma check_space_full:
  "pm_rep c l \<Longrightarrow> \<not> can_insert c \<Longrightarrow> check_space c = Ret (Some hm_full, c)"
  by (simp add: check_space_def can_insert_def pm_rep_def expand_full not_less)

lemma check_space_ok:
  assumes r: "pm_rep c l" and "can_insert c"
  shows "\<exists>hm. check_space c = Ret (None, c\<lparr>pm_hm := hm\<rparr>) \<and> pm_rep (c\<lparr>pm_hm := hm\<rparr>) l
    \<and> mset (pm_pairs (c\<lparr>pm_hm := hm\<rparr>)) = mset (pm_pairs c) \<and> numStoredKeys hm < numKeysToExpand hm
    \<and> sizeLimit hm = sizeLimit (pm_hm c) \<and> used hm \<le> used (pm_hm c)"
proof (cases "numStoredKeys (pm_hm c) < numKeysToExpand (pm_hm c)")
  case True
  then have "check_space c = Ret (None, c\<lparr>pm_hm := pm_hm c\<rparr>)"
    by (simp add: check_space_def not_le [symmetric])
  with True r show ?thesis by (intro exI [of _ "pm_hm c"]) simp
next
  case False
  have inv: "hm_inv (pm_hm c)" and ok: "index_ok (pm_hm c) l" and st: "store_inv (pm_st c) l"
    using r by (simp_all add: pm_rep_def)
  have "can_grow (pm_hm c)" using assms(2) False by (simp add: can_insert_def)
  then obtain hm where hm: "expand (pm_hm c) = Ret (None, hm)" "hm_inv hm"
    "mset (entries hm) = mset (entries (pm_hm c))" "numStoredKeys hm < numKeysToExpand hm"
    "sizeLimit hm = sizeLimit (pm_hm c)" "used hm = length (entries hm)"
    using expand_grow [OF inv] by blast
  have us: "used hm \<le> used (pm_hm c)"
    using entries_le_used [of "pm_hm c"] mset_eq_length [OF hm(3)] hm(6) by simp
  note ok' = index_ok_mset [OF ok hm(3)]
  have r': "pm_rep (c\<lparr>pm_hm := hm\<rparr>) l" using st hm(2) ok'(1) by (simp add: pm_rep_def)
  then have "mset (pm_pairs (c\<lparr>pm_hm := hm\<rparr>)) = mset (pm_pairs c)"
    using ok'(2) pm_pairs_live [OF r] pm_pairs_live [OF r'] by simp
  then show ?thesis
    using False hm r' us by (auto simp: check_space_def)
qed

lemma pairs_distinct: "pm_rep c l \<Longrightarrow> distinct (map fst (pm_pairs c))"
  using pm_pairs_live [of c l] by (auto simp: pm_rep_def index_ok_def)

lemma pm_abs_mset:
  assumes "pm_rep c l" and "mset (pm_pairs c') = mset (pm_pairs c)"
  shows "pm_abs c' = pm_abs c"
  using map_of_mset [OF pairs_distinct [OF assms(1)]] assms(2) unfolding pm_abs_def by metis

lemma abs_add:
  assumes "pm_rep c' l'" and "mset (pm_pairs c') = add_mset (k, v) (mset (pm_pairs c))"
  shows "pm_abs c' = (pm_abs c)(k \<mapsto> v)"
  using map_of_add_mset [OF pairs_distinct [OF assms(1)] assms(2)] by (simp add: pm_abs_def)

lemma abs_remove:
  assumes "pm_rep c l" and "mset (pm_pairs c) = add_mset (k, v) (mset (pm_pairs c'))"
  shows "pm_abs c' = (pm_abs c)(k := None)"
proof -
  have "mset (map fst (pm_pairs c)) = mset (map fst ((k, v) # pm_pairs c'))" using assms(2) by simp
  then have "distinct (map fst ((k, v) # pm_pairs c'))"
    using pairs_distinct [OF assms(1)] mset_eq_imp_distinct_iff by blast
  then have "map_of (pm_pairs c') k = None" by (simp add: map_of_eq_None_iff)
  moreover have "pm_abs c = (pm_abs c')(k \<mapsto> v)"
    using map_of_add_mset [OF pairs_distinct [OF assms(1)] assms(2)] by (simp add: pm_abs_def)
  ultimately show ?thesis by (auto simp: pm_abs_def fun_eq_iff)
qed

lemma abs_replace:
  assumes "pm_rep c l" and "pm_rep c' l'"
    and "mset (pm_pairs c) = add_mset (k, u) P" and "mset (pm_pairs c') = add_mset (k, v) P"
  shows "pm_abs c' = (pm_abs c)(k \<mapsto> v)"
proof -
  obtain ps where P: "P = mset ps" by (metis ex_mset)
  have "map_of (pm_pairs c) = (map_of ps)(k \<mapsto> u)"
    by (rule map_of_add_mset [OF pairs_distinct [OF assms(1)]]) (simp add: assms(3) P)
  moreover have "map_of (pm_pairs c') = (map_of ps)(k \<mapsto> v)"
    by (rule map_of_add_mset [OF pairs_distinct [OF assms(2)]]) (simp add: assms(4) P)
  ultimately show ?thesis by (simp add: pm_abs_def)
qed

lemma abs_None_live: "pm_rep c l \<Longrightarrow> pm_abs c k = None \<Longrightarrow> k \<notin> fst ` set (live (pm_hm c) l)"
  by (simp add: pm_abs_live map_of_eq_None_iff)

lemma put_index:
  assumes "store_inv st l" and "fits st k v"
  shows "rec_at (l @ [(k, v)]) (unat (of_nat (log_size l) :: u32)) = Some (k, v)"
  using log.old_index [OF store_inv_appended [OF assms]] by (simp add: rec_at_here)

text \<open>
  Changing a bucket for a record of the log \<open>l'\<close> that the store \<open>st'\<close> holds: the old log, or
  the old log with one more record.
\<close>

lemma index_ok_grown:
  assumes "index_ok hm l" and "l' = l \<or> (\<exists>r. l' = l @ [r])"
  shows "index_ok hm l'" and "live hm l' = live hm l"
  using assms(2) assms(1) index_ok_append [OF assms(1)] by auto

lemma rep_insert:
  assumes r: "pm_rep c l" and room: "numStoredKeys (pm_hm c) < numKeysToExpand (pm_hm c)"
    and p: "unat p < unat (hm_size (pm_hm c))" "hs (pm_hm c) (unat p) = 0"
      "on_path (unat (hm_size (pm_hm c))) (hs (pm_hm c)) (unat (key_hash key)) (unat p)"
    and new: "pm_abs c key = None" and st': "store_inv st' l'" and l': "l' = l \<or> (\<exists>r. l' = l @ [r])"
    and x: "rec_at l' (unat x) = Some (key, value)" and v: "8 \<le> length value"
  shows "\<exists>hm. put_bucket (pm_hm c) p (key_hash key) x = Ret hm
    \<and> pm_rep (c\<lparr>pm_hm := hm, pm_st := st', pm_checksum := cs\<rparr>) l'
    \<and> mset (pm_pairs (c\<lparr>pm_hm := hm, pm_st := st', pm_checksum := cs\<rparr>))
        = add_mset (key, value) (mset (pm_pairs c))
    \<and> sizeLimit hm = sizeLimit (pm_hm c) \<and> used hm = Suc (used (pm_hm c))"
proof -
  have inv: "hm_inv (pm_hm c)" and ok: "index_ok (pm_hm c) l"
    using r by (simp_all add: pm_rep_def)
  obtain hm where hm: "put_bucket (pm_hm c) p (key_hash key) x = Ret hm" "hm_inv hm"
    "mset (entries hm) = add_mset (key_hash key, x) (mset (entries (pm_hm c)))"
    "sizeLimit hm = sizeLimit (pm_hm c)" "used hm = Suc (used (pm_hm c))"
    using put_bucket_inv [OF inv room p key_hash_gt1] by blast
  note ok1 = index_ok_grown [OF ok l']
  have "key \<notin> fst ` set (live (pm_hm c) l')" using abs_None_live [OF r new] ok1(2) by simp
  note ok2 = index_ok_add [OF ok1(1) x v hm(3) this]
  let ?c = "c\<lparr>pm_hm := hm, pm_st := st', pm_checksum := cs\<rparr>"
  have r': "pm_rep ?c l'" using st' hm(2) ok2(1) by (simp add: pm_rep_def)
  then show ?thesis
    using hm(1,4,5) ok2(2) ok1(2) pm_pairs_live [OF r] pm_pairs_live [OF r'] by simp
qed

lemma rep_replace:
  assumes r: "pm_rep c l" and p: "unat p < unat (hm_size (pm_hm c))" "hs (pm_hm c) (unat p) = key_hash key"
    and old: "rec_at l (unat (si (pm_hm c) (unat p))) = Some (key, old)"
    and st': "store_inv st' l'" and l': "l' = l \<or> (\<exists>r. l' = l @ [r])"
    and x: "rec_at l' (unat x) = Some (key, value)" and v: "8 \<le> length value"
  shows "\<exists>hm P. replace_index c p (key_hash key) x = Ret hm
    \<and> pm_rep (c\<lparr>pm_hm := hm, pm_st := st', pm_checksum := cs\<rparr>) l'
    \<and> mset (pm_pairs c) = add_mset (key, old) P
    \<and> mset (pm_pairs (c\<lparr>pm_hm := hm, pm_st := st', pm_checksum := cs\<rparr>)) = add_mset (key, value) P
    \<and> sizeLimit hm = sizeLimit (pm_hm c) \<and> used hm = used (pm_hm c)"
proof -
  have inv: "hm_inv (pm_hm c)" and ok: "index_ok (pm_hm c) l"
    using r by (simp_all add: pm_rep_def)
  obtain hm E where hm: "replace_index c p (key_hash key) x = Ret hm" "hm_inv hm"
    "mset (entries (pm_hm c)) = add_mset (key_hash key, si (pm_hm c) (unat p)) E"
    "mset (entries hm) = add_mset (key_hash key, x) E"
    "sizeLimit hm = sizeLimit (pm_hm c)" "used hm = used (pm_hm c)"
    using replace_inv [OF inv p key_hash_gt1] unfolding replace_index_def by blast
  obtain hd where hd: "mset (entries (pm_hm c))
      = add_mset (hs (pm_hm c) (unat p), si (pm_hm c) (unat p)) (mset (entries hd))"
    using delete_inv [OF inv p(1)] key_hash_gt1 p(2) by (metis)
  have E: "E = mset (entries hd)" using hd hm(3) p(2) by simp
  note ok0 = index_ok_grown [OF ok l']
  have old': "rec_at l' (unat (si (pm_hm c) (unat p))) = Some (key, old)"
    using l' old rec_at_append [OF old] by auto
  note ok1 = index_ok_remove [OF ok0(1) old' hd]
  note ok2 = index_ok_add [OF ok1(1) x v hm(4) [unfolded E] ok1(3)]
  let ?c = "c\<lparr>pm_hm := hm, pm_st := st', pm_checksum := cs\<rparr>"
  have r': "pm_rep ?c l'" using st' hm(2) ok2(1) by (simp add: pm_rep_def)
  moreover have "mset (pm_pairs c) = add_mset (key, old) (mset (live hd l'))"
    using ok1(2) ok0(2) pm_pairs_live [OF r] by simp
  moreover have "mset (pm_pairs ?c) = add_mset (key, value) (mset (live hd l'))"
    using ok2(2) pm_pairs_live [OF r'] by simp
  ultimately show ?thesis using hm(1,5,6) by blast
qed

lemma rep_delete:
  assumes r: "pm_rep c l" and p: "unat p < unat (hm_size (pm_hm c))" "hs (pm_hm c) (unat p) = key_hash key"
    and x: "rec_at l (unat (si (pm_hm c) (unat p))) = Some (key, old)"
    and st': "store_inv st' l'" and l': "l' = l \<or> (\<exists>r. l' = l @ [r])"
  shows "\<exists>hm. setHash (pm_hm c) p deletedBucket = Ret hm
    \<and> pm_rep (c\<lparr>pm_hm := hm, pm_st := st', pm_checksum := cs\<rparr>) l'
    \<and> mset (pm_pairs c) = add_mset (key, old)
        (mset (pm_pairs (c\<lparr>pm_hm := hm, pm_st := st', pm_checksum := cs\<rparr>)))
    \<and> sizeLimit hm = sizeLimit (pm_hm c) \<and> used hm = used (pm_hm c)"
proof -
  have inv: "hm_inv (pm_hm c)" and ok: "index_ok (pm_hm c) l"
    using r by (simp_all add: pm_rep_def)
  obtain hm where hm: "setHash (pm_hm c) p deletedBucket = Ret hm" "hm_inv hm"
    "mset (entries (pm_hm c)) = add_mset (hs (pm_hm c) (unat p), si (pm_hm c) (unat p)) (mset (entries hm))"
    "sizeLimit hm = sizeLimit (pm_hm c)" "used hm = used (pm_hm c)"
    using delete_inv [OF inv p(1)] key_hash_gt1 p(2) by metis
  note ok0 = index_ok_grown [OF ok l']
  have x': "rec_at l' (unat (si (pm_hm c) (unat p))) = Some (key, old)"
    using l' x rec_at_append [OF x] by auto
  note ok1 = index_ok_remove [OF ok0(1) x' hm(3)]
  let ?c = "c\<lparr>pm_hm := hm, pm_st := st', pm_checksum := cs\<rparr>"
  have r': "pm_rep ?c l'" using st' hm(2) ok1(1) by (simp add: pm_rep_def)
  then show ?thesis
    using hm(1,4,5) ok1(2) ok0(2) pm_pairs_live [OF r] pm_pairs_live [OF r'] by simp
qed

end
