(* ===== verification/PMap_Spec.thy ===== *)
theory PMap_Spec
  imports PMap_Rep
begin

text \<open>
  What the operations of a persistent map promise (src/core/pmap/pmap.go): \<open>Set\<close> is a
  last-writer-wins update, \<open>CAS\<close> an update guarded by the stamp and the hash of the old
  value, \<open>Del\<close> a removal guarded by the stamp, \<open>Get\<close> a lookup; every operation keeps the
  representation invariant and the checksum of the live pairs.
\<close>

section \<open>Specifications\<close>

type_synonym kv = "bytes \<rightharpoonup> bytes"

text \<open>
  The two resources of a map: \<open>hroom\<close>, a bucket for one more key, and \<open>sroom\<close>, bytes of
  the store for the record at hand.
\<close>

definition set_spec :: "bool \<Rightarrow> bool \<Rightarrow> kv \<Rightarrow> bytes \<Rightarrow> bytes \<Rightarrow> err \<times> kv" where
  "set_spec hroom sroom m key value =
     (if length value < 8 then (Some short_value, m)
      else if \<not> hroom then (Some hm_full, m)
      else if (case m key of None \<Rightarrow> False | Some old \<Rightarrow> stamp value \<le> stamp old) then (None, m)
      else if \<not> sroom then (Some store_full, m)
      else (None, m(key \<mapsto> value)))"

text \<open>The three fields of the argument of \<open>CAS\<close>, and the value it writes.\<close>

definition cas_expected :: "bytes \<Rightarrow> time" where
  "cas_expected value = stamp value"

definition cas_digest :: "bytes \<Rightarrow> u64" where
  "cas_digest value = le_word (take 8 (drop 8 value))"

definition cas_new :: "bytes \<Rightarrow> bytes" where
  "cas_new value = drop 16 value"

definition cas_check :: "kv \<Rightarrow> bytes \<Rightarrow> bytes \<Rightarrow> err" where
  "cas_check m key value = (case m key of
     None \<Rightarrow> if cas_expected value \<noteq> 0 \<and> cas_digest value \<noteq> FNV1a64 [] then Some cas_empty else None
   | Some old \<Rightarrow> if stamp old \<noteq> cas_expected value then Some cas_time
       else if cas_digest value \<noteq> FNV1a64 (drop 8 old) then Some cas_hash else None)"

text \<open>
  What the comment on \<open>CAS\<close> promises: the value is written if both tests pass; the stamp expected of a pair that
  does not exist is 0, and its hash the one of no bytes.
\<close>

definition cas_documented :: "kv \<Rightarrow> bytes \<Rightarrow> bytes \<Rightarrow> err" where
  "cas_documented m key value = (case m key of
     None \<Rightarrow> if cas_expected value = 0 \<and> cas_digest value = FNV1a64 [] then None else Some cas_empty
   | Some old \<Rightarrow> if stamp old \<noteq> cas_expected value then Some cas_time
       else if cas_digest value \<noteq> FNV1a64 (drop 8 old) then Some cas_hash else None)"

definition cas_spec :: "bool \<Rightarrow> bool \<Rightarrow> kv \<Rightarrow> bytes \<Rightarrow> bytes \<Rightarrow> err \<times> kv" where
  "cas_spec hroom sroom m key value =
     (if length value < 24 then (Some cas_short, m)
      else if \<not> hroom then (Some hm_full, m)
      else if cas_check m key value \<noteq> None then (cas_check m key value, m)
      else if \<not> sroom then (Some store_full, m)
      else (None, m(key \<mapsto> cas_new value)))"

definition del_spec :: "bool \<Rightarrow> kv \<Rightarrow> bytes \<Rightarrow> bytes \<Rightarrow> err \<times> kv" where
  "del_spec sroom m key value =
     (case m key of None \<Rightarrow> (None, m)
      | Some old \<Rightarrow> if stamp value < stamp old then (None, m)
          else (if sroom then None else Some store_full, m(key := None)))"

text \<open>The checksum of a map: one summand per live pair.\<close>

definition pair_sum :: "(bytes \<times> bytes) list \<Rightarrow> u64" where
  "pair_sum ps = sum_list (map (\<lambda>(k, v). FNV1a64 k XOR stamp_word v) ps)"

definition sum_defect :: "pmap \<Rightarrow> u64" where
  "sum_defect c = newChecksum (pm_checksum c) - pair_sum (pm_pairs c)"

text \<open>
  The map that the records of a store describe, read from the oldest to the newest: a
  record without value removes its key.
\<close>

definition replay_rec :: "logrec \<Rightarrow> kv \<Rightarrow> kv" where
  "replay_rec = (\<lambda>(k, v) m. if v = [] then m(k := None) else m(k \<mapsto> v))"

definition replay :: "logrec list \<Rightarrow> kv" where
  "replay l = fold replay_rec l Map.empty"

text \<open>
  The records an operation may append: a stamped value, or the removal of a live key. In a
  regular log every record was such a record when it was appended.
\<close>

definition rec_ok :: "kv \<Rightarrow> logrec \<Rightarrow> bool" where
  "rec_ok m = (\<lambda>(k, v). if v = [] then m k \<noteq> None else 8 \<le> length v)"

definition regular :: "logrec list \<Rightarrow> bool" where
  "regular l \<longleftrightarrow> (\<forall>a r b. l = a @ r # b \<longrightarrow> rec_ok (replay a) r)"

text \<open>What no operation changes, and how many buckets it takes at most.\<close>

definition same_limits :: "pmap \<Rightarrow> pmap \<Rightarrow> bool" where
  "same_limits c c' \<longleftrightarrow> st_size (pm_st c') = st_size (pm_st c) \<and> pm_path c' = pm_path c
     \<and> st_osFile (pm_st c') = st_osFile (pm_st c) \<and> sizeLimit (pm_hm c') = sizeLimit (pm_hm c)
     \<and> used (pm_hm c') \<le> Suc (used (pm_hm c))"

section \<open>Lemmas: the write operations\<close>

lemma same_limits_refl [simp]: "same_limits c c" by (simp add: same_limits_def)

lemma replay_snoc: "v \<noteq> [] \<Longrightarrow> replay (l @ [(k, v)]) = (replay l)(k \<mapsto> v)"
  "replay (l @ [(k, [])]) = (replay l)(k := None)"
  by (simp_all add: replay_def replay_rec_def)

lemma appended_frame [simp]:
  "st_size (appended st l) = st_size st" "st_osFile (appended st l) = st_osFile st"
  "st_deleted (appended st l) = st_deleted st"
  by (simp_all add: appended_def)

lemma pair_sum_mset:
  assumes "mset ps = mset qs"
  shows "pair_sum ps = pair_sum qs"
proof -
  have "mset (map f ps) = mset (map f qs)" for f :: "bytes \<times> bytes \<Rightarrow> u64"
    using assms by simp
  then show ?thesis unfolding pair_sum_def by (metis sum_mset_sum_list)
qed

lemma pair_sum_add:
  assumes "mset ps = add_mset (k, v) (mset qs)"
  shows "pair_sum ps = (FNV1a64 k XOR stamp_word v) + pair_sum qs"
  using pair_sum_mset [of ps "(k, v) # qs"] assms by (simp add: pair_sum_def)

lemma pair_sum_swap:
  assumes "mset ps = add_mset (k, u) P" and "mset qs = add_mset (k, v) P"
  shows "pair_sum qs = pair_sum ps - (FNV1a64 k XOR stamp_word u) + (FNV1a64 k XOR stamp_word v)"
proof -
  obtain rs where "P = mset rs" by (metis ex_mset)
  with assms show ?thesis using pair_sum_add [of ps k u rs] pair_sum_add [of qs k v rs] by simp
qed

lemma old_value:
  assumes "pm_rep c l" and "rec_at l (unat x) = Some (k, old)" and "pm_abs c k = Some old"
  shows "\<exists>s. st_val (pm_st c) (ucast (x :: u32)) = Ret s \<and> content s = old \<and> slen s = length old
    \<and> slice_stamp8 s = Ret (stamp_word old) \<and> 8 \<le> length old"
proof -
  have "8 \<le> length old" using assms(1,3) by (rule pm_abs_stamped)
  moreover obtain s where "st_val (pm_st c) (ucast x) = Ret s" "content s = old" "slen s = length old"
    using store_reads(4) [of "pm_st c" l "ucast x" k old] assms(1,2) by (auto simp: pm_rep_def)
  ultimately show ?thesis using slice_stamp8_Ret [of s] by auto
qed

text \<open>
  An operation on \<open>key\<close> of a map with log \<open>l\<close> comes to the error and the live pairs of \<open>s\<close>: it returns
  a well-formed map within the limits of the old one, with at most one more
  record, which is of that key; the checksum has lost \<open>loss\<close>, and the
  log still describes the live pairs unless the store was full.
\<close>

definition extends :: "logrec list \<Rightarrow> logrec list \<Rightarrow> bytes \<Rightarrow> kv \<Rightarrow> bool" where
  "extends l' l key m \<longleftrightarrow> l' = l \<or> (\<exists>v. l' = l @ [(key, v)] \<and> rec_ok m (key, v))"

definition step_to ::
  "pmap \<Rightarrow> logrec list \<Rightarrow> bytes \<Rightarrow> (err \<Rightarrow> u64) \<Rightarrow> (err \<times> pmap) go \<Rightarrow> err \<times> kv \<Rightarrow> bool" where
  "step_to c l key loss res s \<longleftrightarrow> (\<exists>e c' l'. res = Ret (e, c') \<and> pm_rep c' l' \<and> same_limits c c'
     \<and> extends l' l key (pm_abs c) \<and> sum_defect c' = sum_defect c - loss e
     \<and> (pm_abs c = replay l \<and> e \<noteq> Some store_full \<longrightarrow> pm_abs c' = replay l')
     \<and> s = (e, pm_abs c'))"

lemma extends_simps [simp]:
  "extends l l key m" "extends (l @ [(key, v)]) l key m \<longleftrightarrow> rec_ok m (key, v)"
  by (auto simp: extends_def)

lemma rec_ok_simps [simp]: "8 \<le> length v \<Longrightarrow> rec_ok m (k, v)" "rec_ok m (k, []) \<longleftrightarrow> m k \<noteq> None"
  by (auto simp: rec_ok_def)

lemma step_to_same: "pm_rep c l \<Longrightarrow> loss e = 0 \<Longrightarrow> step_to c l key loss (Ret (e, c)) (e, pm_abs c)"
  by (auto simp: step_to_def)

lemma step_toI:
  assumes "pm_rep c' l'" and "extends l' l key (pm_abs c)"
    and "same_limits c c'" and "sum_defect c' = sum_defect c - loss e"
    and "pm_abs c = replay l \<Longrightarrow> e \<noteq> Some store_full \<Longrightarrow> pm_abs c' = replay l'"
  shows "step_to c l key loss (Ret (e, c')) (e, pm_abs c')"
  using assms by (auto simp: step_to_def)

lemma step_toE:
  assumes "step_to c l key loss (Ret (e, c')) s"
  obtains l' where "pm_rep c' l'" and "extends l' l key (pm_abs c)" and "same_limits c c'" and "sum_defect c' = sum_defect c - loss e"
    and "pm_abs c = replay l \<Longrightarrow> e \<noteq> Some store_full \<Longrightarrow> pm_abs c' = replay l'" and "s = (e, pm_abs c')"
  using assms by (auto simp: step_to_def)

lemma step_to_Ret: "step_to c l key loss res s \<Longrightarrow> \<exists>e c'. res = Ret (e, c') \<and> pm_inv c' \<and> (e, pm_abs c') = s"
  by (auto simp: step_to_def pm_inv_def)

lemma step_to_from:
  assumes "step_to c1 l key loss res s" and "pm_abs c1 = pm_abs c" and "sum_defect c1 = sum_defect c"
    and "\<And>c'. same_limits c1 c' \<Longrightarrow> same_limits c c'"
  shows "step_to c l key loss res s"
  using assms unfolding step_to_def by metis

lemma insert_pair_step:
  assumes r: "pm_rep c l" and room: "numStoredKeys (pm_hm c) < numKeysToExpand (pm_hm c)"
    and p: "unat p < unat (hm_size (pm_hm c))" "hs (pm_hm c) (unat p) = 0"
      "on_path (unat (hm_size (pm_hm c))) (hs (pm_hm c)) (unat (key_hash key)) (unat p)"
    and new: "pm_abs c key = None" and v: "8 \<le> length value" and sm: "small key value"
    and loss: "loss None = 0" "loss (Some store_full) = 0"
  shows "step_to c l key loss (insert_pair c (FNV1a64 key) key value (key_hash key) p)
    (if fits (pm_st c) key value then (None, (pm_abs c)(key \<mapsto> value)) else (Some store_full, pm_abs c))"
proof -
  have st: "store_inv (pm_st c) l" using r by (simp add: pm_rep_def)
  show ?thesis
  proof (cases "fits (pm_st c) key value")
    case False
    then have "insert_pair c (FNV1a64 key) key value (key_hash key) p = Ret (Some store_full, c)"
      by (simp add: insert_pair_def put_full [OF st False sm])
    then show ?thesis using False r loss by (simp add: step_to_same)
  next
    case True
    let ?cs = "sc_sum (pm_checksum c) (FNV1a64 key XOR stamp_word value) (unix_nano (stamp_word value))"
    obtain hm where hm: "put_bucket (pm_hm c) p (key_hash key) (of_nat (log_size l)) = Ret hm"
      "pm_rep (c\<lparr>pm_hm := hm, pm_st := appended (pm_st c) (l @ [(key, value)]), pm_checksum := ?cs\<rparr>)
        (l @ [(key, value)])" (is "pm_rep ?c _")
      "mset (pm_pairs (c\<lparr>pm_hm := hm, pm_st := appended (pm_st c) (l @ [(key, value)]),
        pm_checksum := ?cs\<rparr>)) = add_mset (key, value) (mset (pm_pairs c))"
      "sizeLimit hm = sizeLimit (pm_hm c)" "used hm = Suc (used (pm_hm c))"
      using rep_insert [OF r room p new store_inv_appended [OF st True] _ put_index [OF st True] v] by blast
    have "insert_pair c (FNV1a64 key) key value (key_hash key) p = Ret (None, ?c)"
      by (simp add: insert_pair_def put_ok [OF st True] hm(1) stamp8_Ret [OF v])
    moreover have "sum_defect ?c = sum_defect c - loss None"
      using pair_sum_add [OF hm(3)] loss by (simp add: sum_defect_def add.commute)
    moreover have abs: "pm_abs ?c = (pm_abs c)(key \<mapsto> value)" using hm(2,3) by (rule abs_add)
    moreover have "same_limits c ?c" using hm(4,5) by (simp add: same_limits_def)
    moreover have "value \<noteq> []" using v by auto
    ultimately show ?thesis
      using True hm(2) v step_toI [of ?c "l @ [(key, value)]" l key c loss None] by (simp add: replay_snoc)
  qed
qed

text \<open>The state in which an operation that passed the space check searches for its key.\<close>

lemma check_space_step:
  assumes r: "pm_rep c l" and "can_insert c"
  obtains c1 where "check_space c = Ret (None, c1)" and "pm_rep c1 l" and "pm_abs c1 = pm_abs c"
    and "pm_st c1 = pm_st c" and "numStoredKeys (pm_hm c1) < numKeysToExpand (pm_hm c1)"
    and "\<And>key loss res s. step_to c1 l key loss res s \<Longrightarrow> step_to c l key loss res s"
    and "sum_defect c1 = sum_defect c" and "\<And>c'. same_limits c1 c' \<Longrightarrow> same_limits c c'"
proof -
  obtain hm where hm: "check_space c = Ret (None, c\<lparr>pm_hm := hm\<rparr>)" "pm_rep (c\<lparr>pm_hm := hm\<rparr>) l"
    "mset (pm_pairs (c\<lparr>pm_hm := hm\<rparr>)) = mset (pm_pairs c)" "numStoredKeys hm < numKeysToExpand hm"
    "sizeLimit hm = sizeLimit (pm_hm c)" "used hm \<le> used (pm_hm c)"
    using check_space_ok [OF assms] by blast
  let ?c = "c\<lparr>pm_hm := hm\<rparr>"
  have abs: "pm_abs ?c = pm_abs c" using r hm(3) by (rule pm_abs_mset)
  have sum: "sum_defect ?c = sum_defect c" using pair_sum_mset [OF hm(3)] by (simp add: sum_defect_def)
  have lim: "same_limits ?c c' \<Longrightarrow> same_limits c c'" for c'
    using hm(5,6) by (auto simp: same_limits_def)
  show thesis
    using hm abs sum lim step_to_from [OF _ abs sum lim] by (intro that [of ?c]) simp_all
qed

lemma replace_step:
  assumes r: "pm_rep c l" and p: "unat p < unat (hm_size (pm_hm c))" "hs (pm_hm c) (unat p) = key_hash key"
    and x: "rec_at l (unat (si (pm_hm c) (unat p))) = Some (key, old)"
    and fit: "fits (pm_st c) key value" and v: "8 \<le> length value" and loss: "loss None = 0"
  obtains hm where "replace_index c p (key_hash key) (of_nat (log_size l)) = Ret hm"
    and "step_to c l key loss (Ret (None, c\<lparr>pm_hm := hm, pm_st := appended (pm_st c) (l @ [(key, value)]),
      pm_checksum := sc_sum (sc_sub (pm_checksum c) (FNV1a64 key XOR stamp_word old) t)
        (FNV1a64 key XOR stamp_word value) t'\<rparr>)) (None, (pm_abs c)(key \<mapsto> value))"
proof -
  let ?cs = "sc_sum (sc_sub (pm_checksum c) (FNV1a64 key XOR stamp_word old) t)
     (FNV1a64 key XOR stamp_word value) t'"
  have st: "store_inv (pm_st c) l" using r by (simp add: pm_rep_def)
  obtain hm P where hm: "replace_index c p (key_hash key) (of_nat (log_size l)) = Ret hm"
    "pm_rep (c\<lparr>pm_hm := hm, pm_st := appended (pm_st c) (l @ [(key, value)]), pm_checksum := ?cs\<rparr>)
      (l @ [(key, value)])" (is "pm_rep ?c _")
    "mset (pm_pairs c) = add_mset (key, old) P"
    "mset (pm_pairs (c\<lparr>pm_hm := hm, pm_st := appended (pm_st c) (l @ [(key, value)]),
        pm_checksum := ?cs\<rparr>)) = add_mset (key, value) P"
    "sizeLimit hm = sizeLimit (pm_hm c)" "used hm = used (pm_hm c)"
    using rep_replace [OF r p x store_inv_appended [OF st fit] _ put_index [OF st fit] v] by blast
  have "sum_defect ?c = sum_defect c - loss None"
    using pair_sum_swap [OF hm(3,4)] loss by (simp add: sum_defect_def)
  moreover have "pm_abs ?c = (pm_abs c)(key \<mapsto> value)" using r hm(2-4) by (rule abs_replace)
  moreover have "same_limits c ?c" using hm(5,6) by (simp add: same_limits_def)
  moreover have "value \<noteq> []" using v by auto
  ultimately have "step_to c l key loss (Ret (None, ?c)) (None, (pm_abs c)(key \<mapsto> value))"
    using hm(2) v step_toI [of ?c "l @ [(key, value)]" l key c loss None] by (simp add: replay_snoc)
  with hm(1) show thesis by (rule that)
qed

lemma search_steps:
  assumes r: "pm_rep c l"
  obtains (found) p old s where "search c (key_hash key) key = Ret (PFound p (si (pm_hm c) (unat p)))"
      "unat p < unat (hm_size (pm_hm c))" "hs (pm_hm c) (unat p) = key_hash key"
      "rec_at l (unat (si (pm_hm c) (unat p))) = Some (key, old)" "pm_abs c key = Some old"
      "st_val (pm_st c) (ucast (si (pm_hm c) (unat p))) = Ret s" "content s = old"
      "slen s = length old" "slice_stamp8 s = Ret (stamp_word old)" "8 \<le> length old"
  | (missing) p where "search c (key_hash key) key = Ret (PEmpty p)"
      "unat p < unat (hm_size (pm_hm c))" "hs (pm_hm c) (unat p) = 0"
      "on_path (unat (hm_size (pm_hm c))) (hs (pm_hm c)) (unat (key_hash key)) (unat p)"
      "pm_abs c key = None"
  using search_cases [OF r refl, of key] old_value [OF r] by (elim disjE exE conjE) metis+

lemma set_step:
  assumes r: "pm_rep c l" and sm: "small key value"
  shows "step_to c l key (\<lambda>_. 0) (pm_Set c (FNV1a64 key) key value)
    (set_spec (can_insert c) (fits (pm_st c) key value) (pm_abs c) key value)"
proof (cases "8 \<le> length value \<and> can_insert c")
  case False
  then show ?thesis
    using check_space_full [OF r] step_to_same [OF r, of "\<lambda>_. 0"]
    by (auto simp: pm_Set_def set_spec_def)
next
  case True
  then have v: "8 \<le> length value" by simp
  obtain c1 where c1: "check_space c = Ret (None, c1)" "pm_rep c1 l" "pm_abs c1 = pm_abs c"
    "pm_st c1 = pm_st c" "numStoredKeys (pm_hm c1) < numKeysToExpand (pm_hm c1)"
    and lift: "\<And>loss res s. step_to c1 l key loss res s \<Longrightarrow> step_to c l key loss res s"
    by (rule check_space_step [OF r]) (use True in auto)
  have st: "store_inv (pm_st c1) l" using c1(2) by (simp add: pm_rep_def)
  note pre = pm_Set_def c1(1) key_hash_def [symmetric] stamp8_Ret [OF v] Let_def
  have "step_to c1 l key (\<lambda>_. 0) (pm_Set c (FNV1a64 key) key value)
      (set_spec True (fits (pm_st c1) key value) (pm_abs c1) key value)"
    using c1(2)
  proof (cases rule: search_steps [where key = key])
    case (missing p)
    then show ?thesis
      using insert_pair_step [OF c1(2,5) missing(2-5) v sm, of "\<lambda>_. 0"] True
      by (simp add: pre set_spec_def split: if_splits)
  next
    case (found p old s)
    note fnd = found(1,6,9) pre
    consider (old) "stamp value \<le> stamp old"
      | (fit) "\<not> stamp value \<le> stamp old" "fits (pm_st c1) key value"
      | (full) "\<not> stamp value \<le> stamp old" "\<not> fits (pm_st c1) key value" by blast
    then show ?thesis
    proof cases
      case old
      then have "pm_Set c (FNV1a64 key) key value = Ret (None, c1)"
        using True by (auto simp: fnd stamp_def)
      then show ?thesis using old True found(5) step_to_same [OF c1(2)] by (simp add: set_spec_def)
    next
      case fit
      obtain hm where "replace_index c1 p (key_hash key) (of_nat (log_size l)) = Ret hm"
        "step_to c1 l key (\<lambda>_. 0) (Ret (None, c1\<lparr>pm_hm := hm, pm_st := appended (pm_st c1) (l @ [(key, value)]),
          pm_checksum := sc_sum (sc_sub (pm_checksum c1) (FNV1a64 key XOR stamp_word old)
            (unix_nano (stamp_word value))) (FNV1a64 key XOR stamp_word value)
            (unix_nano (stamp_word value))\<rparr>)) (None, (pm_abs c1)(key \<mapsto> value))"
        by (rule replace_step [OF c1(2) found(2-4) fit(2) v]) auto
      then show ?thesis
        using True fit found(5) put_ok [OF st fit(2)] by (simp add: fnd stamp_def set_spec_def)
    next
      case full
      then have "pm_Set c (FNV1a64 key) key value = Ret (Some store_full, c1)"
        using True put_full [OF st full(2) sm] by (simp add: fnd stamp_def)
      then show ?thesis using full True found(5) step_to_same [OF c1(2)] by (simp add: set_spec_def)
    qed
  qed
  then show ?thesis using lift True by (simp add: c1)
qed

lemma cas_fields:
  assumes "24 \<le> length value"
  shows "stamp8 value = Ret (stamp_word value)"
    and "bindG (slice_of value 8 16) Uint64 = Ret (cas_digest value)"
    and "bindG (slice_of value 16 24) Uint64 = Ret (stamp_word (cas_new value))"
    and "8 \<le> length (cas_new value)"
  using assms
  by (simp_all add: stamp8_Ret slice_of_def Uint64_def cas_digest_def cas_new_def stamp_word_def
      take_drop)

lemma drop_stamp:
  assumes "content s = old" and "slen s = length old" and "8 \<le> length old"
  shows "slice_of (content s) 8 (slen s) = Ret (drop 8 old)"
  using assms by (simp add: slice_of_def)

text \<open>
  When the store is full, \<open>CAS\<close> has already subtracted the pair that it would have
  replaced.
\<close>

definition cas_loss :: "pmap \<Rightarrow> bytes \<Rightarrow> err \<Rightarrow> u64" where
  "cas_loss c key e = (if e = Some store_full then
     (case pm_abs c key of None \<Rightarrow> 0 | Some old \<Rightarrow> FNV1a64 key XOR stamp_word old) else 0)"

lemma cas_step:
  assumes r: "pm_rep c l" and sm: "small key (cas_new value)"
  shows "step_to c l key (cas_loss c key) (pm_CAS c (FNV1a64 key) key value)
    (cas_spec (can_insert c) (fits (pm_st c) key (cas_new value)) (pm_abs c) key value)"
proof (cases "24 \<le> length value \<and> can_insert c")
  case False
  then show ?thesis
    using check_space_full [OF r] step_to_same [OF r, of "cas_loss c key"]
    by (auto simp: pm_CAS_def cas_spec_def cas_loss_def)
next
  case True
  then have v: "24 \<le> length value" by simp
  note f = cas_fields [OF v]
  obtain c1 where c1: "check_space c = Ret (None, c1)" "pm_rep c1 l" "pm_abs c1 = pm_abs c"
    "pm_st c1 = pm_st c" "numStoredKeys (pm_hm c1) < numKeysToExpand (pm_hm c1)"
    and lift: "\<And>loss res s. step_to c1 l key loss res s \<Longrightarrow> step_to c l key loss res s"
    by (rule check_space_step [OF r]) (use True in auto)
  have st: "store_inv (pm_st c1) l" using c1(2) by (simp add: pm_rep_def)
  have loss: "cas_loss c key = cas_loss c1 key" by (simp add: cas_loss_def c1 fun_eq_iff)
  note pre = pm_CAS_def c1(1) key_hash_def [symmetric] cas_new_def [symmetric] Let_def f(1-3)
  have "step_to c1 l key (cas_loss c1 key) (pm_CAS c (FNV1a64 key) key value)
      (cas_spec True (fits (pm_st c1) key (cas_new value)) (pm_abs c1) key value)"
    using c1(2)
  proof (cases rule: search_steps [where key = key])
    case (missing p)
    have l0: "cas_loss c1 key e = 0" for e using missing(5) by (simp add: cas_loss_def)
    show ?thesis
    proof (cases "cas_check (pm_abs c1) key value")
      case None
      then have "pm_CAS c (FNV1a64 key) key value
          = insert_pair c1 (FNV1a64 key) key (cas_new value) (key_hash key) p"
        using v missing(1,5)
        by (auto simp: pre cas_check_def cas_expected_def stamp_def split: if_splits)
      then show ?thesis
        using insert_pair_step [OF c1(2,5) missing(2-5) f(4) sm, of "cas_loss c1 key"] l0 v None
        by (simp add: cas_spec_def split: if_splits)
    next
      case (Some e)
      then have "pm_CAS c (FNV1a64 key) key value = Ret (Some e, c1)"
        using v missing(1,5) by (auto simp: pre cas_check_def cas_expected_def stamp_def split: if_splits)
      then show ?thesis using step_to_same [OF c1(2) l0] v Some by (simp add: cas_spec_def)
    qed
  next
    case (found p old s)
    note fnd = found(1,6,9) drop_stamp [OF found(7,8,10)] pre
    let ?t = "unix_nano (stamp_word (cas_new value))"
    let ?sub = "sc_sub (pm_checksum c1) (FNV1a64 key XOR stamp_word old) ?t"
    show ?thesis
    proof (cases "cas_check (pm_abs c1) key value")
      case (Some e)
      then have "pm_CAS c (FNV1a64 key) key value = Ret (Some e, c1)" "cas_loss c1 key (Some e) = 0"
        using v found(5)
        by (auto simp: fnd cas_check_def cas_expected_def stamp_def cas_loss_def split: if_splits)
      then show ?thesis using step_to_same [OF c1(2)] v Some by (simp add: cas_spec_def)
    next
      case None
      then have t: "unix_nano (stamp_word old) = unix_nano (stamp_word value)"
        "cas_digest value = FNV1a64 (drop 8 old)"
        using found(5) by (auto simp: cas_check_def cas_expected_def stamp_def split: if_splits)
      show ?thesis
      proof (cases "fits (pm_st c1) key (cas_new value)")
        case True
        have "cas_loss c1 key None = 0" by (simp add: cas_loss_def)
        then obtain hm where "replace_index c1 p (key_hash key) (of_nat (log_size l)) = Ret hm"
          "step_to c1 l key (cas_loss c1 key) (Ret (None, c1\<lparr>pm_hm := hm,
            pm_st := appended (pm_st c1) (l @ [(key, cas_new value)]),
            pm_checksum := sc_sum ?sub (FNV1a64 key XOR stamp_word (cas_new value)) ?t\<rparr>))
            (None, (pm_abs c1)(key \<mapsto> cas_new value))"
          by (rule replace_step [OF c1(2) found(2-4) True f(4)])
        then show ?thesis
          using v t None put_ok [OF st True] True by (simp add: fnd cas_spec_def)
      next
        case False
        let ?c = "c1\<lparr>pm_checksum := ?sub\<rparr>"
        have "pm_CAS c (FNV1a64 key) key value = Ret (Some store_full, ?c)"
          using v t put_full [OF st False sm] by (simp add: fnd)
        moreover have "step_to c1 l key (cas_loss c1 key) (Ret (Some store_full, ?c)) (Some store_full, pm_abs ?c)"
          using c1(2) found(5)
          by (intro step_toI [where l' = l])
            (simp_all add: pm_rep_def same_limits_def sum_defect_def cas_loss_def pm_pairs_def)
        ultimately show ?thesis
          using v None False by (simp add: cas_spec_def pm_abs_def pm_pairs_def)
      qed
    qed
  qed
  then show ?thesis using lift True by (simp add: c1 loss)
qed

text \<open>\<open>Del\<close> removes the bucket before it appends its record, which may fail.\<close>

lemma del_step:
  assumes r: "pm_rep c l" and v: "8 \<le> length value" and sm: "small key []"
  shows "step_to c l key (\<lambda>_. 0) (pm_Del c (FNV1a64 key) key value)
    (del_spec (fits (pm_st c) key []) (pm_abs c) key value)"
  using r
proof (cases rule: search_steps [where key = key])
  case (missing p)
  then have "pm_Del c (FNV1a64 key) key value = Ret (None, c)"
    by (simp add: pm_Del_def key_hash_def [symmetric])
  then show ?thesis using missing step_to_same [OF r] by (simp add: del_spec_def)
next
  case (found p old s)
  note pre = pm_Del_def key_hash_def [symmetric] found(1,6,8,9) stamp8_Ret [OF v] Let_def
  show ?thesis
  proof (cases "stamp value < stamp old")
    case True
    then have "pm_Del c (FNV1a64 key) key value = Ret (None, c)" by (simp add: pre stamp_def)
    then show ?thesis using found True step_to_same [OF r] by (simp add: del_spec_def)
  next
    case False
    let ?st = "(pm_st c)\<lparr>st_deleted := st_deleted (pm_st c) + of_nat (12 + length key + slen s)\<rparr>"
    let ?fit = "fits (pm_st c) key []"
    have st: "store_inv ?st l" using r by (simp add: pm_rep_def)
    obtain st' l' res where st': "st_put ?st key [] = Ret (res, st')" "store_inv st' l'"
      "(case res of Inl e \<Rightarrow> Some e | Inr _ \<Rightarrow> None) = (if ?fit then None else Some store_full)"
      "st_size st' = st_size (pm_st c)" "st_osFile st' = st_osFile (pm_st c)"
      "l' = (if ?fit then l @ [(key, [])] else l)"
      using put_ok [OF st, of key "[]"] put_full [OF st _ sm] st store_inv_appended [OF st, of key "[]"]
      by (cases ?fit) auto
    have ext: "l' = l \<or> (\<exists>r. l' = l @ [r])" using st'(6) by (cases ?fit) auto
    have ext2: "extends l' l key (pm_abs c)" using st'(6) found(5) by (cases ?fit) auto
    let ?cs = "sc_sub (pm_checksum c) (FNV1a64 key XOR stamp_word old) (unix_nano (stamp_word value))"
    obtain hm where hm: "setHash (pm_hm c) p deletedBucket = Ret hm"
      "pm_rep (c\<lparr>pm_hm := hm, pm_st := st', pm_checksum := ?cs\<rparr>) l'" (is "pm_rep ?c _")
      "mset (pm_pairs c) = add_mset (key, old)
        (mset (pm_pairs (c\<lparr>pm_hm := hm, pm_st := st', pm_checksum := ?cs\<rparr>)))"
      "sizeLimit hm = sizeLimit (pm_hm c)" "used hm = used (pm_hm c)"
      using rep_delete [OF r found(2-4) st'(2) ext] by blast
    have "pm_Del c (FNV1a64 key) key value = Ret (if ?fit then None else Some store_full, ?c)"
      using False st'(1,3) hm(1) by (simp add: pre stamp_def)
    moreover have "pm_abs ?c = (pm_abs c)(key := None)" using r hm(3) by (rule abs_remove)
    moreover have "sum_defect ?c = sum_defect c"
      using pair_sum_add [OF hm(3)] by (simp add: sum_defect_def)
    moreover have "same_limits c ?c" using hm(4,5) st'(4,5) by (simp add: same_limits_def)
    ultimately show ?thesis
      using hm(2) st'(6) found(5) False
        step_toI [OF hm(2) ext2, of "\<lambda>_. 0" "if ?fit then None else Some store_full"]
      by (simp add: del_spec_def replay_snoc split: if_splits)
  qed
qed

lemma del_short:
  assumes r: "pm_rep c l" and "length value < 8" and "pm_abs c key = Some old"
  shows "pm_Del c (FNV1a64 key) key value = Panic OutOfRange"
  using r
proof (cases rule: search_steps [where key = key])
  case (found p old s)
  then show ?thesis
    using assms(2) by (simp add: pm_Del_def key_hash_def [symmetric] stamp8_def slice_of_def)
qed (simp add: assms)

section \<open>Lemmas: lookup\<close>

lemma get_remapped: "pm_rep c l \<Longrightarrow> pm_Get c (key_hash key) key = Ret (pm_abs c key)"
  by (cases rule: search_steps [where c = c and key = key])
    (auto simp: pm_Get_def read_val_def)

text \<open>
  \<open>Get\<close> is called with the low 32 bits of the hash as they are, while the writes remap the
  values 0 and 1, which mark buckets. It finds the keys for which both agree.
\<close>

definition readable :: "bytes \<Rightarrow> bool" where
  "readable key \<longleftrightarrow> 2 \<le> (ucast (FNV1a64 key) :: u32)"

lemma readable_hash: "readable key \<Longrightarrow> ucast (FNV1a64 key) = key_hash key"
  by (simp add: readable_def key_hash_def hashReMap_def not_less)

lemma get_readable: "pm_rep c l \<Longrightarrow> readable key \<Longrightarrow> pm_Get c (ucast (FNV1a64 key)) key = Ret (pm_abs c key)"
  by (simp add: readable_hash get_remapped)

lemma get_zero:
  assumes "pm_rep c l"
  shows "pm_Get c 0 key = Ret None"
proof -
  let ?hm = "pm_hm c"
  have inv: "hm_inv ?hm" using assms by (simp add: pm_rep_def)
  then obtain K where sh: "hm_shape ?hm K" by (auto simp: hm_inv_def)
  note sz = hm_shapeD(2) [OF sh]
  obtain e where "e < 2 ^ K" "hs ?hm e = 0" using used_room [OF hm_inv_room [OF inv]] sz by auto
  then obtain d where d: "d < 2 ^ K" "hs ?hm ((0 + d) mod 2 ^ K) = 0"
    "\<And>j. j < d \<Longrightarrow> hs ?hm ((0 + j) mod 2 ^ K) \<noteq> 0"
    by (rule first_empty [where a = 0]) blast
  have "\<exists>p. unat p = (0 + d) mod 2 ^ K \<and> probe (2 ^ K) ?hm (pm_st c) 0 key (0 AND sizeMask ?hm) =
     Ret (if hs ?hm ((0 + d) mod 2 ^ K) = 0 then PEmpty p else PFound p (si ?hm ((0 + d) mod 2 ^ K)))"
    using d by (intro probe_walk [OF sh, where kf = "\<lambda>_. []"]) auto
  then show ?thesis using d(2) by (auto simp: pm_Get_def search_def sz)
qed

end
