(* ===== verification/Last_Writer.thy ===== *)
theory Last_Writer
  imports Main
begin

text \<open>
  The interface of a last-writer-wins store: a write that reports success changes the view
  only when its stamp is newer than the stamp it meets. Clients send the same writes to
  every replica in any order, and repair sends some of them again; in every store with
  this contract the views agree afterwards.
\<close>

definition lww :: "('v \<Rightarrow> int) \<Rightarrow> 'k \<Rightarrow> 'v \<Rightarrow> ('k \<rightharpoonup> 'v) \<Rightarrow> ('k \<rightharpoonup> 'v)" where
  "lww ts k v m = (case m k of
     Some old \<Rightarrow> if ts v \<le> ts old then m else m(k \<mapsto> v)
   | None \<Rightarrow> m(k \<mapsto> v))"

text \<open>No two different values of a key carry the same stamp.\<close>

definition no_ties :: "('v \<Rightarrow> int) \<Rightarrow> ('k \<times> 'v) set \<Rightarrow> bool" where
  "no_ties ts W \<longleftrightarrow> (\<forall>k v v'. (k, v) \<in> W \<and> (k, v') \<in> W \<and> ts v = ts v' \<longrightarrow> v = v')"

text \<open>What the newest value of a key is, without any order of the writes.\<close>

definition newest :: "('v \<Rightarrow> int) \<Rightarrow> ('k \<rightharpoonup> 'v) \<Rightarrow> ('k \<times> 'v) set \<Rightarrow> 'k \<Rightarrow> 'v option \<Rightarrow> bool" where
  "newest ts m W k r \<longleftrightarrow> (case r of
     None \<Rightarrow> m k = None \<and> (\<forall>v. (k, v) \<notin> W)
   | Some x \<Rightarrow> (m k = Some x \<or> (k, x) \<in> W) \<and> (\<forall>v. (k, v) \<in> W \<longrightarrow> ts v \<le> ts x)
       \<and> (\<forall>old. m k = Some old \<longrightarrow> ts old \<le> ts x \<and> (ts old = ts x \<longrightarrow> old = x)))"

lemma lww_newest: "newest ts m (set ws) k (fold (\<lambda>(k, v). lww ts k v) ws m k)"
proof (induction ws rule: rev_induct)
  case Nil
  show ?case by (simp add: newest_def split: option.splits)
next
  case (snoc w ws)
  obtain k' v' where w: "w = (k', v')" by fastforce
  let ?m = "fold (\<lambda>(k, v). lww ts k v) ws m"
  have IH: "newest ts m (set ws) k (?m k)" by (rule snoc)
  have s: "fold (\<lambda>(k, v). lww ts k v) (ws @ [w]) m = lww ts k' v' ?m" by (simp add: w)
  show ?case
  proof (cases "k' = k")
    case False
    then have "lww ts k' v' ?m k = ?m k" by (simp add: lww_def split: option.splits)
    then show ?thesis
      using IH False unfolding s by (auto simp: newest_def w split: option.splits)
  next
    case True
    show ?thesis
    proof (cases "?m k")
      case None
      then show ?thesis using IH True unfolding s by (auto simp: newest_def w lww_def)
    next
      case (Some x)
      then have x: "m k = Some x \<or> (k, x) \<in> set ws" "\<And>v. (k, v) \<in> set ws \<Longrightarrow> ts v \<le> ts x"
        "\<And>old. m k = Some old \<Longrightarrow> ts old \<le> ts x \<and> (ts old = ts x \<longrightarrow> old = x)"
        using IH by (simp_all add: newest_def)
      have lt: "ts v \<le> ts v'" if "(k, v) \<in> set ws \<or> m k = Some v" and "\<not> ts v' \<le> ts x" for v
        using that x(2) [of v] x(3) [of v] by linarith
      have ne: "ts old \<noteq> ts v'" if "m k = Some old" and "\<not> ts v' \<le> ts x" for old
        using that x(3) [of old] by linarith
      show ?thesis
        using x(1) x(2) x(3) lt ne True Some unfolding s
        by (cases "ts v' \<le> ts x") (auto simp: newest_def w lww_def)
    qed
  qed
qed

lemma newest_unique:
  assumes "no_ties ts W" and "newest ts m W k r" and "newest ts m W k r'"
  shows "r = r'"
proof (cases r)
  case None
  then show ?thesis using assms(2,3) by (cases r') (auto simp: newest_def)
next
  case (Some x)
  then obtain y where r': "r' = Some y" using assms(2,3) by (cases r') (auto simp: newest_def)
  have x: "m k = Some x \<or> (k, x) \<in> W" "\<And>v. (k, v) \<in> W \<Longrightarrow> ts v \<le> ts x"
    "\<And>old. m k = Some old \<Longrightarrow> ts old \<le> ts x \<and> (ts old = ts x \<longrightarrow> old = x)"
    using assms(2) by (simp_all add: newest_def Some)
  have y: "m k = Some y \<or> (k, y) \<in> W" "\<And>v. (k, v) \<in> W \<Longrightarrow> ts v \<le> ts y"
    "\<And>old. m k = Some old \<Longrightarrow> ts old \<le> ts y \<and> (ts old = ts y \<longrightarrow> old = y)"
    using assms(3) by (simp_all add: newest_def r')
  have "ts y \<le> ts x" using y(1) x(2) [of y] x(3) [of y] by blast
  moreover have "ts x \<le> ts y" using x(1) y(2) [of x] y(3) [of x] by blast
  ultimately have ts: "ts x = ts y" by simp
  have tie: "(k, x) \<in> W \<Longrightarrow> (k, y) \<in> W \<Longrightarrow> x = y"
    using assms(1) ts unfolding no_ties_def by blast
  have "x = y"
    using x(1)
  proof
    assume "m k = Some x"
    then show ?thesis using y(3) ts by blast
  next
    assume w: "(k, x) \<in> W"
    show ?thesis
      using y(1) x(3) [of y] ts [symmetric] tie [OF w] by blast
  qed
  then show ?thesis by (simp add: Some r')
qed

text \<open>A run of writes all of which succeed.\<close>

fun puts :: "('s \<Rightarrow> 'k \<Rightarrow> 'v \<Rightarrow> 's option) \<Rightarrow> 's \<Rightarrow> ('k \<times> 'v) list \<Rightarrow> 's option" where
  "puts put s [] = Some s"
| "puts put s ((k, v) # ws) = (case put s k v of None \<Rightarrow> None | Some s' \<Rightarrow> puts put s' ws)"

locale lww_store =
  fixes inv :: "'s \<Rightarrow> bool"
    and view :: "'s \<Rightarrow> ('k \<rightharpoonup> 'v)"
    and put :: "'s \<Rightarrow> 'k \<Rightarrow> 'v \<Rightarrow> 's option"
    and ts :: "'v \<Rightarrow> int"
  assumes put_inv: "inv s \<Longrightarrow> put s k v = Some s' \<Longrightarrow> inv s'"
    and put_view: "inv s \<Longrightarrow> put s k v = Some s' \<Longrightarrow> view s' = lww ts k v (view s)"
begin

lemma puts_view:
  "inv s \<Longrightarrow> puts put s ws = Some s' \<Longrightarrow> inv s' \<and> view s' = fold (\<lambda>(k, v). lww ts k v) ws (view s)"
proof (induction ws arbitrary: s)
  case Nil
  then show ?case by simp
next
  case (Cons w ws)
  obtain k v where w: "w = (k, v)" by fastforce
  with Cons.prems obtain t where t: "put s k v = Some t" "puts put t ws = Some s'"
    by (auto split: option.splits)
  have "inv s' \<and> view s' = fold (\<lambda>(k, v). lww ts k v) ws (view t)"
    using put_inv [OF Cons.prems(1) t(1)] t(2) by (rule Cons.IH)
  then show ?case
    using put_view [OF Cons.prems(1) t(1)] by (simp only: w fold_Cons o_apply case_prod_conv)
qed

lemma puts_newest:
  "inv s \<Longrightarrow> puts put s ws = Some s' \<Longrightarrow> newest ts (view s) (set ws) k (view s' k)"
  using puts_view [of s ws s'] lww_newest [of ts "view s" ws k] by simp

text \<open>Two stores that saw the same writes, in any order and any number of times, agree.\<close>

lemma convergence:
  assumes "inv a" and "inv b" and "view a = view b"
    and "puts put a ws = Some a'" and "puts put b ws' = Some b'"
    and "set ws = set ws'" and "no_ties ts (set ws)"
  shows "view a' = view b'"
proof
  fix k
  have "newest ts (view a) (set ws) k (view a' k)" using assms(1,4) by (rule puts_newest)
  moreover have "newest ts (view a) (set ws) k (view b' k)"
    using puts_newest [OF assms(2,5)] by (simp only: assms(3,6))
  ultimately show "view a' k = view b' k" by (rule newest_unique [OF assms(7)])
qed

end

end
