(* ===== verification/PMap_Props.thy ===== *)
theory PMap_Props
  imports PMap_Spec Last_Writer
begin

text \<open>
  The properties of a persistent map (src/core/pmap/pmap.go): each operation against its
  specification, the invariants of every run of operations, and the convergence of
  replicas. The concrete map \<open>ex_map\<close> is an empty map of four buckets over a store of 256
  bytes.
\<close>

section \<open>Runs of operations\<close>

datatype map_op = MSet bytes bytes | MCas bytes bytes | MDel bytes bytes

fun do_op :: "pmap \<Rightarrow> map_op \<Rightarrow> (err \<times> pmap) go" where
  "do_op c (MSet k v) = pm_Set c (FNV1a64 k) k v"
| "do_op c (MCas k v) = pm_CAS c (FNV1a64 k) k v"
| "do_op c (MDel k v) = pm_Del c (FNV1a64 k) k v"

text \<open>Arguments of a size a machine can hold; the argument of \<open>Del\<close> has a stamp.\<close>

fun op_ok :: "map_op \<Rightarrow> bool" where
  "op_ok (MSet k v) = small k v"
| "op_ok (MCas k v) = small k v"
| "op_ok (MDel k v) = (8 \<le> length v \<and> small k [])"

fun op_key :: "map_op \<Rightarrow> bytes" where
  "op_key (MSet k v) = k" | "op_key (MCas k v) = k" | "op_key (MDel k v) = k"

text \<open>A run, with the operations and the errors they returned.\<close>

inductive pm_reach :: "pmap \<Rightarrow> (map_op \<times> err) list \<Rightarrow> pmap \<Rightarrow> bool" where
  start: "pm_reach c [] c"
| step: "pm_reach c tr c' \<Longrightarrow> op_ok op \<Longrightarrow> do_op c' op = Ret (e, c'') \<Longrightarrow>
     pm_reach c (tr @ [(op, e)]) c''"

inductive_cases pm_reach_cases: "pm_reach c tr c'"

text \<open>The runs in which no operation found the store full.\<close>

definition no_full :: "(map_op \<times> err) list \<Rightarrow> bool" where
  "no_full tr \<longleftrightarrow> (\<forall>(op, e)\<in>set tr. e \<noteq> Some store_full)"

definition pm_put :: "pmap \<Rightarrow> bytes \<Rightarrow> bytes \<Rightarrow> pmap option" where
  "pm_put c k v = (if small k v then
     (case pm_Set c (FNV1a64 k) k v of Ret (e, c') \<Rightarrow> (if e = None then Some c' else None) | _ \<Rightarrow> None)
     else None)"

text \<open>An empty map with a small table over a small store.\<close>

definition ex_map :: pmap where
  "ex_map = \<lparr>pm_hm = newHashMap 2 64,
     pm_st = \<lparr>st_deleted = 0, st_length = 0, st_size = 256, st_osFile = Some ''c'',
              st_file = Some (replicate 256 0)\<rparr>,
     pm_checksum = zeroChecksum, pm_path = ''c''\<rparr>"

definition os_fine :: os_env where
  "os_fine = \<lparr>open_err = False, truncate_err = False, stat_err = False, map_err = False,
     unmap_err = False, fclose_err = False\<rparr>"

definition ex_key :: bytes where "ex_key = [107]"
definition ex_val :: "byte \<Rightarrow> bytes" where "ex_val t = [t, 0, 0, 0, 0, 0, 0, 0, 65]"

text \<open>The same map after one \<open>Set\<close>.\<close>

definition ex_map1 :: pmap where
  "ex_map1 = the (pm_put ex_map ex_key (ex_val 5))"

text \<open>A key whose hash has 32 zero bits at the low end: the bytes of \<open>K2ra3j\<close>.\<close>

definition zero_key :: bytes where "zero_key = [75, 50, 114, 97, 51, 106]"

section \<open>Lemmas\<close>

lemma small_cas: "small k v \<Longrightarrow> small k (cas_new v)"
  by (simp add: small_def cas_new_def)

lemma op_step:
  assumes r: "pm_rep c l" and ok: "op_ok op"
  obtains loss s where "step_to c l (op_key op) loss (do_op c op) s" and "\<And>e. e \<noteq> Some store_full \<Longrightarrow> loss e = 0"
proof (cases op)
  case (MSet k v)
  then show thesis using set_step [OF r, of k v] ok by (intro that [of "\<lambda>_. 0"]) auto
next
  case (MCas k v)
  then show thesis
    using cas_step [OF r small_cas, of k v] ok by (intro that [of "cas_loss c k"]) (auto simp: cas_loss_def)
next
  case (MDel k v)
  then show thesis using del_step [OF r, of v k] ok by (intro that [of "\<lambda>_. 0"]) auto
qed

lemma no_full_simps [simp]:
  "no_full []" "no_full (tr @ [(op, e)]) \<longleftrightarrow> no_full tr \<and> e \<noteq> Some store_full"
  by (auto simp: no_full_def)

lemma regular_Nil [simp]: "regular []" by (simp add: regular_def)

lemma regular_snoc:
  assumes "regular l" and "rec_ok (replay l) r"
  shows "regular (l @ [r])"
  unfolding regular_def
proof (intro allI impI)
  fix a x b
  assume l: "l @ [r] = a @ x # b"
  show "rec_ok (replay a) x"
  proof (cases b rule: rev_cases)
    case Nil
    then show ?thesis using l assms(2) by simp
  next
    case (snoc b' y)
    then have "l = a @ x # b'" using l by simp
    then show ?thesis using assms(1) unfolding regular_def by blast
  qed
qed

text \<open>What a run does to the log: at most one record per operation, of its key.\<close>

definition grown :: "pmap \<Rightarrow> (map_op \<times> err) list \<Rightarrow> pmap \<Rightarrow> logrec list \<Rightarrow> bool" where
  "grown c tr c' l' \<longleftrightarrow> st_size (pm_st c') = st_size (pm_st c) \<and> st_osFile (pm_st c') = st_osFile (pm_st c)
     \<and> sizeLimit (pm_hm c') = sizeLimit (pm_hm c) \<and> used (pm_hm c') \<le> used (pm_hm c) + length tr
     \<and> length l' \<le> length tr \<and> fst ` set l' \<subseteq> (\<lambda>(op, e). op_key op) ` set tr"

lemma reach_rep:
  assumes "pm_reach c tr c'" and "pm_rep c l"
  shows "\<exists>l'. pm_rep c' (l @ l') \<and> grown c tr c' l' \<and> (no_full tr \<longrightarrow> sum_defect c' = sum_defect c
    \<and> (pm_abs c = replay l \<longrightarrow> pm_abs c' = replay (l @ l') \<and> (regular l \<longrightarrow> regular (l @ l'))))"
  using assms
proof (induction rule: pm_reach.induct)
  case (start c)
  then show ?case by (intro exI [of _ "[]"]) (simp add: grown_def)
next
  case (step c tr c' op e c'')
  then obtain l' where l': "pm_rep c' (l @ l')" "grown c tr c' l'" "no_full tr \<longrightarrow> sum_defect c' = sum_defect c
    \<and> (pm_abs c = replay l \<longrightarrow> pm_abs c' = replay (l @ l') \<and> (regular l \<longrightarrow> regular (l @ l')))" by blast
  obtain loss s where s: "step_to c' (l @ l') (op_key op) loss (Ret (e, c'')) s"
    "e \<noteq> Some store_full \<Longrightarrow> loss e = 0"
    by (rule op_step [OF l'(1) step.hyps(2)]) (simp add: step.hyps(3))
  from s(1) obtain k where k: "pm_rep c'' k" "extends k (l @ l') (op_key op) (pm_abs c')"
    "same_limits c' c''" "sum_defect c'' = sum_defect c' - loss e"
    "pm_abs c' = replay (l @ l') \<Longrightarrow> e \<noteq> Some store_full \<Longrightarrow> pm_abs c'' = replay k"
    by (rule step_toE) blast
  from k(2) obtain l'' where l'': "k = l @ l''" "length l'' \<le> Suc (length l')"
    "fst ` set l'' \<subseteq> insert (op_key op) (fst ` set l')"
    and reg: "regular (l @ l') \<Longrightarrow> pm_abs c' = replay (l @ l') \<Longrightarrow> regular (l @ l'')"
    unfolding extends_def
  proof (elim disjE exE conjE)
    fix v
    assume "k = (l @ l') @ [(op_key op, v)]" and "rec_ok (pm_abs c') (op_key op, v)"
    then show thesis using regular_snoc [of "l @ l'"] by (intro that [of "l' @ [(op_key op, v)]"]) auto
  qed (use that [of l'] in auto)
  have "grown c (tr @ [(op, e)]) c'' l''"
    using l'(2) k(3) l''(2,3) by (auto simp: grown_def same_limits_def)
  then show ?case using l'(3) s(2) k l'' reg by (intro exI [of _ l'']) auto
qed

lemma empty_rep:
  assumes "store_inv (pm_st c) []" and "pm_hm c = newHashMap (of_nat k) lim"
    and "2 ^ k \<le> unat lim" and "unat lim \<le> 2 ^ 28"
  shows "pm_rep c []" and "pm_pairs c = []"
  using assms newHashMap_inv [OF assms(3,4)]
  by (simp_all add: pm_rep_def index_ok_def live_def pm_pairs_def List.map_filter_def)

lemma ex_map_rep: "pm_rep ex_map []" "pm_pairs ex_map = []" "pm_abs ex_map = Map.empty"
  "sum_defect ex_map = 0"
proof -
  have st: "store_inv (pm_st ex_map) []" by (simp add: ex_map_def store_inv_def)
  have "pm_hm ex_map = newHashMap (of_nat 2) 64" by (simp add: ex_map_def)
  from empty_rep [OF st this] show "pm_rep ex_map []" and p: "pm_pairs ex_map = []" by simp_all
  from p show "pm_abs ex_map = Map.empty" "sum_defect ex_map = 0"
    by (simp_all add: pm_abs_def sum_defect_def pair_sum_def ex_map_def zeroChecksum_def)
qed

lemma ex_map_inv: "pm_inv ex_map" using ex_map_rep(1) by (auto simp: pm_inv_def)

interpretation rep: lww_store pm_inv pm_abs pm_put stamp
proof unfold_locales
  fix c c' k v
  assume "pm_inv c" and p: "pm_put c k v = Some c'"
  then obtain l where r: "pm_rep c l" by (auto simp: pm_inv_def)
  have sm: "small k v" and s: "pm_Set c (FNV1a64 k) k v = Ret (None, c')"
    using p by (auto simp: pm_put_def split: if_splits go.splits)
  obtain l' where "pm_rep c' l'" "set_spec (can_insert c) (fits (pm_st c) k v) (pm_abs c) k v
      = (None, pm_abs c')"
    using set_step [OF r sm] unfolding s by (rule step_toE) blast
  then show "pm_inv c'" "pm_abs c' = lww stamp k v (pm_abs c)"
    by (auto simp: pm_inv_def set_spec_def lww_def split: option.splits if_splits)
qed

lemma put_ok_map:
  assumes r: "pm_rep c l" and "small k v" and "8 \<le> length v" and "can_insert c" and "fits (pm_st c) k v"
    and "pm_abs c k = None"
  shows "\<exists>c' l'. pm_put c k v = Some c' \<and> pm_rep c' l' \<and> same_limits c c' \<and> sum_defect c' = sum_defect c
    \<and> pm_abs c' = (pm_abs c)(k \<mapsto> v)"
  using set_step [OF assms(1,2)] assms by (auto simp: set_spec_def pm_put_def step_to_def)

lemma ex_map_room: "can_insert ex_map" "fits (pm_st ex_map) ex_key (ex_val t)"
  "fits (pm_st ex_map) zero_key (ex_val t)"
proof -
  show "can_insert ex_map" by code_simp
  show "fits (pm_st ex_map) ex_key (ex_val t)" "fits (pm_st ex_map) zero_key (ex_val t)"
    by (simp_all add: fits_def ex_map_def rec_size_def ex_key_def ex_val_def zero_key_def)
qed

lemma ex_val_simps [simp]: "length (ex_val t) = 9" "small ex_key (ex_val t)"
  by (simp_all add: ex_val_def small_def ex_key_def)

lemma ex_stamp: "stamp (ex_val 5) = 5" "stamp (ex_val 7) = 7"
  by (simp_all add: stamp_def stamp_word_def ex_val_def le_word_def unix_nano_def)

lemma zero_key_hash: "(ucast (FNV1a64 zero_key) :: u32) = 0"
  by code_simp

lemma ex_map1: "pm_inv ex_map1" "pm_abs ex_map1 = [ex_key \<mapsto> ex_val 5]" "sum_defect ex_map1 = 0"
  "st_size (pm_st ex_map1) = 256"
proof -
  obtain c' l' where "pm_put ex_map ex_key (ex_val 5) = Some c'" "pm_rep c' l'" "sum_defect c' = 0"
    "same_limits ex_map c'" "pm_abs c' = [ex_key \<mapsto> ex_val 5]"
    using put_ok_map [OF ex_map_rep(1), of ex_key "ex_val 5"] ex_map_room(1,2) ex_map_rep by auto
  then show "pm_inv ex_map1" "pm_abs ex_map1 = [ex_key \<mapsto> ex_val 5]" "sum_defect ex_map1 = 0"
    "st_size (pm_st ex_map1) = 256"
    by (auto simp: ex_map1_def pm_inv_def same_limits_def ex_map_def)
qed

lemma ex_small [simp]: "small ex_key v \<longleftrightarrow> length v < 2 ^ 62 - 1"
  by (simp add: small_def ex_key_def less_diff_conv)

lemma can_insert_used:
  assumes "pm_rep c l" and "unat (sizeLimit (pm_hm c)) = 2 ^ j"
    and "used (pm_hm c) < unat (load_limit (2 ^ j))"
  shows "can_insert c"
  using room_or_grow [of "pm_hm c" j] assms by (simp add: pm_rep_def can_insert_def)

lemma New_rep:
  assumes "pm_New os d path sz = Ret (c, d')" and "unat sz \<le> 2 ^ 32"
  shows "pm_rep c []" and "pm_pairs c = []" and "sum_defect c = 0"
    and "sizeLimit (pm_hm c) = 2 ^ 26" and "used (pm_hm c) = 0"
proof -
  have "store_inv (pm_st c) []" and hm: "pm_hm c = newHashMap (of_nat 16) (2 ^ 26)"
    and cs: "pm_checksum c = zeroChecksum"
    using assms newStore_inv
    by (auto simp: pm_New_def bindG_eq_Ret defaultHashMapInitialLog2Size_def defaultHashMapSizeLimit_def)
  from empty_rep [OF this(1,2)] show "pm_rep c []" and "pm_pairs c = []" by simp_all
  with cs show "sum_defect c = 0" by (simp add: sum_defect_def pair_sum_def zeroChecksum_def)
  show "sizeLimit (pm_hm c) = 2 ^ 26" "used (pm_hm c) = 0"
    using newHashMap_core [of 16 "2 ^ 26"] by (simp_all add: hm)
qed

lemma ex_map1_limits: "unat (sizeLimit (pm_hm ex_map1)) = 2 ^ 6" "used (pm_hm ex_map1) \<le> 1"
proof -
  have "same_limits ex_map ex_map1"
    using put_ok_map [OF ex_map_rep(1), of ex_key "ex_val 5"] ex_map_room(1,2) ex_map_rep by (auto simp: ex_map1_def)
  moreover have "used (pm_hm ex_map) = 0" "sizeLimit (pm_hm ex_map) = 64"
    using newHashMap_core [of 2 64] by (simp_all add: ex_map_def)
  ultimately show "unat (sizeLimit (pm_hm ex_map1)) = 2 ^ 6" "used (pm_hm ex_map1) \<le> 1" by (simp_all add: same_limits_def)
qed

lemma ex_map1_room: "can_insert ex_map1" "\<not> fits (pm_st ex_map1) ex_key (replicate 300 0)"
proof -
  obtain l' where l': "pm_rep ex_map1 l'" using ex_map1(1) by (auto simp: pm_inv_def)
  have "unat (load_limit (2 ^ 6)) = 44" by (simp add: load_limit_def)
  then show "can_insert ex_map1" using can_insert_used [OF l', of 6] ex_map1_limits by simp
  show "\<not> fits (pm_st ex_map1) ex_key (replicate 300 0)"
    using ex_map1(4) by (simp add: fits_def rec_size_def)
qed

lemma full_error:
  assumes "pm_rep c l" and "op_ok op" and "do_op c op = Ret (Some hm_full, c')"
  shows "\<not> can_insert c"
proof (cases op)
  case (MSet k v)
  then show ?thesis
    using set_step [OF assms(1), of k v] assms(2,3)
    by (auto simp: step_to_def set_spec_def split: if_splits)
next
  case (MCas k v)
  then show ?thesis
    using cas_step [OF assms(1) small_cas, of k v] assms(2,3)
    by (auto simp: step_to_def cas_spec_def cas_check_def split: if_splits option.splits)
next
  case (MDel k v)
  then show ?thesis
    using del_step [OF assms(1), of v k] assms(2,3)
    by (auto simp: step_to_def del_spec_def split: if_splits option.splits)
qed

lemma ex_key_readable: "readable ex_key"
  unfolding readable_def ex_key_def by code_simp

lemma ex_map1_log: "pm_rep ex_map1 [(ex_key, ex_val 5)]" "pm_abs ex_map1 = replay [(ex_key, ex_val 5)]"
proof -
  have "small ex_key (ex_val 5)" by simp
  from set_step [OF ex_map_rep(1) this]
  obtain l' where l': "pm_rep ex_map1 l'" "extends l' [] ex_key Map.empty" "pm_abs ex_map1 = replay l'"
    using ex_map_room(1,2) ex_map_rep(3)
    by (auto simp: step_to_def set_spec_def ex_map1_def pm_put_def replay_def)
  have "replay l' ex_key = Some (ex_val 5)" using ex_map1(2) l'(3) by simp
  then have "l' = [(ex_key, ex_val 5)]"
    using l'(2) by (auto simp: extends_def replay_def replay_rec_def split: if_splits)
  with l' show "pm_rep ex_map1 [(ex_key, ex_val 5)]" "pm_abs ex_map1 = replay [(ex_key, ex_val 5)]"
    by simp_all
qed

lemma ex_map1_fits: "fits (pm_st ex_map1) k v \<longleftrightarrow> length k + length v < 222"
proof -
  have "store_inv (pm_st ex_map1) [(ex_key, ex_val 5)]" using ex_map1_log(1) by (simp add: pm_rep_def)
  then have "unat (st_length (pm_st ex_map1)) = 22" using store_inv_mapped(4) by (simp add: rec_size_def ex_key_def)
  then show ?thesis using ex_map1(4) by (auto simp: fits_def rec_size_def)
qed

section \<open>Properties\<close>

text \<open>
  C1: \<open>Set\<close> on a well-formed map returns, keeps the map well formed, and is exactly the
  last-writer-wins update of \<open>set_spec\<close> on the live pairs: a short value, a full index and a
  full store are reported and change nothing, an older or equally old value is dropped.
\<close>

theorem pm_Set_refines:
  assumes "pm_inv c" and "small key value"
  shows "\<exists>e c'. pm_Set c (FNV1a64 key) key value = Ret (e, c') \<and> pm_inv c'
    \<and> (e, pm_abs c') = set_spec (can_insert c) (fits (pm_st c) key value) (pm_abs c) key value"
proof -
  obtain l where "pm_rep c l" using assms(1) by (auto simp: pm_inv_def)
  then show ?thesis using step_to_Ret [OF set_step] assms(2) by blast
qed

theorem pm_Set_refines_witness:
  "\<exists>c'. pm_Set ex_map (FNV1a64 ex_key) ex_key (ex_val 5) = Ret (None, c') \<and> pm_inv c'
    \<and> pm_abs c' = [ex_key \<mapsto> ex_val 5]"
  using pm_Set_refines [of ex_map ex_key "ex_val 5"] ex_map_inv ex_map_room ex_map_rep(3)
  by (auto simp: set_spec_def)

text \<open>All the branches of \<open>CAS\<close>, as the code has them.\<close>

lemma pm_CAS_branches:
  assumes "pm_inv c" and "small key value"
  shows "\<exists>e c'. pm_CAS c (FNV1a64 key) key value = Ret (e, c') \<and> pm_inv c'
    \<and> (e, pm_abs c') = cas_spec (can_insert c) (fits (pm_st c) key (cas_new value)) (pm_abs c) key value"
proof -
  obtain l where "pm_rep c l" using assms(1) by (auto simp: pm_inv_def)
  then show ?thesis using step_to_Ret [OF cas_step] small_cas [OF assms(2)] by blast
qed

text \<open>
  Where the code and its comment differ: for a pair that does not exist one of the two tests is enough.
\<close>

lemma cas_absent_half:
  assumes "pm_inv c" and "small key value" and "pm_abs c key = None" and "24 \<le> length value" and "can_insert c"
    and "fits (pm_st c) key (cas_new value)" and "(cas_expected value = 0) \<noteq> (cas_digest value = FNV1a64 [])"
  shows "cas_documented (pm_abs c) key value = Some cas_empty"
    and "\<exists>c'. pm_CAS c (FNV1a64 key) key value = Ret (None, c') \<and> pm_abs c' = (pm_abs c)(key \<mapsto> cas_new value)"
  using assms(3-7) pm_CAS_branches [OF assms(1,2)] by (auto simp: cas_documented_def cas_spec_def cas_check_def)

lemma cas_documented_eq:
  assumes "m key = None \<Longrightarrow> (cas_expected value = 0) = (cas_digest value = FNV1a64 [])"
  shows "cas_check m key value = cas_documented m key value"
  using assms by (auto simp: cas_check_def cas_documented_def split: option.splits)

text \<open>
  C2: \<open>CAS\<close> does what its comment says, for a key that is live, and for one that is not as long as the two
  tests agree: it returns, keeps the map well formed, and writes the new value exactly when the
  argument has its 24 bytes, the index and the store have room, and both documented tests pass, which
  compare the expected stamp and the expected hash with those of the live value, or with 0 and the hash
  of no bytes; otherwise the live pairs stay and the error says which test failed.
\<close>

theorem pm_CAS_refines:
  assumes "pm_inv c" and "small key value"
    and "pm_abs c key = None \<Longrightarrow> (cas_expected value = 0) = (cas_digest value = FNV1a64 [])"
  shows "\<exists>e c'. pm_CAS c (FNV1a64 key) key value = Ret (e, c') \<and> pm_inv c'
    \<and> (e, pm_abs c') =
       (if length value < 24 then (Some cas_short, pm_abs c)
        else if \<not> can_insert c then (Some hm_full, pm_abs c)
        else if cas_documented (pm_abs c) key value \<noteq> None then (cas_documented (pm_abs c) key value, pm_abs c)
        else if \<not> fits (pm_st c) key (cas_new value) then (Some store_full, pm_abs c)
        else (None, (pm_abs c)(key \<mapsto> cas_new value)))"
proof -
  have eq: "cas_check (pm_abs c) key value = cas_documented (pm_abs c) key value" using assms(3) by (rule cas_documented_eq)
  show ?thesis using pm_CAS_branches [OF assms(1,2)] unfolding cas_spec_def eq .
qed

theorem pm_CAS_refines_witness:
  "\<exists>e c'. pm_CAS ex_map1 (FNV1a64 ex_key) ex_key ([5, 0, 0, 0, 0, 0, 0, 0] @ le64 (FNV1a64 [65]) @ ex_val 7) = Ret (None, c')
    \<and> pm_inv c' \<and> pm_abs c' = [ex_key \<mapsto> ex_val 7]
    \<and> pm_CAS ex_map1 (FNV1a64 ex_key) ex_key (replicate 24 0) = Ret (Some cas_time, e)"
proof -
  let ?v = "[5, 0, 0, 0, 0, 0, 0, 0] @ le64 (FNV1a64 [65]) @ ex_val 7"
  have st: "stamp ?v = 5" by (simp add: stamp_def stamp_word_def le_word_def unix_nano_def)
  have st0: "stamp (replicate 24 0) = 0" by (simp add: stamp_def stamp_word_def unix_nano_def numeral_eq_Suc)
  have dg: "cas_digest ?v = FNV1a64 [65]" "cas_new ?v = ex_val 7" by (simp_all add: cas_digest_def cas_new_def)
  have l: "length ?v = 25" "small ex_key ?v" "small ex_key (replicate 24 0)" by simp_all
  have old: "pm_abs ex_map1 ex_key = Some (ex_val 5)" "drop 8 (ex_val 5) = [65]" using ex_map1(2) by (simp_all add: ex_val_def)
  have d: "cas_documented (pm_abs ex_map1) ex_key ?v = None" "cas_documented (pm_abs ex_map1) ex_key (replicate 24 0) = Some cas_time"
    using old st st0 dg ex_stamp(1) by (simp_all add: cas_documented_def cas_expected_def)
  have f: "fits (pm_st ex_map1) ex_key (ex_val 7)" by (simp add: ex_map1_fits ex_key_def)
  from pm_CAS_refines [OF ex_map1(1) l(2)] obtain c' where
    "pm_CAS ex_map1 (FNV1a64 ex_key) ex_key ?v = Ret (None, c')" "pm_inv c'" "pm_abs c' = [ex_key \<mapsto> ex_val 7]"
    using old d(1) dg l(1) f ex_map1_room(1) ex_map1(2) by auto
  moreover from pm_CAS_refines [OF ex_map1(1) l(3)] obtain e where
    "pm_CAS ex_map1 (FNV1a64 ex_key) ex_key (replicate 24 0) = Ret (Some cas_time, e)"
    using old d(2) ex_map1_room(1) by auto
  ultimately show ?thesis by blast
qed

text \<open>
  C3: \<open>Del\<close> with a stamped argument on a well-formed map returns, keeps the map well formed,
  and removes the key unless its live value is newer than the argument.
\<close>

theorem pm_Del_refines:
  assumes "pm_inv c" and "8 \<le> length value" and "small key []"
  shows "\<exists>e c'. pm_Del c (FNV1a64 key) key value = Ret (e, c') \<and> pm_inv c'
    \<and> (e, pm_abs c') = del_spec (fits (pm_st c) key []) (pm_abs c) key value"
proof -
  obtain l where "pm_rep c l" using assms(1) by (auto simp: pm_inv_def)
  then show ?thesis using step_to_Ret [OF del_step] assms(2,3) by blast
qed

theorem pm_Del_refines_witness:
  "\<exists>e c'. pm_Del ex_map1 (FNV1a64 ex_key) ex_key (ex_val 7) = Ret (e, c') \<and> pm_abs c' = Map.empty"
  using pm_Del_refines [of ex_map1 "ex_val 7" ex_key] ex_map1
  by (auto simp: del_spec_def ex_stamp)

text \<open>
  C5: No run of operations gets stuck: from a well-formed map, after any calls of \<open>Set\<close>, \<open>CAS\<close> and \<open>Del\<close> with
  any results, with keys and values of less than \<open>2 ^ 62\<close> bytes and with at least the eight bytes of a stamp in
  the argument of each \<open>Del\<close>, the map is well formed and the next such operation returns without
  panic and without endless probing.
\<close>

theorem runs_return:
  assumes "pm_reach c tr c'" and "pm_inv c" and "op_ok op"
  shows "pm_inv c' \<and> (\<exists>e c''. do_op c' op = Ret (e, c'') \<and> pm_inv c'')"
proof -
  obtain l where "pm_rep c l" using assms(2) by (auto simp: pm_inv_def)
  then obtain l' where "pm_rep c' l'" using reach_rep [OF assms(1)] by meson
  moreover from this have "\<exists>e c''. do_op c' op = Ret (e, c'') \<and> pm_inv c''"
    using op_step [OF _ assms(3), of c' l'] step_to_Ret by metis
  ultimately show ?thesis by (auto simp: pm_inv_def)
qed

theorem runs_return_witness:
  "\<exists>e c'. do_op ex_map (MDel ex_key (ex_val 5)) = Ret (e, c') \<and> pm_inv c'"
  using runs_return [OF pm_reach.start ex_map_inv, of "MDel ex_key (ex_val 5)"] by simp

text \<open>
  C6: The checksum is a function of the live pairs: after any run of operations none of
  which found the store full, the running sum is the sum over the live pairs of the hash of
  the key xor the stamp, as it was before.
\<close>

theorem checksum_of_pairs:
  assumes "pm_reach c tr c'" and "pm_inv c" and "newChecksum (pm_checksum c) = pair_sum (pm_pairs c)"
    and "no_full tr"
  shows "newChecksum (pm_checksum c') = pair_sum (pm_pairs c')"
proof -
  obtain l where "pm_rep c l" using assms(2) by (auto simp: pm_inv_def)
  then have "sum_defect c' = sum_defect c" using reach_rep [OF assms(1)] assms(4) by blast
  then show ?thesis using assms(3) by (simp add: sum_defect_def)
qed

theorem checksum_of_pairs_witness:
  "newChecksum (pm_checksum ex_map1) = pair_sum (pm_pairs ex_map1)"
proof -
  obtain c' where c': "pm_Set ex_map (FNV1a64 ex_key) ex_key (ex_val 5) = Ret (None, c')"
    using set_step [OF ex_map_rep(1), of ex_key "ex_val 5"] ex_map_room ex_map_rep(3)
    by (auto simp: set_spec_def step_to_def)
  have "pm_reach ex_map ([] @ [(MSet ex_key (ex_val 5), None)]) c'"
    by (rule pm_reach.step [OF pm_reach.start]) (simp_all add: c')
  moreover have "ex_map1 = c'" using c' by (simp add: ex_map1_def pm_put_def)
  ultimately show ?thesis
    using checksum_of_pairs [of ex_map _ ex_map1] ex_map_inv ex_map_rep(4)
    by (auto simp: no_full_def sum_defect_def)
qed

text \<open>
  \<open>CAS\<close> on a live key in a full store reports the error and changes no pair, but it has
  already taken the old pair out of the checksum: afterwards the running sum lacks that
  pair's summand.
\<close>

lemma cas_full_loses_summand:
  assumes "pm_inv c" and "newChecksum (pm_checksum c) = pair_sum (pm_pairs c)"
    and "pm_abs c key = Some old" and "small key value"
    and "pm_CAS c (FNV1a64 key) key value = Ret (Some store_full, c')"
  shows "pm_abs c' = pm_abs c
    \<and> newChecksum (pm_checksum c') = pair_sum (pm_pairs c') - (FNV1a64 key XOR stamp_word old)"
proof -
  obtain l where "pm_rep c l" using assms(1) by (auto simp: pm_inv_def)
  from cas_step [OF this small_cas [OF assms(4)]]
  have "sum_defect c' = sum_defect c - (FNV1a64 key XOR stamp_word old)" "pm_abs c' = pm_abs c"
    using assms(3,5) by (auto simp: cas_loss_def cas_spec_def step_to_def split: if_splits)
  then show ?thesis using assms(2) by (simp add: sum_defect_def diff_eq_eq add.commute)
qed

text \<open>
  C9: The index of a new map has room for millions of keys: no operation among the first
  46976204 on a map made by \<open>New\<close> reports that the hash map has reached its size limit.
\<close>

theorem index_capacity:
  assumes "pm_New os d path sz = Ret (c, d')" and "unat sz \<le> 2 ^ 32"
    and "pm_reach c (tr @ [(op, e)]) c'" and "length tr < 46976204"
  shows "e \<noteq> Some hm_full"
proof
  assume e: "e = Some hm_full"
  note new = New_rep [OF assms(1,2)]
  from assms(3) obtain c1 where c1: "pm_reach c tr c1" "op_ok op" "do_op c1 op = Ret (e, c')"
    by (cases rule: pm_reach.cases) auto
  obtain l where l: "pm_rep c1 l" "sizeLimit (pm_hm c1) = sizeLimit (pm_hm c)"
    "used (pm_hm c1) \<le> used (pm_hm c) + length tr"
    using reach_rep [OF c1(1) new(1)] by (auto simp: grown_def)
  then have "unat (sizeLimit (pm_hm c1)) = 2 ^ 26" "used (pm_hm c1) < 46976204"
    using new(4,5) assms(4) by simp_all
  moreover have "unat (load_limit (2 ^ 26)) = 46976204" by (simp add: load_limit_def)
  ultimately have "can_insert c1" using can_insert_used [OF l(1), of 26] by simp
  with full_error [OF l(1) c1(2)] c1(3) e show False by blast
qed

theorem index_capacity_witness:
  "\<exists>c d' e c'. pm_New os_fine Map.empty ''c'' 256 = Ret (c, d')
    \<and> pm_reach c ([] @ [(MSet ex_key (ex_val 5), e)]) c' \<and> e \<noteq> Some hm_full"
proof -
  obtain c d' where c: "pm_New os_fine Map.empty ''c'' 256 = Ret (c, d')"
    by (simp add: pm_New_def newStore_def os_fine_def Let_def)
  have sz: "unat (256 :: u64) \<le> 2 ^ 32" by simp
  obtain e c' where "do_op c (MSet ex_key (ex_val 5)) = Ret (e, c')"
    using step_to_Ret [OF set_step [OF New_rep(1) [OF c sz], of ex_key "ex_val 5"]] by auto
  then have "pm_reach c ([] @ [(MSet ex_key (ex_val 5), e)]) c'"
    by (intro pm_reach.step [OF pm_reach.start]) simp_all
  with index_capacity [OF c sz this] c show ?thesis by auto
qed

text \<open>
  C4: Replicas converge: two well-formed maps with the same live pairs that receive the same
  successful writes, each in its own order and with any repetitions, have the same live
  pairs afterwards, provided no two different values of a key carry the same stamp.
\<close>

theorem replicas_converge:
  assumes "pm_inv a" and "pm_inv b" and "pm_abs a = pm_abs b"
    and "puts pm_put a ws = Some a'" and "puts pm_put b ws' = Some b'"
    and "set ws = set ws'" and "no_ties stamp (set ws)"
  shows "pm_abs a' = pm_abs b'"
  using assms by (rule rep.convergence)

theorem replicas_converge_witness:
  "\<exists>a' b'. puts pm_put ex_map [(ex_key, ex_val 5)] = Some a'
    \<and> puts pm_put ex_map [(ex_key, ex_val 5), (ex_key, ex_val 5)] = Some b' \<and> pm_abs a' = pm_abs b'"
proof -
  obtain a' where a': "pm_put ex_map ex_key (ex_val 5) = Some a'" "a' = ex_map1"
    using put_ok_map [OF ex_map_rep(1), of ex_key "ex_val 5"] ex_map_room(1,2) ex_map_rep(3)
    by (auto simp: ex_map1_def)
  obtain l where "pm_rep a' l" using ex_map1(1) a'(2) by (auto simp: pm_inv_def)
  then obtain b' where "pm_put a' ex_key (ex_val 5) = Some b'"
    using set_step [of a' l ex_key "ex_val 5"] ex_map1(2) ex_map1_room(1) a'(2)
    by (auto simp: pm_put_def step_to_def set_spec_def)
  then have "puts pm_put ex_map [(ex_key, ex_val 5)] = Some a'"
    "puts pm_put ex_map [(ex_key, ex_val 5), (ex_key, ex_val 5)] = Some b'"
    using a' by simp_all
  with replicas_converge [OF ex_map_inv ex_map_inv refl this] show ?thesis
    by (simp add: no_ties_def)
qed

text \<open>
  C8: \<open>Get\<close> returns the live value, and \<open>nil\<close> for a key that is not live, for every key whose
  low 32 hash bits are at least 2.
\<close>

theorem pm_Get_live:
  assumes "pm_inv c" and "readable key"
  shows "pm_Get c (ucast (FNV1a64 key)) key = Ret (pm_abs c key)"
  using assms get_readable by (auto simp: pm_inv_def)

theorem pm_Get_live_witness:
  "pm_Get ex_map1 (ucast (FNV1a64 ex_key)) ex_key = Ret (Some (ex_val 5))"
  using pm_Get_live [OF ex_map1(1) ex_key_readable] ex_map1(2) by simp

text \<open>
  C35: Some keys can be written but never read: the writes remap the hash values that mark
  empty and deleted buckets, \<open>Get\<close> is called without that remapping. No live key whose low 32
  hash bits are zero is found, whatever its value; there are such keys, and they can be written.
\<close>

theorem zero_hash_unreadable:
  assumes "pm_inv c" and "pm_abs c key = Some v" and "(ucast (FNV1a64 key) :: u32) = 0"
  shows "pm_Get c (ucast (FNV1a64 key)) key = Ret None"
  using assms(1,3) get_zero by (auto simp: pm_inv_def)

theorem zero_hash_unreadable_witness:
  "\<exists>c. pm_put ex_map zero_key (ex_val 5) = Some c \<and> pm_abs c zero_key = Some (ex_val 5)
    \<and> pm_Get c (ucast (FNV1a64 zero_key)) zero_key = Ret None"
proof -
  have "small zero_key (ex_val 5)" by (simp add: small_def zero_key_def)
  then obtain c l where c: "pm_put ex_map zero_key (ex_val 5) = Some c" "pm_rep c l"
    "pm_abs c zero_key = Some (ex_val 5)"
    using put_ok_map [OF ex_map_rep(1), of zero_key "ex_val 5"] ex_map_room(1,3) ex_map_rep(3) by auto
  then show ?thesis using zero_hash_unreadable [of c zero_key "ex_val 5"] zero_key_hash by (auto simp: pm_inv_def)
qed

text \<open>
  \<open>Del\<close> of a live key with an argument shorter than a stamp panics: the bound is not
  checked before the slice expression.
\<close>

lemma short_Del_panics:
  assumes "pm_inv c" and "pm_abs c key = Some old" and "length value < 8"
  shows "pm_Del c (FNV1a64 key) key value = Panic OutOfRange"
  using assms del_short by (auto simp: pm_inv_def)

end
