(* ===== verification/PMap_Iter.thy ===== *)
theory PMap_Iter
  imports PMap_Props
begin

text \<open>
  Iteration over a persistent map (\<open>Iterate\<close>, \<open>BackwardsIterate\<close> and \<open>isPresent\<close> of
  src/core/pmap/pmap.go). The iterators walk the records of the store and decide by the
  8 bytes at the value whether a record is the live one of its key.
\<close>

section \<open>Specification\<close>

text \<open>The last record of each key, unless it removes the key.\<close>

fun survivors :: "logrec list \<Rightarrow> logrec list" where
  "survivors [] = []"
| "survivors ((k, v) # l) = (if v \<noteq> [] \<and> k \<notin> fst ` set l then [(k, v)] else []) @ survivors l"

text \<open>Calling the callback on each pair until it says to stop.\<close>

fun run_each :: "(bytes \<Rightarrow> bytes \<Rightarrow> 's \<Rightarrow> (bool \<times> 's) go) \<Rightarrow> logrec list \<Rightarrow> 's \<Rightarrow> 's go" where
  "run_each foreach [] s = Ret s"
| "run_each foreach ((k, v) # ps) s =
     bindG (foreach k v s) (\<lambda>(ok, s'). if ok then run_each foreach ps s' else Ret s')"

text \<open>
  What the iterators see of a record: its key, and the 8 bytes at its value, which for a
  record without value are bytes of the records behind it; \<open>z\<close> is the number of unused
  bytes of the store.
\<close>

definition peek :: "nat \<Rightarrow> bytes \<Rightarrow> bytes \<Rightarrow> logrec list \<Rightarrow> bytes" where
  "peek z k v l = take 8 (v @ le32 (of_nat (length k + length v)) @ log_bytes l @ replicate z 0)"

fun peeks :: "nat \<Rightarrow> logrec list \<Rightarrow> (bytes \<times> bytes) list" where
  "peeks z [] = []"
| "peeks z ((k, v) # l) = (k, peek z k v l) # peeks z l"

text \<open>
  The log of a map that can be iterated: it describes the live pairs, its keys can be read
  back, and no two records of a key show the same stamp.
\<close>

definition iterable :: "pmap \<Rightarrow> logrec list \<Rightarrow> bool" where
  "iterable c l \<longleftrightarrow> pm_rep c l \<and> pm_abs c = replay l \<and> (\<forall>(k, v)\<in>set l. readable k)
     \<and> distinct (peeks (unat (st_size (pm_st c)) - log_size l) l)"

section \<open>Lemmas\<close>

lemma replay_rec_simp: "replay_rec (k, v) m = (if v = [] then m(k := None) else m(k \<mapsto> v))"
  by (simp add: replay_rec_def)

lemma replay_absent: "k \<notin> fst ` set l \<Longrightarrow> fold replay_rec l m k = m k"
  by (induction l arbitrary: m) (auto simp: replay_rec_simp)

lemma replay_last:
  assumes "k \<in> fst ` set l"
  obtains a v b where "l = a @ (k, v) # b" and "k \<notin> fst ` set b"
    and "\<And>m. fold replay_rec l m k = (if v = [] then None else Some v)"
proof -
  have "\<exists>x\<in>set l. fst x = k" using assms by auto
  then obtain a x b where x: "l = a @ x # b" "fst x = k" "\<forall>y\<in>set b. fst y \<noteq> k"
    by (rule split_list_last_propE) auto
  obtain v where v: "x = (k, v)" using x(2) by (cases x) auto
  have nb: "k \<notin> fst ` set b" using x(3) by auto
  show thesis
    by (rule that [of a v b]) (use x v nb replay_absent [OF nb] in \<open>auto simp: replay_rec_simp\<close>)
qed

lemma replay_here:
  "k \<notin> fst ` set b \<Longrightarrow> replay (a @ (k, v) # b) k = (if v = [] then None else Some v)"
  by (simp add: replay_def replay_absent) (simp add: replay_rec_simp)

lemma survivors_keys: "fst ` set (survivors l) \<subseteq> fst ` set l"
  by (induction l rule: survivors.induct) auto

lemma survivors_distinct: "distinct (map fst (survivors l))"
proof (induction l rule: survivors.induct)
  case (2 k v l)
  then show ?case using survivors_keys [of l] by auto
qed simp

lemma survivors_map: "map_of (survivors l) k = fold replay_rec l Map.empty k"
proof (induction l rule: survivors.induct)
  case (2 k' v l)
  show ?case
  proof (cases "k \<in> fst ` set l")
    case True
    then obtain a v' b where "l = a @ (k, v') # b"
      "\<And>m. fold replay_rec l m k = (if v' = [] then None else Some v')"
      by (rule replay_last) blast
    with 2 True show ?thesis by (auto simp: replay_rec_simp)
  next
    case False
    then have "map_of (survivors l) k = None"
      using survivors_keys [of l] by (auto simp: map_of_eq_None_iff)
    then show ?thesis using False by (auto simp: replay_absent replay_rec_simp)
  qed
qed simp

lemma survivors_pairs:
  assumes "pm_rep c l" and "pm_abs c = replay l"
  shows "mset (survivors l) = mset (pm_pairs c)"
proof -
  have "map_of (survivors l) = map_of (pm_pairs c)"
    using assms(2) by (auto simp: fun_eq_iff pm_abs_def survivors_map replay_def)
  then have "set (survivors l) = set (pm_pairs c)"
    using map_of_inject_set [OF survivors_distinct pairs_distinct [OF assms(1)]] by blast
  moreover have "distinct (survivors l)" "distinct (pm_pairs c)"
    using survivors_distinct pairs_distinct [OF assms(1)] by (simp_all add: distinct_map)
  ultimately show ?thesis by (simp add: set_eq_iff_mset_eq_distinct)
qed

lemma peeks_mem: "(k, peek z k v b) \<in> set (peeks z (a @ (k, v) # b))"
  by (induction a) auto

lemma peeks_suffix: "distinct (peeks z (a @ b)) \<Longrightarrow> distinct (peeks z b)"
  by (induction a) auto

lemma peek_long: "8 \<le> length v \<Longrightarrow> peek z k v b = take 8 v"
  by (simp add: peek_def)

lemma val_at:
  assumes "store_inv st (a @ (k, v) # b)" and i: "unat i = log_size a"
  shows "st_val st i = Ret \<lparr>sarr = v @ le32 (of_nat (length k + length v)) @ log_bytes b
      @ replicate (unat (st_size st) - log_size (a @ (k, v) # b)) 0, slen = length v\<rparr>"
proof -
  note s = store_inv_mapped [OF assms(1)]
  let ?x = "le32 (of_nat (length k + length v)) @ log_bytes b
    @ replicate (unat (st_size st) - log_size (a @ (k, v) # b)) 0"
  have "mapped st = log_bytes a @ le32 (of_nat (length k)) @ le32 (of_nat (length v)) @ (k @ v @ ?x)"
    by (simp add: s(1) enc_rec_def)
  then have h: "header_at st i (log_bytes a) (length k) (length v) (k @ v @ ?x)"
    using i s by (simp add: header_at_def)
  show ?thesis using header_reads(5) [OF h] by simp
qed

lemma isPresent_iff:
  assumes it: "iterable c (a @ (k, v) # b)" and i: "unat i = log_size a"
  shows "isPresent c i = Ret (v \<noteq> [] \<and> k \<notin> fst ` set b)"
proof -
  let ?l = "a @ (k, v) # b"
  let ?z = "unat (st_size (pm_st c)) - log_size ?l"
  have r: "pm_rep c ?l" and abs: "pm_abs c = replay ?l" and rd: "readable k"
    and d: "distinct (peeks ?z ?l)"
    using it by (auto simp: iterable_def)
  have st: "store_inv (pm_st c) ?l" using r by (simp add: pm_rep_def)
  have at: "rec_at ?l (unat i) = Some (k, v)" by (simp add: i rec_at_here)
  obtain ks where ks: "st_key (pm_st c) i = Ret ks" "content ks = k"
    using store_reads(3) [OF st at] by blast
  note get = get_readable [OF r rd]
  note va = val_at [OF st i]
  have pres: "isPresent c i = (case pm_abs c k of None \<Rightarrow> Ret False
     | Some w \<Rightarrow> if 8 \<le> length v + (4 + (log_size b + ?z)) then Ret (take 8 w = peek ?z k v b)
                 else Panic OutOfRange)"
    using pm_abs_stamped [OF r]
    by (simp add: isPresent_def ks get va reslice_def slice_of_def peek_def split: option.splits)
  show ?thesis
  proof (cases "k \<in> fst ` set b")
    case False
    then have "pm_abs c k = (if v = [] then None else Some v)" by (simp add: abs replay_here)
    then show ?thesis
      using False pm_abs_stamped [OF r, of k v] by (auto simp: pres peek_long split: if_splits)
  next
    case True
    then obtain a' w b' where w: "b = a' @ (k, w) # b'" "k \<notin> fst ` set b'"
      "\<And>m. fold replay_rec b m k = (if w = [] then None else Some w)"
      by (rule replay_last) blast
    have "pm_abs c k = (if w = [] then None else Some w)" by (simp add: abs replay_def w(3))
    moreover have "take 8 w \<noteq> peek ?z k v b" if "8 \<le> length w"
    proof -
      have "distinct (peeks ?z ((k, v) # b))" using d by (rule peeks_suffix)
      then have "(k, peek ?z k v b) \<notin> set (peeks ?z b)" by simp
      moreover have "(k, peek ?z k w b') \<in> set (peeks ?z b)"
        unfolding w(1) by (rule peeks_mem)
      ultimately show ?thesis using peek_long [OF that, of ?z k b'] by metis
    qed
    moreover have "8 \<le> length v + (4 + (log_size b + ?z))"
      using log_size_ge [of b] w(1) by simp
    ultimately show ?thesis
      using True pm_abs_stamped [OF r, of k w] by (auto simp: pres split: if_splits)
  qed
qed

section \<open>Lemmas: the loops\<close>

lemma length_log_size: "length l \<le> log_size l"
  by (induction l) (auto simp: rec_size_def)

lemma iterable_reads:
  assumes it: "iterable c (a @ (k, v) # b)" and i: "unat i = log_size a"
  obtains ks vs where "st_key (pm_st c) i = Ret ks" "content ks = k" "st_val (pm_st c) i = Ret vs"
    "content vs = v" "totalLen (pm_st c) i = Ret (of_nat (length k + length v))"
proof -
  have st: "store_inv (pm_st c) (a @ (k, v) # b)" using it by (simp add: iterable_def pm_rep_def)
  have "rec_at (a @ (k, v) # b) (unat i) = Some (k, v)" by (simp add: i rec_at_here)
  then show thesis using store_reads [OF st] that by metis
qed

lemma next_index:
  assumes it: "iterable c (a @ (k, v) # b)" and i: "unat i = log_size a"
  shows "unat (i + (12 + ucast (of_nat (length k + length v) :: u32))) = log_size (a @ [(k, v)])"
    and "i < st_length (pm_st c)"
proof -
  have st: "store_inv (pm_st c) (a @ (k, v) # b)" using it by (simp add: iterable_def pm_rep_def)
  note s = store_inv_mapped [OF st]
  have b: "log_size a + (12 + (length k + length v)) \<le> 4294967296"
    using s by (simp add: rec_size_def)
  have "12 + ucast (of_nat (length k + length v) :: u32) = (of_nat (12 + (length k + length v)) :: u64)"
    using b by (simp add: ucast_of_nat_u32_u64 del: of_nat_add) simp
  then show "unat (i + (12 + ucast (of_nat (length k + length v) :: u32))) = log_size (a @ [(k, v)])"
    using unat_add3_u64 [of i "12 + (length k + length v)"] i b
    by (simp add: rec_size_def del: of_nat_add)
  show "i < st_length (pm_st c)" using s(4) i by (simp add: word_less_nat_alt)
qed

lemma iterate_loop_run:
  assumes "iterable c (a @ b)" and "unat i = log_size a" and "length b < n"
  shows "iterate_loop n c f i s = run_each f (survivors b) s"
  using assms
proof (induction b arbitrary: a i n s)
  case Nil
  then have "st_length (pm_st c) = i"
    by (intro word_unat_eq_iff [THEN iffD2]) (simp add: iterable_def pm_rep_def store_inv_def)
  with Nil show ?case by (cases n) auto
next
  case (Cons r b)
  obtain k v where r: "r = (k, v)" by fastforce
  obtain m where n: "n = Suc m" using Cons.prems(3) by (cases n) auto
  have it: "iterable c (a @ (k, v) # b)" using Cons.prems(1) r by simp
  obtain ks vs where rd: "st_key (pm_st c) i = Ret ks" "content ks = k" "st_val (pm_st c) i = Ret vs"
    "content vs = v" "totalLen (pm_st c) i = Ret (of_nat (length k + length v))"
    using it Cons.prems(2) by (rule iterable_reads)
  let ?i = "i + (12 + ucast (of_nat (length k + length v) :: u32)) :: u64"
  note nx = next_index [OF it Cons.prems(2)]
  have IH: "iterate_loop m c f ?i t = run_each f (survivors b) t" for t
    using Cons.IH [of "a @ [(k, v)]" ?i m t] it nx(1) Cons.prems(3) n by simp
  show ?case
    using isPresent_iff [OF it Cons.prems(2)] nx(2)
    by (simp add: n rd IH r bindG_assoc del: of_nat_add cong: if_cong)
qed

text \<open>The survivors among the records \<open>a\<close> when the records \<open>b\<close> are newer.\<close>

fun surv_before :: "logrec list \<Rightarrow> logrec list \<Rightarrow> logrec list" where
  "surv_before [] b = []"
| "surv_before ((k, v) # a) b =
     (if v \<noteq> [] \<and> k \<notin> fst ` set (a @ b) then [(k, v)] else []) @ surv_before a b"

lemma surv_before_Nil: "surv_before l [] = survivors l"
  by (induction l rule: survivors.induct) auto

lemma surv_before_snoc:
  "surv_before (a @ [(k, v)]) b
    = surv_before a ((k, v) # b) @ (if v \<noteq> [] \<and> k \<notin> fst ` set b then [(k, v)] else [])"
  by (induction a b rule: surv_before.induct) simp_all

lemma backwards_loop_run:
  assumes "iterable c (a @ (k, v) # b)" and "unat i = log_size a" and "length a < n"
  shows "backwards_loop n c f i s = run_each f (rev (surv_before (a @ [(k, v)]) b)) s"
  using assms
proof (induction a arbitrary: k v b i n s rule: rev_induct)
  case Nil
  then obtain m where n: "n = Suc m" by (cases n) auto
  obtain ks vs where rd: "st_key (pm_st c) i = Ret ks" "content ks = k" "st_val (pm_st c) i = Ret vs"
    "content vs = v"
    using Nil(1,2) by (rule iterable_reads)
  have "st_prev (pm_st c) i = Ret (- 1)" using Nil(2) by (simp add: prev_start)
  then show ?case
    using isPresent_iff [OF Nil(1,2)] by (simp add: n rd bindG_assoc cong: if_cong)
next
  case (snoc r a)
  obtain k' v' where r: "r = (k', v')" by fastforce
  obtain m where n: "n = Suc m" using snoc.prems(3) by (cases n) auto
  obtain ks vs where rd: "st_key (pm_st c) i = Ret ks" "content ks = k" "st_val (pm_st c) i = Ret vs"
    "content vs = v"
    using snoc.prems(1,2) by (rule iterable_reads)
  have it: "iterable c (a @ (k', v') # (k, v) # b)" using snoc.prems(1) r by simp
  then have st: "store_inv (pm_st c) (a @ (k', v') # (k, v) # b)" by (simp add: iterable_def pm_rep_def)
  have pv: "st_prev (pm_st c) i = Ret (int (log_size a))"
    using prev_record [OF st] snoc.prems(2) r by simp
  have "unat (of_nat (log_size a) :: u64) = log_size a"
    using store_inv_mapped(3,5) [OF st] by (intro unat_of_nat_small) simp
  then have IH: "backwards_loop m c f (of_nat (log_size a)) t
      = run_each f (rev (surv_before (a @ [(k', v')]) ((k, v) # b))) t" for t
    using snoc.IH [OF it, of "of_nat (log_size a)" m t] snoc.prems(3) n by simp
  show ?case
    using isPresent_iff [OF snoc.prems(1,2)]
    by (simp add: n rd pv IH r surv_before_snoc [of "a @ [(k', v')]", simplified] bindG_assoc
        cong: if_cong)
qed

text \<open>Both iterators visit the survivors, in opposite orders.\<close>

lemma Iterate_run:
  assumes "iterable c l"
  shows "pm_Iterate c f s = run_each f (survivors l) s"
proof -
  have "store_inv (pm_st c) l" using assms by (simp add: iterable_def pm_rep_def)
  then have len: "unat (st_length (pm_st c)) = log_size l" by (rule store_inv_mapped)
  show ?thesis
    unfolding pm_Iterate_def
    by (rule iterate_loop_run [of c "[]"]) (use assms len length_log_size [of l] in simp_all)
qed

lemma Backwards_run:
  assumes "iterable c l"
  shows "pm_BackwardsIterate c f s = run_each f (rev (survivors l)) s"
proof -
  have st: "store_inv (pm_st c) l" using assms by (simp add: iterable_def pm_rep_def)
  have len: "unat (st_length (pm_st c)) = log_size l" using st by (rule store_inv_mapped)
  show ?thesis
  proof (cases l rule: rev_cases)
    case Nil
    then have "st_length (pm_st c) = 0" using len by (simp add: unat_eq_zero)
    then show ?thesis using Nil by (simp add: pm_BackwardsIterate_def)
  next
    case (snoc a r)
    obtain k v where kv: "r = (k, v)" by fastforce
    have nz: "\<not> st_length (pm_st c) \<le> 0" using len snoc by (auto simp: word_le_nat_alt)
    have pv: "st_prev (pm_st c) (st_length (pm_st c)) = Ret (int (log_size a))"
      using prev_record [of "pm_st c" a r "[]"] st snoc len by simp
    have "unat (of_nat (log_size a) :: u64) = log_size a"
      using store_inv_mapped(3,5) [OF st] snoc by (intro unat_of_nat_small) simp
    then have "backwards_loop (Suc (unat (st_length (pm_st c)))) c f (of_nat (log_size a)) s
        = run_each f (rev (surv_before (a @ [(k, v)]) [])) s"
      using assms snoc kv len length_log_size [of a] by (intro backwards_loop_run) simp_all
    then show ?thesis
      using nz by (simp add: pm_BackwardsIterate_def pv snoc kv surv_before_Nil del: backwards_loop.simps)
  qed
qed

section \<open>Properties\<close>

text \<open>
  C10: Iteration is faithful on a map that is \<open>iterable\<close>: its records describe its live pairs, the low hash
  bits of its keys are neither 0 nor 1 (records of other keys are passed over), and no two records of
  a key show the same first eight bytes (after \<open>Set\<close>, \<open>Del\<close> and \<open>Set\<close> with one stamp a pair is visited twice). There
  both iterators return, and call the callback exactly once for every live pair until it asks to stop: \<open>Iterate\<close> in
  the order of the records, which is that of the last writes of the pairs, and \<open>BackwardsIterate\<close> in the reverse order.
\<close>

theorem iteration_visits_live_pairs:
  assumes "iterable c l"
  shows "mset (survivors l) = mset (pm_pairs c) \<and>
    (\<forall>f (s :: 's). pm_Iterate c f s = run_each f (survivors l) s \<and> pm_BackwardsIterate c f s = run_each f (rev (survivors l)) s)"
proof (intro conjI allI)
  have r: "pm_rep c l" "pm_abs c = replay l" using assms by (simp_all add: iterable_def)
  show "mset (survivors l) = mset (pm_pairs c)" using r by (rule survivors_pairs)
  fix f and s :: 's
  show "pm_Iterate c f s = run_each f (survivors l) s" using assms by (rule Iterate_run)
  show "pm_BackwardsIterate c f s = run_each f (rev (survivors l)) s" using assms by (rule Backwards_run)
qed

definition collect :: "bytes \<Rightarrow> bytes \<Rightarrow> logrec list \<Rightarrow> (bool \<times> logrec list) go" where
  "collect k v ps = Ret (True, ps @ [(k, v)])"

text \<open>A map of three records, one of which is overwritten by another.\<close>

lemma put_log:
  assumes r: "pm_rep c l" "pm_abs c = replay l" and v: "small k v" "8 \<le> length v" "can_insert c" "fits (pm_st c) k v"
    and newer: "\<And>w. pm_abs c k = Some w \<Longrightarrow> stamp w < stamp v"
  obtains c' where "pm_put c k v = Some c'" and "pm_rep c' (l @ [(k, v)])" and "pm_abs c' = replay (l @ [(k, v)])" and "same_limits c c'"
proof -
  have "set_spec True True (pm_abs c) k v = (None, (pm_abs c)(k \<mapsto> v))"
    using v newer by (auto simp: set_spec_def not_le split: option.splits dest: newer)
  then obtain c' l' where c': "pm_Set c (FNV1a64 k) k v = Ret (None, c')" "pm_rep c' l'" "same_limits c c'"
    "extends l' l k (pm_abs c)" "pm_abs c' = replay l'" "pm_abs c' = (pm_abs c)(k \<mapsto> v)"
    using set_step [OF r(1) v(1)] v(3,4) r(2) by (auto simp: step_to_def)
  have "pm_abs c k \<noteq> Some v" using newer by blast
  then have "l' \<noteq> l" using c'(5,6) r(2) by (metis fun_upd_same)
  then obtain w where w: "l' = l @ [(k, w)]" using c'(4) by (auto simp: extends_def)
  then have "w = v" using c'(5,6) v(2) by (auto simp: replay_def replay_rec_simp fun_eq_iff split: if_splits dest: spec [of _ k])
  then show thesis using c' w v(1) by (intro that [of c']) (simp_all add: pm_put_def)
qed

definition ex_key2 :: bytes where "ex_key2 = [108]"

definition ex_log3 :: "logrec list" where
  "ex_log3 = [(ex_key, ex_val 5), (ex_key2, ex_val 5), (ex_key, ex_val 7)]"

lemma ex_map3: "\<exists>c. iterable c ex_log3"
proof -
  have sm: "small ex_key2 (ex_val 5)" "small ex_key (ex_val 7)" by (simp_all add: small_def ex_key_def ex_key2_def)
  have ne: "ex_key2 \<noteq> ex_key" "ex_val 5 \<noteq> ex_val 7" "take 8 (ex_val 5) \<noteq> take 8 (ex_val 7)"
    by (simp_all add: ex_key_def ex_key2_def ex_val_def)
  have f: "fits (pm_st ex_map1) ex_key2 (ex_val 5)" by (simp add: ex_map1_fits ex_key2_def)
  have "pm_abs ex_map1 ex_key2 = None" using ex_map1(2) ne(1) by simp
  then have n: "pm_abs ex_map1 ex_key2 = Some w \<Longrightarrow> stamp w < stamp (ex_val 5)" for w by simp
  have len: "8 \<le> length (ex_val t)" for t by simp
  obtain c where c: "pm_rep c ([(ex_key, ex_val 5)] @ [(ex_key2, ex_val 5)])"
    "pm_abs c = replay ([(ex_key, ex_val 5)] @ [(ex_key2, ex_val 5)])" "same_limits ex_map1 c"
    using ex_map1_log sm(1) len ex_map1_room(1) f n by (rule put_log)
  have "unat (load_limit (2 ^ 6)) = 44" by (simp add: load_limit_def)
  then have room: "can_insert c" using can_insert_used [OF c(1), of 6] c(3) ex_map1_limits by (simp add: same_limits_def)
  have "store_inv (pm_st c) ([(ex_key, ex_val 5)] @ [(ex_key2, ex_val 5)])" using c(1) by (simp add: pm_rep_def)
  then have f2: "fits (pm_st c) ex_key (ex_val 7)"
    using store_inv_mapped(4) c(3) ex_map1(4) by (simp add: fits_def rec_size_def ex_key_def ex_key2_def same_limits_def)
  have "pm_abs c ex_key = Some (ex_val 5)" using c(2) ne(1) by (simp add: replay_def replay_rec_simp ex_val_def)
  then have n2: "pm_abs c ex_key = Some w \<Longrightarrow> stamp w < stamp (ex_val 7)" for w using ex_stamp by simp
  obtain c' where c': "pm_rep c' (([(ex_key, ex_val 5)] @ [(ex_key2, ex_val 5)]) @ [(ex_key, ex_val 7)])"
    "pm_abs c' = replay (([(ex_key, ex_val 5)] @ [(ex_key2, ex_val 5)]) @ [(ex_key, ex_val 7)])"
    using c(1,2) sm(2) len room f2 n2 by (rule put_log)
  have "readable ex_key2" unfolding readable_def ex_key2_def by code_simp
  then have "iterable c' ex_log3"
    using c' ex_key_readable ne by (auto simp: iterable_def ex_log3_def peek_long)
  then show ?thesis by blast
qed

theorem iteration_visits_live_pairs_witness:
  "\<exists>c. iterable c ex_log3 \<and> pm_Iterate c collect [] = Ret [(ex_key2, ex_val 5), (ex_key, ex_val 7)]
     \<and> pm_BackwardsIterate c collect [] = Ret [(ex_key, ex_val 7), (ex_key2, ex_val 5)]"
proof -
  obtain c where c: "iterable c ex_log3" using ex_map3 by blast
  have "survivors ex_log3 = [(ex_key2, ex_val 5), (ex_key, ex_val 7)]"
    by (simp add: ex_log3_def ex_key_def ex_key2_def ex_val_def)
  then show ?thesis using c iteration_visits_live_pairs [OF c, where ?'s = "logrec list"] by (auto simp: collect_def)
qed

end
