(* ===== verification/PMap_Reopen.thy ===== *)
theory PMap_Reopen
  imports PMap_Iter
begin

text \<open>
  Reopening a persistent map (\<open>Open\<close> and \<open>restorePair\<close> of src/core/pmap/pmap.go): the scan of
  the store rebuilds the index, and comes to the live pairs the records describe.
\<close>

section \<open>Specification\<close>

text \<open>
  The same map seen with all the records of the store: during the scan \<open>length\<close> is behind,
  but nothing reads it.
\<close>

definition at_length :: "u64 \<Rightarrow> pmap \<Rightarrow> pmap" where
  "at_length n c = c\<lparr>pm_st := (pm_st c)\<lparr>st_length := n\<rparr>\<rparr>"

text \<open>
  What the scan needs of a log: every record was a legitimate operation, no key is empty
  (the scan takes an empty key for the end), and 4 bytes are left behind the last record.
\<close>

definition reopenable :: "nat \<Rightarrow> logrec list \<Rightarrow> bool" where
  "reopenable sz l \<longleftrightarrow> regular l \<and> (\<forall>(k, v)\<in>set l. k \<noteq> []) \<and> log_size l + 4 \<le> sz"

section \<open>Lemmas: the length is not read\<close>

lemma at_length_frame [simp]:
  "pm_hm (at_length n c) = pm_hm c" "pm_checksum (at_length n c) = pm_checksum c"
  "pm_path (at_length n c) = pm_path c" "pm_st (at_length n c) = (pm_st c)\<lparr>st_length := n\<rparr>"
  "at_length n (at_length m c) = at_length n c"
  by (simp_all add: at_length_def)

lemma at_length_upd [simp]:
  "at_length n (c\<lparr>pm_hm := hm\<rparr>) = (at_length n c)\<lparr>pm_hm := hm\<rparr>"
  "at_length n (c\<lparr>pm_checksum := cs\<rparr>) = (at_length n c)\<lparr>pm_checksum := cs\<rparr>"
  "at_length n (c\<lparr>pm_st := st\<rparr>) = c\<lparr>pm_st := st\<lparr>st_length := n\<rparr>\<rparr>"
  "(at_length n c)\<lparr>pm_st := st\<rparr> = c\<lparr>pm_st := st\<rparr>"
  by (simp_all add: at_length_def)

lemma reads_frame [simp]:
  "keyLen (st\<lparr>st_length := n\<rparr>) i = keyLen st i" "totalLen (st\<lparr>st_length := n\<rparr>) i = totalLen st i"
  "st_key (st\<lparr>st_length := n\<rparr>) i = st_key st i" "st_val (st\<lparr>st_length := n\<rparr>) i = st_val st i"
  "read_key (st\<lparr>st_length := n\<rparr>) x = read_key st x" "read_val (st\<lparr>st_length := n\<rparr>) x = read_val st x"
  by (simp_all add: keyLen_def valLen_def totalLen_def st_key_def st_val_def file_slice_def
      read_key_def read_val_def)

lemma reads_frame_deleted [simp]:
  "keyLen (st\<lparr>st_deleted := n\<rparr>) i = keyLen st i" "totalLen (st\<lparr>st_deleted := n\<rparr>) i = totalLen st i"
  "st_key (st\<lparr>st_deleted := n\<rparr>) i = st_key st i" "st_val (st\<lparr>st_deleted := n\<rparr>) i = st_val st i"
  "read_key (st\<lparr>st_deleted := n\<rparr>) x = read_key st x" "read_val (st\<lparr>st_deleted := n\<rparr>) x = read_val st x"
  by (simp_all add: keyLen_def valLen_def totalLen_def st_key_def st_val_def file_slice_def
      read_key_def read_val_def)

lemma probe_frame:
  "probe m hm (st\<lparr>st_length := n\<rparr>) h key i = probe m hm st h key i"
  by (induction m arbitrary: h i) (simp_all cong: bindG_cong if_cong)

lemma search_frame [simp]: "search (at_length n c) h key = search c h key"
  by (simp add: search_def probe_frame)

lemma check_space_frame:
  "check_space (at_length n c) = bindG (check_space c) (\<lambda>(e, c'). Ret (e, at_length n c'))"
  by (cases "expand (pm_hm c)") (auto simp: check_space_def)

lemma restorePair_frame:
  "restorePair (at_length n c) k v i = bindG (restorePair c k v i) (\<lambda>(e, c'). Ret (e, at_length n c'))"
proof (cases "check_space c")
  case (Ret x)
  obtain e c1 where x: "x = (e, c1)" by fastforce
  let ?h = "hashReMap (ucast (FNV1a64 k))"
  have rep: "replace_index (at_length n c1) p h y = replace_index c1 p h y" for p h y
    by (simp add: replace_index_def)
  note pre = restorePair_def check_space_frame Ret x Let_def
  show ?thesis
  proof (cases e)
    case None
    show ?thesis
    proof (cases "search c1 ?h k")
      case (Ret r)
      show ?thesis
        by (cases r) (auto simp: pre None \<open>search c1 ?h k = Ret r\<close> rep bindG_assoc
            intro!: bindG_cong)
    qed (simp_all add: pre None)
  qed (simp add: pre)
qed (simp_all add: restorePair_def check_space_frame)

section \<open>Lemmas: restoring one record\<close>

lemma restore_missing:
  assumes r: "pm_rep c l" and room: "numStoredKeys (pm_hm c) < numKeysToExpand (pm_hm c)"
    and p: "unat p < unat (hm_size (pm_hm c))" "hs (pm_hm c) (unat p) = 0"
      "on_path (unat (hm_size (pm_hm c))) (hs (pm_hm c)) (unat (key_hash k)) (unat p)"
    and new: "pm_abs c k = None" and x: "rec_at l (unat x) = Some (k, v)" and v: "8 \<le> length v"
  obtains hm where "put_bucket (pm_hm c) p (key_hash k) x = Ret hm"
    and "let c' = c\<lparr>pm_hm := hm, pm_checksum := sc_sum (pm_checksum c) (FNV1a64 k XOR stamp_word v) t\<rparr>
      in pm_rep c' l \<and> pm_abs c' = (pm_abs c)(k \<mapsto> v) \<and> sum_defect c' = sum_defect c \<and> same_limits c c'"
proof -
  let ?cs = "sc_sum (pm_checksum c) (FNV1a64 k XOR stamp_word v) t"
  have st: "store_inv (pm_st c) l" using r by (simp add: pm_rep_def)
  obtain hm where hm: "put_bucket (pm_hm c) p (key_hash k) x = Ret hm"
    "pm_rep (c\<lparr>pm_hm := hm, pm_st := pm_st c, pm_checksum := ?cs\<rparr>) l"
    "mset (pm_pairs (c\<lparr>pm_hm := hm, pm_st := pm_st c, pm_checksum := ?cs\<rparr>))
        = add_mset (k, v) (mset (pm_pairs c))"
    "sizeLimit hm = sizeLimit (pm_hm c)" "used hm = Suc (used (pm_hm c))"
    using rep_insert [OF r room p new st _ x v] by blast
  note ab = abs_add [OF hm(2,3)] and su = pair_sum_add [OF hm(3)]
  show thesis
    using hm ab su
    by (intro that [of hm]) (simp_all add: Let_def same_limits_def sum_defect_def)
qed

lemma restore_found:
  assumes r: "pm_rep c l" and p: "unat p < unat (hm_size (pm_hm c))" "hs (pm_hm c) (unat p) = key_hash k"
    and old: "rec_at l (unat (si (pm_hm c) (unat p))) = Some (k, old)"
    and x: "rec_at l (unat x) = Some (k, v)" and v: "8 \<le> length v"
  obtains hm where "replace_index c p (key_hash k) x = Ret hm"
    and "let c' = c\<lparr>pm_hm := hm, pm_st := (pm_st c)\<lparr>st_deleted := n\<rparr>, pm_checksum :=
          sc_sum (sc_sub (pm_checksum c) (FNV1a64 k XOR stamp_word old) t) (FNV1a64 k XOR stamp_word v) t\<rparr>
      in pm_rep c' l \<and> pm_abs c' = (pm_abs c)(k \<mapsto> v) \<and> sum_defect c' = sum_defect c \<and> same_limits c c'"
proof -
  let ?cs = "sc_sum (sc_sub (pm_checksum c) (FNV1a64 k XOR stamp_word old) t) (FNV1a64 k XOR stamp_word v) t"
  let ?st = "(pm_st c)\<lparr>st_deleted := n\<rparr>"
  have st: "store_inv ?st l" using r by (simp add: pm_rep_def)
  obtain hm P where hm: "replace_index c p (key_hash k) x = Ret hm"
    "pm_rep (c\<lparr>pm_hm := hm, pm_st := ?st, pm_checksum := ?cs\<rparr>) l"
    "mset (pm_pairs c) = add_mset (k, old) P"
    "mset (pm_pairs (c\<lparr>pm_hm := hm, pm_st := ?st, pm_checksum := ?cs\<rparr>)) = add_mset (k, v) P"
    "sizeLimit hm = sizeLimit (pm_hm c)" "used hm = used (pm_hm c)"
    using rep_replace [OF r p old st _ x v] by blast
  note ab = abs_replace [OF r hm(2-4)] and su = pair_sum_swap [OF hm(3,4)]
  show thesis
    using hm ab su
    by (intro that [of hm]) (simp_all add: Let_def same_limits_def sum_defect_def)
qed

lemma restore_removed:
  assumes r: "pm_rep c l" and p: "unat p < unat (hm_size (pm_hm c))" "hs (pm_hm c) (unat p) = key_hash k"
    and old: "rec_at l (unat (si (pm_hm c) (unat p))) = Some (k, old)"
  obtains hm where "setHash (pm_hm c) p deletedBucket = Ret hm"
    and "let c' = c\<lparr>pm_hm := hm, pm_st := (pm_st c)\<lparr>st_deleted := n\<rparr>, pm_checksum :=
          sc_sub (pm_checksum c) (FNV1a64 k XOR stamp_word old) t\<rparr>
      in pm_rep c' l \<and> pm_abs c' = (pm_abs c)(k := None) \<and> sum_defect c' = sum_defect c \<and> same_limits c c'"
proof -
  let ?cs = "sc_sub (pm_checksum c) (FNV1a64 k XOR stamp_word old) t"
  let ?st = "(pm_st c)\<lparr>st_deleted := n\<rparr>"
  have st: "store_inv ?st l" using r by (simp add: pm_rep_def)
  obtain hm where hm: "setHash (pm_hm c) p deletedBucket = Ret hm"
    "pm_rep (c\<lparr>pm_hm := hm, pm_st := ?st, pm_checksum := ?cs\<rparr>) l"
    "mset (pm_pairs c) = add_mset (k, old)
      (mset (pm_pairs (c\<lparr>pm_hm := hm, pm_st := ?st, pm_checksum := ?cs\<rparr>)))"
    "sizeLimit hm = sizeLimit (pm_hm c)" "used hm = used (pm_hm c)"
    using rep_delete [OF r p old st] by blast
  note ab = abs_remove [OF r hm(3)] and su = pair_sum_add [OF hm(3)]
  show thesis
    using hm ab su
    by (intro that [of hm]) (simp_all add: Let_def same_limits_def sum_defect_def)
qed

lemma restore_step:
  assumes r: "pm_rep c (a @ (k, v) # b)" and i: "unat i = log_size a"
    and ok: "rec_ok (pm_abs c) (k, v)" and room: "can_insert c"
    and spare: "log_size (a @ (k, v) # b) + 4 \<le> unat (st_size (pm_st c))"
  obtains vs c' where "st_val (pm_st c) i = Ret vs" and "slen vs = length v"
    and "restorePair c k vs (ucast i) = Ret (None, c')" and "pm_rep c' (a @ (k, v) # b)"
    and "pm_abs c' = replay_rec (k, v) (pm_abs c)" and "sum_defect c' = sum_defect c"
    and "same_limits c c'"
proof -
  let ?l = "a @ (k, v) # b"
  have st: "store_inv (pm_st c) ?l" using r by (simp add: pm_rep_def)
  note s = store_inv_mapped [OF st]
  define vs where "vs = \<lparr>sarr = v @ le32 (of_nat (length k + length v)) @ log_bytes b
      @ replicate (unat (st_size (pm_st c)) - log_size ?l) 0, slen = length v\<rparr>"
  have vs: "st_val (pm_st c) i = Ret vs" using val_at [OF st i] by (simp add: vs_def)
  have "log_size a < 2 ^ 32" using s(3,5) by (simp add: rec_size_def)
  moreover have "(ucast i :: u32) = of_nat (log_size a)" by (simp add: i [symmetric])
  ultimately have "unat (ucast i :: u32) = log_size a" by (simp add: unat_of_nat_small)
  then have x: "rec_at ?l (unat (ucast i :: u32)) = Some (k, v)" by (simp add: rec_at_here)
  have ts: "8 \<le> length v \<Longrightarrow> slice_stamp8 vs = Ret (stamp_word v)"
    using slice_stamp8_Ret [of vs] by (simp add: vs_def content_def)
  have ts0: "\<exists>w. slice_stamp8 vs = Ret w" if "v = []"
    using that spare by (simp add: slice_stamp8_def vs_def reslice_def slice_of_def Uint64_def min_def) arith
  obtain c1 where c1: "check_space c = Ret (None, c1)" "pm_rep c1 ?l" "pm_abs c1 = pm_abs c"
    "pm_st c1 = pm_st c" "numStoredKeys (pm_hm c1) < numKeysToExpand (pm_hm c1)"
    "sum_defect c1 = sum_defect c" and lim: "\<And>c'. same_limits c1 c' \<Longrightarrow> same_limits c c'"
    by (rule check_space_step [OF r room]) blast
  note pre = restorePair_def c1(1) key_hash_def [symmetric] Let_def
  have "\<exists>c'. restorePair c k vs (ucast i) = Ret (None, c') \<and> pm_rep c' ?l
      \<and> pm_abs c' = replay_rec (k, v) (pm_abs c1) \<and> sum_defect c' = sum_defect c1 \<and> same_limits c1 c'"
    using c1(2)
  proof (cases rule: search_steps [where key = k])
    case (missing p)
    then have v: "8 \<le> length v" "v \<noteq> []" using ok c1(3) by (auto simp: rec_ok_def split: if_splits)
    obtain hm where "put_bucket (pm_hm c1) p (key_hash k) (ucast i) = Ret hm"
      "let c' = c1\<lparr>pm_hm := hm, pm_checksum :=
          sc_sum (pm_checksum c1) (FNV1a64 k XOR stamp_word v) (unix_nano (stamp_word v))\<rparr>
       in pm_rep c' ?l \<and> pm_abs c' = (pm_abs c1)(k \<mapsto> v) \<and> sum_defect c' = sum_defect c1 \<and> same_limits c1 c'"
      by (rule restore_missing [OF c1(2,5) missing(2-5) x v(1)])
    then show ?thesis
      using missing(1) v ts by (auto simp: pre replay_rec_simp)
  next
    case (found p old s)
    note fnd = pre found(1,6,8,9) replay_rec_simp
    show ?thesis
    proof (cases "v = []")
      case True
      then obtain w where w: "slice_stamp8 vs = Ret w" using ts0 by blast
      obtain hm where "setHash (pm_hm c1) p deletedBucket = Ret hm"
        "let c' = c1\<lparr>pm_hm := hm, pm_st := (pm_st c1)\<lparr>st_deleted := st_deleted (pm_st c1)
              + of_nat (12 + length k + slen s)\<rparr>, pm_checksum :=
            sc_sub (pm_checksum c1) (FNV1a64 k XOR stamp_word old) (unix_nano w)\<rparr>
         in pm_rep c' ?l \<and> pm_abs c' = (pm_abs c1)(k := None) \<and> sum_defect c' = sum_defect c1 \<and> same_limits c1 c'"
        by (rule restore_removed [OF c1(2) found(2-4)])
      then show ?thesis using True w by (auto simp: fnd vs_def)
    next
      case False
      then have v: "8 \<le> length v" using ok by (simp add: rec_ok_def)
      obtain hm where "replace_index c1 p (key_hash k) (ucast i) = Ret hm"
        "let c' = c1\<lparr>pm_hm := hm, pm_st := (pm_st c1)\<lparr>st_deleted := st_deleted (pm_st c1)
              + of_nat (12 + length k + slen s)\<rparr>, pm_checksum :=
            sc_sum (sc_sub (pm_checksum c1) (FNV1a64 k XOR stamp_word old) (unix_nano (stamp_word v)))
              (FNV1a64 k XOR stamp_word v) (unix_nano (stamp_word v))\<rparr>
         in pm_rep c' ?l \<and> pm_abs c' = (pm_abs c1)(k \<mapsto> v) \<and> sum_defect c' = sum_defect c1 \<and> same_limits c1 c'"
        by (rule restore_found [OF c1(2) found(2-4) x v])
      then show ?thesis using False ts [OF v] by (auto simp: fnd vs_def)
    qed
  qed
  then show thesis using that [OF vs] c1(3,6) lim by (auto simp: vs_def)
qed

section \<open>Lemmas: the scan\<close>

text \<open>What is left when the scan reaches the records \<open>b\<close> behind the records \<open>a\<close>.\<close>

definition scanned :: "pmap \<Rightarrow> logrec list \<Rightarrow> logrec list \<Rightarrow> bool" where
  "scanned c a b \<longleftrightarrow> pm_rep (at_length (of_nat (log_size (a @ b))) c) (a @ b)
     \<and> pm_abs (at_length (of_nat (log_size (a @ b))) c) = replay a
     \<and> sum_defect (at_length (of_nat (log_size (a @ b))) c) = 0
     \<and> unat (sizeLimit (pm_hm c)) = 2 ^ 26 \<and> used (pm_hm c) \<le> length a
     \<and> st_length (pm_st c) = of_nat (log_size a)"

lemma at_length_id: "st_length (pm_st c) = n \<Longrightarrow> at_length n c = c"
  by (auto simp: at_length_def)

lemma at_length_inj: "at_length n c = at_length n d \<Longrightarrow> st_length (pm_st c) = st_length (pm_st d) \<Longrightarrow> c = d"
  by (metis at_length_frame(5) at_length_id)

lemma pair_at_frame [simp]: "pair_at (st\<lparr>st_deleted := n\<rparr>) x = pair_at st x"
  by (simp add: pair_at_def split: go.splits)

lemma deleted_frame:
  "pm_rep (c\<lparr>pm_st := (pm_st c)\<lparr>st_deleted := n\<rparr>\<rparr>) l = pm_rep c l"
  "pm_pairs (c\<lparr>pm_st := (pm_st c)\<lparr>st_deleted := n\<rparr>\<rparr>) = pm_pairs c"
  by (simp_all add: pm_rep_def pm_pairs_def)

lemma regularD: "regular (a @ r # b) \<Longrightarrow> rec_ok (replay a) r"
  unfolding regular_def by blast

lemma replay_append: "replay (a @ [r]) = replay_rec r (replay a)"
  by (simp add: replay_def)

lemma next_record:
  fixes i :: u64
  assumes "unat i = log_size a" and b: "log_size a + (12 + (length k + length v)) \<le> 4294967296"
  shows "unat (i + (12 + ucast (of_nat (length k + length v) :: u32))) = log_size (a @ [(k, v)])"
proof -
  have "12 + ucast (of_nat (length k + length v) :: u32) = (of_nat (12 + (length k + length v)) :: u64)"
    using b by (simp add: ucast_of_nat_u32_u64 del: of_nat_add) simp
  then show ?thesis
    using unat_add3_u64 [of i "12 + (length k + length v)"] assms
    by (simp add: rec_size_def del: of_nat_add)
qed

lemma scan_step:
  assumes sc: "scanned c a ((k, v) # b)" and i: "unat i = log_size a"
    and ok: "reopenable (unat (st_size (pm_st c))) (a @ (k, v) # b)" and few: "length a < 46976204"
    and n: "n > 0"
  obtains c' i' where "open_loop n c i = open_loop (n - 1) c' i'" and "scanned c' (a @ [(k, v)]) b"
    and "unat i' = log_size (a @ [(k, v)])" and "st_size (pm_st c') = st_size (pm_st c)"
proof -
  let ?l = "a @ (k, v) # b" and ?N = "of_nat (log_size (a @ (k, v) # b)) :: u64"
  let ?W = "at_length ?N c"
  have r: "pm_rep ?W ?l" and abs: "pm_abs ?W = replay a" and sum: "sum_defect ?W = 0"
    and lim: "unat (sizeLimit (pm_hm c)) = 2 ^ 26" and us: "used (pm_hm c) \<le> length a"
    using sc by (simp_all add: scanned_def)
  have "unat (load_limit (2 ^ 26)) = 46976204" by (simp add: load_limit_def)
  then have room: "can_insert ?W" using can_insert_used [OF r, of 26] lim us few by simp
  have rok: "rec_ok (pm_abs ?W) (k, v)" using ok abs by (auto simp: reopenable_def dest: regularD)
  have spare: "log_size ?l + 4 \<le> unat (st_size (pm_st ?W))" using ok by (simp add: reopenable_def)
  obtain vs W' where W': "st_val (pm_st ?W) i = Ret vs" "slen vs = length v"
    "restorePair ?W k vs (ucast i) = Ret (None, W')" "pm_rep W' ?l"
    "pm_abs W' = replay_rec (k, v) (pm_abs ?W)" "sum_defect W' = sum_defect ?W" "same_limits ?W W'"
    by (rule restore_step [OF r i rok room spare])
  from W'(3) obtain c1 where c1: "restorePair c k vs (ucast i) = Ret (None, c1)" "W' = at_length ?N c1"
    by (auto simp: restorePair_frame bindG_eq_Ret)
  let ?c2 = "if slen vs > 0 then c1 else c1\<lparr>pm_st := (pm_st c1)\<lparr>st_deleted := st_deleted (pm_st c1)
      + of_nat (12 + length k)\<rparr>\<rparr>"
  let ?i = "i + (12 + ucast (of_nat (length k + length v) :: u32)) :: u64"
  let ?c = "?c2\<lparr>pm_st := (pm_st ?c2)\<lparr>st_length := ?i\<rparr>\<rparr>"
  have st: "store_inv (pm_st ?W) ?l" "store_inv (pm_st W') ?l" using r W'(4) by (simp_all add: pm_rep_def)
  have at: "rec_at ?l (unat i) = Some (k, v)" by (simp add: i rec_at_here)
  have tl: "totalLen (pm_st c1) i = Ret (of_nat (length k + length v))"
    using store_reads(2) [OF st(2) at] by (simp add: c1(2))
  obtain ks where ks: "keyLen (pm_st c) i = Ret (of_nat (length k))" "st_key (pm_st c) i = Ret ks" "content ks = k"
    using store_reads(1,3) [OF st(1) at] by auto
  have len: "length k < 2 ^ 32" "log_size a + (12 + (length k + length v)) \<le> 4294967296"
    using store_inv_mapped(3,5) [OF st(1)] by (simp_all add: rec_size_def)
  have "k \<noteq> []" using ok by (auto simp: reopenable_def)
  then have nz: "\<not> (of_nat (length k) :: u32) \<le> 0"
    using len(1) by (simp add: word_le_nat_alt unat_of_nat)
  have ui: "unat ?i = log_size (a @ [(k, v)])"
    using next_record [OF i len(2)] by simp
  obtain m where m: "n = Suc m" using n by (cases n) auto
  have run: "open_loop n c i = open_loop m ?c ?i"
    using nz ks W'(1) c1(1) tl by (simp add: m Let_def del: of_nat_add)
  have at_c: "at_length ?N ?c = (if slen vs > 0 then W' else W'\<lparr>pm_st := (pm_st W')\<lparr>st_deleted :=
      st_deleted (pm_st W') + of_nat (12 + length k)\<rparr>\<rparr>)"
    by (simp add: c1(2))
  have "pm_rep (at_length ?N ?c) ?l" "pm_pairs (at_length ?N ?c) = pm_pairs W'"
    "pm_checksum (at_length ?N ?c) = pm_checksum W'"
    using W'(4) by (simp_all only: at_c split: if_split) (simp_all add: deleted_frame)
  moreover have "pm_hm ?c = pm_hm W'" "st_size (pm_st ?c) = st_size (pm_st W')" by (simp_all add: c1(2))
  moreover have "pm_abs W' = replay (a @ [(k, v)])" using W'(5) abs by (simp add: replay_append)
  moreover have "st_length (pm_st ?c) = of_nat (log_size (a @ [(k, v)]))"
    using ui by (simp add: word_of_unat del: log_size_simps)
  ultimately have "scanned ?c (a @ [(k, v)]) b" "st_size (pm_st ?c) = st_size (pm_st c)"
    using W'(6,7) sum lim us
    by (simp_all add: scanned_def pm_abs_def sum_defect_def same_limits_def)
  then show thesis using that [of ?c ?i] run ui m by simp
qed

lemma scan_end:
  assumes "scanned c a []" and i: "unat i = log_size a"
    and "log_size a + 4 \<le> unat (st_size (pm_st c))"
  shows "keyLen (pm_st c) i = Ret 0"
proof -
  have "store_inv (pm_st (at_length (of_nat (log_size a)) c)) a"
    using assms(1) by (simp add: scanned_def pm_rep_def)
  then have m: "mapped (pm_st c) = log_bytes a @ replicate (unat (st_size (pm_st c)) - log_size a) 0"
    using store_inv_mapped(1) by force
  have "4 \<le> unat (st_size (pm_st c)) - log_size a" using assms(3) by simp
  then have "take 4 (replicate (unat (st_size (pm_st c)) - log_size a) (0 :: byte)) = [0, 0, 0, 0]"
    by (simp add: min_def numeral_eq_Suc)
  then show ?thesis
    using assms(3) by (simp add: keyLen_def m i slice_from_def Uint32_def)
qed

lemma scan_all:
  assumes "scanned c a b" and "unat i = log_size a"
    and "reopenable (unat (st_size (pm_st c))) (a @ b)" and "length (a @ b) \<le> 46976204"
    and "length b < n"
  shows "\<exists>c'. open_loop n c i = Ret c' \<and> scanned c' (a @ b) []"
  using assms
proof (induction b arbitrary: a c i n)
  case Nil
  have "keyLen (pm_st c) i = Ret 0"
    using Nil(1,2) by (rule scan_end) (use Nil(3) in \<open>simp add: reopenable_def\<close>)
  with Nil show ?case by (cases n) auto
next
  case (Cons r b)
  obtain k v where r: "r = (k, v)" by fastforce
  have sc: "scanned c a ((k, v) # b)" and ok: "reopenable (unat (st_size (pm_st c))) (a @ (k, v) # b)"
    and few: "length a < 46976204" and n: "n > 0"
    using Cons.prems r by simp_all
  obtain c' i' where c': "open_loop n c i = open_loop (n - 1) c' i'" "scanned c' (a @ [(k, v)]) b"
    "unat i' = log_size (a @ [(k, v)])" "st_size (pm_st c') = st_size (pm_st c)"
    by (rule scan_step [OF sc Cons.prems(2) ok few n])
  have "\<exists>d. open_loop (n - 1) c' i' = Ret d \<and> scanned d ((a @ [(k, v)]) @ b) []"
    by (rule Cons.IH [OF c'(2,3)]) (use Cons.prems(4,5) ok c'(4) r in simp_all)
  then show ?case using c'(1) r by simp
qed

lemma open_scans:
  assumes st: "store_inv st l" and d: "d path = st_file st"
    and ok: "reopenable (unat (st_size st)) l" and few: "length l \<le> 46976204"
    and os: "\<not> open_err os" "\<not> stat_err os" "\<not> map_err os"
  shows "\<exists>c. pm_Open os d path = Ret c \<and> pm_rep c l \<and> pm_abs c = replay l \<and> sum_defect c = 0"
proof -
  note m = store_inv_mapped [OF st]
  define f where "f = log_bytes l @ replicate (unat (st_size st) - log_size l) 0"
  have f: "st_file st = Some f" "length f = unat (st_size st)"
    using st m by (simp_all add: store_inv_def f_def)
  define c0 where "c0 = \<lparr>pm_hm = newHashMap defaultHashMapInitialLog2Size defaultHashMapSizeLimit,
    pm_st = \<lparr>st_deleted = 0, st_length = 0, st_size = st_size st, st_osFile = Some path, st_file = Some f\<rparr>,
    pm_checksum = zeroChecksum, pm_path = path\<rparr>"
  have op: "pm_Open os d path = open_loop (Suc (unat (st_size st))) c0 0"
    using os d f by (simp add: pm_Open_def openStore_def c0_def del: open_loop.simps)
  have hm: "pm_hm c0 = newHashMap (of_nat 16) (2 ^ 26)"
    by (simp add: c0_def defaultHashMapInitialLog2Size_def defaultHashMapSizeLimit_def)
  have inv: "hm_inv (pm_hm c0)" "entries (pm_hm c0) = []"
    unfolding hm by (rule newHashMap_inv; simp)+
  let ?c = "at_length (of_nat (log_size l)) c0"
  have "store_inv (pm_st ?c) l"
    using st m by (auto simp: store_inv_def c0_def f_def unat_of_nat)
  then have "pm_rep ?c l" "pm_pairs ?c = []"
    using inv by (simp_all add: pm_rep_def index_ok_def live_def pm_pairs_def List.map_filter_def)
  moreover have "sizeLimit (pm_hm c0) = 2 ^ 26" "used (pm_hm c0) = 0"
    using newHashMap_core [of 16 "2 ^ 26"] by (simp_all add: hm)
  ultimately have "scanned c0 [] l"
    by (simp add: scanned_def pm_abs_def replay_def sum_defect_def pair_sum_def)
      (simp add: c0_def zeroChecksum_def)
  moreover have "length l < Suc (unat (st_size st))" using m(5) length_log_size [of l] by simp
  moreover have "st_size (pm_st c0) = st_size st" by (simp add: c0_def)
  ultimately have "\<exists>c. open_loop (Suc (unat (st_size st))) c0 0 = Ret c \<and> scanned c ([] @ l) []"
    using ok few by (intro scan_all) simp_all
  then obtain c where c: "pm_Open os d path = Ret c" "scanned c l []" unfolding op by auto
  then have "at_length (of_nat (log_size l)) c = c" by (simp add: at_length_id scanned_def)
  then show ?thesis using c by (auto simp: scanned_def)
qed

section \<open>Properties\<close>

text \<open>
  C11: Closing and reopening loses nothing: take a map made by \<open>New\<close> with a path and a size of at most 4 GiB,
  run at most 46976204 operations on non-empty keys none of which finds the store full, leave 4 bytes of the store
  unused, and close it. Then \<open>Open\<close> on that path, when its system calls succeed, returns a well-formed map with the
  same live pairs, whose newest checksum, \<open>newChecksum\<close>, is again the sum over the live pairs.
\<close>

theorem reopen_roundtrip:
  assumes new: "pm_New os d path sz = Ret (c0, d0)" "path \<noteq> []" "unat sz \<le> 2 ^ 32"
    and run: "pm_reach c0 tr c" "no_full tr" "length tr \<le> 46976204"
      "\<forall>(op, e)\<in>set tr. op_key op \<noteq> []"
    and spare: "unat (st_length (pm_st c)) + 4 \<le> unat sz"
    and closed: "pm_Close os' d0 c = Ret (c1, d1)"
    and os: "\<not> open_err os''" "\<not> stat_err os''" "\<not> map_err os''"
  shows "\<exists>c'. pm_Open os'' d1 path = Ret c' \<and> pm_inv c' \<and> pm_abs c' = pm_abs c
    \<and> newChecksum (pm_checksum c') = pair_sum (pm_pairs c')"
proof -
  note n = New_rep [OF new(1,3)]
  have c0: "st_size (pm_st c0) = sz" "st_osFile (pm_st c0) = Some path" "pm_abs c0 = replay []"
    using new(1,2) n(2)
    by (auto simp: pm_New_def newStore_def Let_def pm_abs_def replay_def split: if_splits)
  obtain l where l: "pm_rep c l" "grown c0 tr c l" "pm_abs c = replay l" "regular l"
    using reach_rep [OF run(1) n(1)] run(2) c0(3) by auto
  have st: "store_inv (pm_st c) l" using l(1) by (simp add: pm_rep_def)
  have fl: "d1 path = st_file (pm_st c)"
    using closed l(2) c0(2)
    by (auto simp: pm_Close_def st_close_def bindG_eq_Ret grown_def split: option.splits if_splits)
  have "reopenable (unat (st_size (pm_st c))) l"
    using l(2,4) run(4) spare store_inv_mapped(4) [OF st] c0(1)
    by (fastforce simp: reopenable_def grown_def)
  moreover have "length l \<le> 46976204" using l(2) run(3) by (simp add: grown_def)
  ultimately have "\<exists>c'. pm_Open os'' d1 path = Ret c' \<and> pm_rep c' l \<and> pm_abs c' = replay l \<and> sum_defect c' = 0"
    using open_scans [of "pm_st c" l d1 path] st fl os by blast
  then show ?thesis using l(3) by (auto simp: pm_inv_def sum_defect_def)
qed

theorem reopen_roundtrip_witness:
  "\<exists>c0 d0 c c1 d1 c'. pm_New os_fine Map.empty ''c'' 256 = Ret (c0, d0)
    \<and> pm_Set c0 (FNV1a64 ex_key) ex_key (ex_val 5) = Ret (None, c)
    \<and> pm_Close os_fine d0 c = Ret (c1, d1)
    \<and> pm_Open os_fine d1 ''c'' = Ret c' \<and> pm_abs c' = [ex_key \<mapsto> ex_val 5]"
proof -
  obtain c0 d0 where new: "pm_New os_fine Map.empty ''c'' 256 = Ret (c0, d0)" "st_size (pm_st c0) = 256"
    "st_length (pm_st c0) = 0"
    by (auto simp: pm_New_def newStore_def os_fine_def Let_def)
  have sz: "unat (256 :: u64) \<le> 2 ^ 32" by simp
  note n = New_rep [OF new(1) sz]
  have abs0: "pm_abs c0 = Map.empty" using n(2) by (simp add: pm_abs_def)
  have "unat (load_limit (2 ^ 26)) = 46976204" by (simp add: load_limit_def)
  then have room: "can_insert c0" using can_insert_used [OF n(1), of 26] n(4,5) by simp
  have fit: "fits (pm_st c0) ex_key (ex_val 5)"
    using new(2,3) by (simp add: fits_def rec_size_def ex_key_def)
  have sm: "small ex_key (ex_val 5)" by simp
  have "set_spec (can_insert c0) (fits (pm_st c0) ex_key (ex_val 5)) (pm_abs c0) ex_key (ex_val 5)
      = (None, [ex_key \<mapsto> ex_val 5])"
    using room fit abs0 by (simp add: set_spec_def)
  with set_step [OF n(1) sm] have "step_to c0 [] ex_key (\<lambda>_. 0)
      (pm_Set c0 (FNV1a64 ex_key) ex_key (ex_val 5)) (None, [ex_key \<mapsto> ex_val 5])"
    by (simp only:)
  then obtain c l where c: "pm_Set c0 (FNV1a64 ex_key) ex_key (ex_val 5) = Ret (None, c)" "pm_rep c l"
    "pm_abs c = [ex_key \<mapsto> ex_val 5]" "extends l [] ex_key (pm_abs c0)"
    "pm_abs c0 = replay [] \<longrightarrow> pm_abs c = replay l"
    unfolding step_to_def by (elim exE conjE) simp
  have "replay l ex_key = Some (ex_val 5)" using c(3,5) abs0 by (simp add: replay_def)
  then have l: "l = [(ex_key, ex_val 5)]"
    using c(4) by (auto simp: extends_def replay_def replay_rec_def split: if_splits)
  have st: "store_inv (pm_st c) l" using c(2) by (simp add: pm_rep_def)
  then have spare: "unat (st_length (pm_st c)) + 4 \<le> unat (256 :: u64)"
    using store_inv_mapped(4) [OF st] by (simp add: l rec_size_def ex_key_def)
  have run: "pm_reach c0 ([] @ [(MSet ex_key (ex_val 5), None)]) c"
    by (rule pm_reach.step [OF pm_reach.start]) (simp_all add: c(1))
  obtain c1 d1 where cl: "pm_Close os_fine d0 c = Ret (c1, d1)"
    using st by (cases "st_osFile (pm_st c)") (simp_all add: pm_Close_def st_close_def store_inv_def os_fine_def)
  have "\<exists>c'. pm_Open os_fine d1 ''c'' = Ret c' \<and> pm_inv c' \<and> pm_abs c' = pm_abs c
    \<and> newChecksum (pm_checksum c') = pair_sum (pm_pairs c')"
    by (rule reopen_roundtrip [OF new(1) _ sz run _ _ _ spare cl])
      (simp_all add: no_full_def os_fine_def ex_key_def)
  then obtain c' where c': "pm_Open os_fine d1 ''c'' = Ret c'" "pm_abs c' = [ex_key \<mapsto> ex_val 5]"
    using c(3) by (elim exE conjE) simp
  show ?thesis using new(1) c(1) cl c' by (intro exI conjI)
qed

end
