(* ===== verification/Core_DB.thy ===== *)
theory Core_DB
  imports PMap_Reopen
begin

text \<open>
  The chunks of a server (src/core/core.go) and the defragmenter (src/core/defrag.go): every
  key belongs to one chunk, a chunk that is present has a persistent map, and the
  defragmenter rewrites a map with many deleted bytes.

  Each operation runs under the locks of its chunk, so it is one step on the state. The
  defragmenter takes its work from a channel of 256 places, kept here as the list of its chunk
  numbers; a deletion that finds it full does not return; the goroutines that end a protection are kept as the list of their arguments.
\<close>

section \<open>State\<close>

record metaChunk =
  mc_pm :: "pmap option"
  present :: bool
  protected :: bool
  revision :: int
  protectionTime :: time

record core =
  dbpath :: string
  chunkSize :: u64
  knownChunks :: int
  chunks :: "metaChunk list"
  defragChannel :: "int list"
  expirations :: "(int \<times> time) list"

definition new_metaChunk :: metaChunk where
  "new_metaChunk = \<lparr>mc_pm = None, present = False, protected = False, revision = 0,
     protectionTime = zero_time\<rparr>"

definition core_New :: "string \<Rightarrow> u64 \<Rightarrow> int \<Rightarrow> core go" where
  "core_New path sz numChunks =
     (if numChunks < 0 then Panic (Raised ''makeslice: len out of range'')
      else Ret \<lparr>dbpath = path, chunkSize = sz, knownChunks = 0,
                chunks = replicate (nat numChunks) new_metaChunk,
                defragChannel = [], expirations = []\<rparr>)"

definition chunkPath :: "core \<Rightarrow> int \<Rightarrow> int \<Rightarrow> string" where
  "chunkPath c chunkID r =
     (if dbpath c = [] then []
      else dbpath c @ ''/chunks/'' @ dec_int chunkID @ ''_rev'' @ dec_int r)"

text \<open>\<open>files\<close> are the names that \<open>ioutil.ReadDir\<close> returns for the directory of the chunks.\<close>

definition findChunk :: "core \<Rightarrow> string list \<Rightarrow> int \<Rightarrow> string" where
  "findChunk c files chunkID =
     (if dbpath c = [] then []
      else case List.find (\<lambda>name. take (length (dec_int chunkID @ ''_rev'')) name = dec_int chunkID @ ''_rev'') files of
        None \<Rightarrow> []
      | Some name \<Rightarrow> dbpath c @ ''/chunks/'' @ name)"

section \<open>Opening and closing\<close>

definition get_chunk :: "core \<Rightarrow> int \<Rightarrow> metaChunk go" where
  "get_chunk c i = (if i < 0 then Panic OutOfRange else index_of (chunks c) (nat i))"

definition set_chunk :: "core \<Rightarrow> int \<Rightarrow> metaChunk \<Rightarrow> core" where
  "set_chunk c i mc = c\<lparr>chunks := (chunks c)[nat i := mc]\<rparr>"

fun open_chunks :: "os_env \<Rightarrow> fs \<Rightarrow> string list \<Rightarrow> core \<Rightarrow> int \<Rightarrow> metaChunk list \<Rightarrow> metaChunk list go" where
  "open_chunks os d files c i [] = Ret []"
| "open_chunks os d files c i (mc # mcs) =
     (let path = findChunk c files i in
      bindG (if path \<noteq> []
             then bindG (pm_Open os d path) (\<lambda>pm. Ret (mc\<lparr>mc_pm := Some pm, present := True\<rparr>))
             else Ret mc) (\<lambda>mc'.
      bindG (open_chunks os d files c (i + 1) mcs) (\<lambda>mcs'. Ret (mc' # mcs'))))"

definition core_Open :: "os_env \<Rightarrow> fs \<Rightarrow> string list \<Rightarrow> core \<Rightarrow> core go" where
  "core_Open os d files c =
     bindG (open_chunks os d files c 0 (chunks c)) (\<lambda>mcs. Ret (c\<lparr>chunks := mcs\<rparr>))"

fun close_chunks :: "os_env \<Rightarrow> fs \<Rightarrow> metaChunk list \<Rightarrow> (metaChunk list \<times> fs) go" where
  "close_chunks os d [] = Ret ([], d)"
| "close_chunks os d (mc # mcs) =
     bindG (case mc_pm mc of
              None \<Rightarrow> Ret (mc, d)
            | Some pm \<Rightarrow> bindG (pm_Close os d pm) (\<lambda>(pm', d'). Ret (mc\<lparr>mc_pm := Some pm'\<rparr>, d'))) (\<lambda>(mc', d').
     bindG (close_chunks os d' mcs) (\<lambda>(mcs', d''). Ret (mc' # mcs', d'')))"

definition core_Close :: "os_env \<Rightarrow> fs \<Rightarrow> core \<Rightarrow> (core \<times> fs) go" where
  "core_Close os d c =
     bindG (close_chunks os d (chunks c)) (\<lambda>(mcs, d'). Ret (c\<lparr>chunks := mcs\<rparr>, d'))"

section \<open>Getters and setters\<close>

definition PresentChunks :: "core \<Rightarrow> int" where
  "PresentChunks c = knownChunks c"

text \<open>\<open>now i\<close> is the instant at which the checksum of chunk \<open>i\<close> is taken.\<close>

fun present_list :: "(nat \<Rightarrow> time) \<Rightarrow> nat \<Rightarrow> metaChunk list \<Rightarrow> ((nat \<times> u64) list \<times> metaChunk list) go" where
  "present_list now i [] = Ret ([], [])"
| "present_list now i (mc # mcs) =
     bindG (if present mc
            then (case mc_pm mc of
                    None \<Rightarrow> Panic NilPointer
                  | Some pm \<Rightarrow> let (s, pm') = pm_Checksum pm (now i) in Ret ([(i, s)], mc\<lparr>mc_pm := Some pm'\<rparr>))
            else Ret ([], mc)) (\<lambda>(ids, mc').
     bindG (present_list now (i + 1) mcs) (\<lambda>(ids', mcs'). Ret (ids @ ids', mc' # mcs')))"

definition PresentChunksList :: "core \<Rightarrow> (nat \<Rightarrow> time) \<Rightarrow> ((nat \<times> u64) list \<times> core) go" where
  "PresentChunksList c now =
     (if knownChunks c < 0 then Panic (Raised ''makeslice: cap out of range'')
      else bindG (present_list now 0 (chunks c)) (\<lambda>(ids, mcs). Ret (ids, c\<lparr>chunks := mcs\<rparr>)))"

definition IsPresent :: "core \<Rightarrow> int \<Rightarrow> bool go" where
  "IsPresent c i = bindG (get_chunk c i) (\<lambda>mc. Ret (present mc))"

definition IsProtected :: "core \<Rightarrow> int \<Rightarrow> bool go" where
  "IsProtected c i = bindG (get_chunk c i) (\<lambda>mc. Ret (protected mc))"

definition ChunkSetPresent :: "os_env \<Rightarrow> fs \<Rightarrow> core \<Rightarrow> int \<Rightarrow> (core \<times> fs) go" where
  "ChunkSetPresent os d c cid =
     bindG (get_chunk c cid) (\<lambda>chunk.
       if \<not> present chunk then
         bindG (pm_New os d (chunkPath c cid 0) (chunkSize c)) (\<lambda>(pm, d').
         Ret ((set_chunk c cid (chunk\<lparr>mc_pm := Some pm, present := True\<rparr>))\<lparr>knownChunks := knownChunks c + 1\<rparr>, d'))
       else Ret (c, d))"

definition ChunkSetNoPresent :: "os_env \<Rightarrow> fs \<Rightarrow> core \<Rightarrow> int \<Rightarrow> (core \<times> fs) go" where
  "ChunkSetNoPresent os d c cid =
     bindG (get_chunk c cid) (\<lambda>chunk.
       if present chunk then
         (case mc_pm chunk of
            None \<Rightarrow> Panic NilPointer
          | Some pm \<Rightarrow>
              bindG (pm_CloseAndDelete os d pm) (\<lambda>(pm', d').
              Ret ((set_chunk c cid (chunk\<lparr>mc_pm := None, present := False, protected := False\<rparr>))
                     \<lparr>knownChunks := knownChunks c - 1\<rparr>, d')))
       else Ret (c, d))"

definition ChunkSetProtected :: "core \<Rightarrow> int \<Rightarrow> time \<Rightarrow> (err \<times> core) go" where
  "ChunkSetProtected c cid t =
     bindG (get_chunk c cid) (\<lambda>chunk.
       if \<not> present chunk then Ret (Some ''Not present'', c)
       else Ret (None, (set_chunk c cid (chunk\<lparr>protected := True, protectionTime := t\<rparr>))
                         \<lparr>expirations := expirations c @ [(cid, t)]\<rparr>))"

text \<open>The goroutine of \<open>ChunkSetProtected\<close>, after it has slept.\<close>

definition expire :: "core \<Rightarrow> int \<Rightarrow> time \<Rightarrow> core go" where
  "expire c cid t =
     bindG (get_chunk c cid) (\<lambda>chunk.
       if protectionTime chunk = t
       then Ret (set_chunk c cid (chunk\<lparr>protectionTime := zero_time, protected := False\<rparr>))
       else Ret c)"

section \<open>Primitives\<close>

text \<open>The chunk of a key, if it is present.\<close>

abbreviation not_present :: string where "not_present \<equiv> ''ChunkNotPresent''"
abbreviation not_synced :: string where "not_synced \<equiv> ''ChunkNotSynced''"

definition key_chunk :: "core \<Rightarrow> bytes \<Rightarrow> int go" where
  "key_chunk c key = GetChunkID key (int (length (chunks c)))"

definition core_Get :: "core \<Rightarrow> bytes \<Rightarrow> (bytes option \<times> err) go" where
  "core_Get c key =
     bindG (key_chunk c key) (\<lambda>chunkIndex.
     bindG (get_chunk c chunkIndex) (\<lambda>chunk.
       if \<not> present chunk then Ret (None, Some not_present)
       else (case mc_pm chunk of
               None \<Rightarrow> Panic NilPointer
             | Some pm \<Rightarrow> bindG (pm_Get pm (ucast (FNV1a64 key)) key) (\<lambda>v. Ret (v, None)))))"

definition core_Set :: "core \<Rightarrow> bytes \<Rightarrow> bytes \<Rightarrow> (err \<times> core) go" where
  "core_Set c key value =
     bindG (key_chunk c key) (\<lambda>chunkIndex.
     bindG (get_chunk c chunkIndex) (\<lambda>chunk.
       if \<not> present chunk then Ret (Some not_present, c)
       else (case mc_pm chunk of
               None \<Rightarrow> Panic NilPointer
             | Some pm \<Rightarrow> bindG (pm_Set pm (FNV1a64 key) key value) (\<lambda>(e, pm').
                 Ret (e, set_chunk c chunkIndex (chunk\<lparr>mc_pm := Some pm'\<rparr>))))))"

text \<open>
  \<open>float64(a) / float64(b) > 0.1\<close>, for integers that the conversion represents exactly. The
  double nearest to 0.1 is \<open>7205759403792794 / 2 ^ 56\<close>; a quotient rounds to a larger
  double when it is above the midpoint to the next one.
\<close>

definition above_tenth :: "int \<Rightarrow> int \<Rightarrow> bool" where
  "above_tenth a b =
     (if b = 0 then a > 0 else if b > 0 then a * 2 ^ 57 > b * 14411518807585589
      else a * 2 ^ 57 < b * 14411518807585589)"

text \<open>
  The channel of the defragmenter is bounded: a deletion that finds it full does not return before the
  defragmenter takes an operation out of it.
\<close>

definition defragBufferSize :: nat where
  "defragBufferSize = 256"

definition core_Delete :: "core \<Rightarrow> bytes \<Rightarrow> bytes \<Rightarrow> (err \<times> core) go" where
  "core_Delete c key value =
     bindG (key_chunk c key) (\<lambda>chunkIndex.
     bindG (get_chunk c chunkIndex) (\<lambda>chunk.
       if \<not> present chunk then Ret (Some not_present, c)
       else (case mc_pm chunk of
               None \<Rightarrow> Panic NilPointer
             | Some pm \<Rightarrow> bindG (pm_Del pm (FNV1a64 key) key value) (\<lambda>(e, pm').
                 let c1 = set_chunk c chunkIndex (chunk\<lparr>mc_pm := Some pm'\<rparr>) in
                 if above_tenth (pm_Deleted pm') (pm_Used pm') \<and> above_tenth (pm_Used pm') (pm_Size pm') then
                   (if length (defragChannel c1) < defragBufferSize
                    then Ret (e, c1\<lparr>defragChannel := defragChannel c1 @ [chunkIndex]\<rparr>) else Loop)
                 else Ret (e, c1)))))"

definition core_CAS :: "core \<Rightarrow> bytes \<Rightarrow> bytes \<Rightarrow> (int \<Rightarrow> bool) \<Rightarrow> (err \<times> core) go" where
  "core_CAS c key value isSynced =
     bindG (key_chunk c key) (\<lambda>chunkIndex.
     bindG (get_chunk c chunkIndex) (\<lambda>chunk.
       if \<not> present chunk then Ret (Some not_present, c)
       else if \<not> isSynced chunkIndex then Ret (Some not_synced, c)
       else (case mc_pm chunk of
               None \<Rightarrow> Panic NilPointer
             | Some pm \<Rightarrow> bindG (pm_CAS pm (FNV1a64 key) key value) (\<lambda>(e, pm').
                 Ret (e, set_chunk c chunkIndex (chunk\<lparr>mc_pm := Some pm'\<rparr>))))))"

text \<open>
  The callback of the iterators runs without the lock of the chunk; here no other operation
  on the chunk runs in between.
\<close>

definition core_Iterate ::
  "core \<Rightarrow> int \<Rightarrow> (bytes \<Rightarrow> bytes \<Rightarrow> 's \<Rightarrow> (bool \<times> 's) go) \<Rightarrow> 's \<Rightarrow> (err \<times> 's) go" where
  "core_Iterate c chunkIndex foreach s =
     bindG (get_chunk c chunkIndex) (\<lambda>chunk.
       if \<not> present chunk then Ret (Some not_present, s)
       else (case mc_pm chunk of
               None \<Rightarrow> Panic NilPointer
             | Some pm \<Rightarrow> bindG (pm_Iterate pm foreach s) (\<lambda>s'. Ret (None, s'))))"

definition core_BackwardsIterate ::
  "core \<Rightarrow> int \<Rightarrow> (bytes \<Rightarrow> bytes \<Rightarrow> 's \<Rightarrow> (bool \<times> 's) go) \<Rightarrow> 's \<Rightarrow> (err \<times> 's) go" where
  "core_BackwardsIterate c chunkIndex foreach s =
     bindG (get_chunk c chunkIndex) (\<lambda>chunk.
       if \<not> present chunk then Ret (Some not_present, s)
       else (case mc_pm chunk of
               None \<Rightarrow> Panic NilPointer
             | Some pm \<Rightarrow> bindG (pm_BackwardsIterate pm foreach s) (\<lambda>s'. Ret (None, s'))))"

definition LengthOfChunk :: "core \<Rightarrow> int \<Rightarrow> u64 go" where
  "LengthOfChunk c chunkIndex =
     bindG (get_chunk c chunkIndex) (\<lambda>chunk.
       if \<not> present chunk then Ret (- 1)
       else (case mc_pm chunk of
               None \<Rightarrow> Panic NilPointer
             | Some pm \<Rightarrow> Ret (word_of_int (pm_Used pm))))"

section \<open>Defragmentation\<close>

text \<open>The callback that copies a pair into the new map.\<close>

definition defrag_pair :: "bytes \<Rightarrow> bytes \<Rightarrow> pmap \<Rightarrow> (bool \<times> pmap) go" where
  "defrag_pair key value pm =
     bindG (pm_Set pm (FNV1a64 key) key value) (\<lambda>(e, pm').
       case e of Some m \<Rightarrow> Panic (Raised m) | None \<Rightarrow> Ret (True, pm'))"

text \<open>One turn of the loop, for the operation \<open>chunkID\<close> taken from the channel.\<close>

definition defrag :: "os_env \<Rightarrow> fs \<Rightarrow> core \<Rightarrow> int \<Rightarrow> (core \<times> fs) go" where
  "defrag os d c chunkID =
     bindG (get_chunk c chunkID) (\<lambda>chunk. case mc_pm chunk of
       None \<Rightarrow> Panic NilPointer
     | Some old \<Rightarrow>
         let r = revision chunk + 1 in
         bindG (if dbpath c = [] then pm_New os d [] (chunkSize c)
                else pm_New os d (chunkPath c chunkID r) (chunkSize c)) (\<lambda>(pm, d1).
         bindG (pm_Iterate old defrag_pair pm) (\<lambda>pm'.
         bindG (pm_CloseAndDelete os d1 old) (\<lambda>(old', d2).
         Ret (set_chunk c chunkID (chunk\<lparr>mc_pm := Some pm', revision := r\<rparr>), d2)))))"

end
