(* ===== verification/Core_Props.thy ===== *)
theory Core_Props
  imports Core_DB
begin

text \<open>
  Properties of the chunks of a server: the invariant of \<open>Core\<close>, the key-value map a server
  offers and how the operations change it, convergence of servers, and defragmentation.
\<close>

section \<open>Invariant and abstract map\<close>

definition chunk_ok :: "metaChunk \<Rightarrow> bool" where
  "chunk_ok mc \<longleftrightarrow> (present mc \<longleftrightarrow> mc_pm mc \<noteq> None) \<and> (protected mc \<longrightarrow> present mc)
     \<and> (\<forall>pm. mc_pm mc = Some pm \<longrightarrow> pm_inv pm)"

definition core_inv :: "core \<Rightarrow> bool" where
  "core_inv c \<longleftrightarrow> (\<forall>mc\<in>set (chunks c). chunk_ok mc)
     \<and> knownChunks c = int (length (filter present (chunks c)))
     \<and> unat (chunkSize c) \<le> 2 ^ 32 \<and> 0 < length (chunks c) \<and> length (chunks c) < 2 ^ 63"

definition slot :: "core \<Rightarrow> bytes \<Rightarrow> nat" where
  "slot c key = unat (drop_bit 32 (FNV1a64 key)) mod length (chunks c)"

definition chunk_abs :: "metaChunk \<Rightarrow> kv" where
  "chunk_abs mc = (case mc_pm mc of None \<Rightarrow> Map.empty | Some pm \<Rightarrow> if present mc then pm_abs pm else Map.empty)"

definition core_abs :: "core \<Rightarrow> kv" where
  "core_abs c key = chunk_abs (chunks c ! slot c key) key"

definition holds :: "core \<Rightarrow> bytes \<Rightarrow> bool" where
  "holds c key \<longleftrightarrow> present (chunks c ! slot c key)"

text \<open>A write that reports success.\<close>

definition core_put :: "core \<Rightarrow> bytes \<Rightarrow> bytes \<Rightarrow> core option" where
  "core_put c k v = (if small k v then
     (case core_Set c k v of Ret (e, c') \<Rightarrow> (if e = None then Some c' else None) | _ \<Rightarrow> None)
     else None)"

text \<open>A server with one chunk, before and after a write.\<close>

definition ex_core :: "pmap \<Rightarrow> core" where
  "ex_core pm = \<lparr>dbpath = [], chunkSize = 256, knownChunks = 1,
     chunks = [\<lparr>mc_pm = Some pm, present = True, protected = False, revision = 0, protectionTime = zero_time\<rparr>],
     defragChannel = [], expirations = []\<rparr>"

text \<open>
  The operations of a server and the runs of them, on a machine whose system calls succeed.
  \<open>CExpire\<close> is the end of the sleep of one of the goroutines that \<open>ChunkSetProtected\<close> started.
\<close>

datatype core_op = CSet bytes bytes | CDelete bytes bytes | CCas bytes bytes "int \<Rightarrow> bool"
  | CPresent int | CNoPresent int | CProtect int time | CExpire int time | CList "nat \<Rightarrow> time"

fun do_core :: "core \<times> fs \<Rightarrow> core_op \<Rightarrow> (core \<times> fs) go" where
  "do_core (c, d) (CSet k v) = bindG (core_Set c k v) (\<lambda>(e, c'). Ret (c', d))"
| "do_core (c, d) (CDelete k v) = bindG (core_Delete c k v) (\<lambda>(e, c'). Ret (c', d))"
| "do_core (c, d) (CCas k v f) = bindG (core_CAS c k v f) (\<lambda>(e, c'). Ret (c', d))"
| "do_core (c, d) (CPresent i) = ChunkSetPresent os_fine d c i"
| "do_core (c, d) (CNoPresent i) = ChunkSetNoPresent os_fine d c i"
| "do_core (c, d) (CProtect i t) = bindG (ChunkSetProtected c i t) (\<lambda>(e, c'). Ret (c', d))"
| "do_core (c, d) (CExpire i t) =
     (if (i, t) \<in> set (expirations c)
      then bindG (expire (c\<lparr>expirations := remove1 (i, t) (expirations c)\<rparr>) i t) (\<lambda>c'. Ret (c', d))
      else Ret (c, d))"
| "do_core (c, d) (CList now) = bindG (PresentChunksList c now) (\<lambda>(ids, c'). Ret (c', d))"

fun core_op_ok :: "nat \<Rightarrow> core_op \<Rightarrow> bool" where
  "core_op_ok n (CSet k v) = small k v"
| "core_op_ok n (CDelete k v) = (8 \<le> length v \<and> small k [])"
| "core_op_ok n (CCas k v f) = small k v"
| "core_op_ok n (CPresent i) = (0 \<le> i \<and> nat i < n)"
| "core_op_ok n (CNoPresent i) = (0 \<le> i \<and> nat i < n)"
| "core_op_ok n (CProtect i t) = (0 \<le> i \<and> nat i < n)"
| "core_op_ok n (CExpire i t) = (0 \<le> i \<and> nat i < n)"
| "core_op_ok n (CList now) = True"

text \<open>A deletion is sure to return when there is room in the channel of the defragmenter.\<close>

definition defrag_room :: "core \<Rightarrow> bool" where
  "defrag_room c \<longleftrightarrow> length (defragChannel c) < defragBufferSize"

fun core_op_room :: "core \<Rightarrow> core_op \<Rightarrow> bool" where
  "core_op_room c (CDelete k v) = defrag_room c"
| "core_op_room c _ = True"

inductive core_reach :: "core \<times> fs \<Rightarrow> core \<times> fs \<Rightarrow> bool" where
  core_start: "core_reach s s"
| core_step: "core_reach s (c, d) \<Longrightarrow> core_op_ok (length (chunks c)) op \<Longrightarrow> do_core (c, d) op = Ret s' \<Longrightarrow>
     core_reach s s'"

section \<open>Lemmas\<close>

lemma count_upd:
  "i < length xs \<Longrightarrow> length (filter P (xs[i := y])) + (if P (xs ! i) then 1 else 0)
     = length (filter P xs) + (if P y then 1 else 0)"
proof (induction xs arbitrary: i)
  case (Cons x xs)
  then show ?case by (cases i) auto
qed simp

lemma slot_less: "core_inv c \<Longrightarrow> slot c key < length (chunks c)"
  by (simp add: slot_def core_inv_def)

lemma key_chunk_slot: "core_inv c \<Longrightarrow> key_chunk c key = Ret (int (slot c key))"
  using GetChunkID_eq [of "int (length (chunks c))" key]
  by (simp add: key_chunk_def slot_def core_inv_def nat_less_iff zmod_int)

lemma get_chunk_Ret: "i < length (chunks c) \<Longrightarrow> get_chunk c (int i) = Ret (chunks c ! i)"
  by (simp add: get_chunk_def index_of_def)

lemma get_chunk_eq: "get_chunk c i = Ret mc \<longleftrightarrow> 0 \<le> i \<and> nat i < length (chunks c) \<and> mc = chunks c ! nat i"
  by (auto simp: get_chunk_def index_of_def)

lemma core_chunk:
  assumes "core_inv c" and "i < length (chunks c)"
  shows "chunk_ok (chunks c ! i)"
  using assms by (simp add: core_inv_def)

lemma set_chunk_frame [simp]:
  "dbpath (set_chunk c i mc) = dbpath c" "chunkSize (set_chunk c i mc) = chunkSize c"
  "knownChunks (set_chunk c i mc) = knownChunks c" "length (chunks (set_chunk c i mc)) = length (chunks c)"
  "defragChannel (set_chunk c i mc) = defragChannel c" "expirations (set_chunk c i mc) = expirations c"
  "slot (set_chunk c i mc) key = slot c key"
  by (simp_all add: set_chunk_def slot_def)

lemma core_inv_frame [simp]:
  "core_inv (c\<lparr>defragChannel := q\<rparr>) = core_inv c" "core_inv (c\<lparr>expirations := x\<rparr>) = core_inv c"
  "core_abs (c\<lparr>defragChannel := q\<rparr>) = core_abs c" "core_abs (c\<lparr>expirations := x\<rparr>) = core_abs c"
  by (simp_all add: core_inv_def core_abs_def slot_def fun_eq_iff)

text \<open>Replacing a chunk by another well-formed one, and counting it.\<close>

lemma set_chunk_inv:
  assumes "core_inv c" and "i < length (chunks c)" and "chunk_ok mc"
    and "n = knownChunks c + of_bool (present mc) - of_bool (present (chunks c ! i))"
  shows "core_inv ((set_chunk c (int i) mc)\<lparr>knownChunks := n\<rparr>)"
proof -
  have "\<forall>m\<in>set ((chunks c)[i := mc]). chunk_ok m"
    using assms(1,3) set_update_subset_insert [of "chunks c" i mc] by (auto simp: core_inv_def)
  moreover have "n = int (length (filter present ((chunks c)[i := mc])))"
    using count_upd [OF assms(2), of present mc] assms(1,4)
    by (auto simp: core_inv_def split: if_splits)
  ultimately show ?thesis using assms(1) by (simp add: core_inv_def set_chunk_def)
qed

lemma set_chunk_same:
  assumes "core_inv c" and "i < length (chunks c)" and "chunk_ok mc" and "present mc = present (chunks c ! i)"
  shows "core_inv (set_chunk c (int i) mc)"
proof -
  have eq: "(set_chunk c (int i) mc)\<lparr>knownChunks := knownChunks c\<rparr> = set_chunk c (int i) mc"
    by (simp add: set_chunk_def)
  have "core_inv ((set_chunk c (int i) mc)\<lparr>knownChunks := knownChunks c\<rparr>)"
    by (rule set_chunk_inv) (use assms in simp_all)
  then show ?thesis by (simp only: eq)
qed

text \<open>A change of the map of the chunk of \<open>key\<close> is seen at the keys of that chunk.\<close>

lemma core_abs_upd:
  assumes "core_inv c" and "i = slot c key" and "chunk_abs mc = f (chunk_abs (chunks c ! i))"
    and "\<And>m k. k \<noteq> key \<Longrightarrow> f m k = m k"
  shows "core_abs (set_chunk c (int i) mc) = (core_abs c)(key := f (chunk_abs (chunks c ! i)) key)"
proof
  fix k
  have i: "i < length (chunks c)" using slot_less [OF assms(1)] assms(2) by simp
  show "core_abs (set_chunk c (int i) mc) k = ((core_abs c)(key := f (chunk_abs (chunks c ! i)) key)) k"
    using assms(2-4) i by (cases "slot c k = i") (auto simp: core_abs_def set_chunk_def slot_def)
qed

text \<open>The chunk of a key and its map, when the chunk is present.\<close>

lemma held_chunk:
  assumes "core_inv c" and "holds c key"
  obtains pm where "mc_pm (chunks c ! slot c key) = Some pm" and "pm_inv pm"
    and "present (chunks c ! slot c key)" and "chunk_abs (chunks c ! slot c key) = pm_abs pm"
    and "core_abs c key = pm_abs pm key"
proof -
  have "chunk_ok (chunks c ! slot c key)" using assms(1) slot_less by (intro core_chunk)
  then show thesis
    using assms(2) that by (auto simp: chunk_ok_def holds_def chunk_abs_def core_abs_def)
qed

lemma held_update:
  assumes "core_inv c" and "holds c key" and "pm_inv pm'"
  shows "core_inv (set_chunk c (int (slot c key)) ((chunks c ! slot c key)\<lparr>mc_pm := Some pm'\<rparr>))"
proof -
  have "chunk_ok (chunks c ! slot c key)" using assms(1) slot_less by (intro core_chunk)
  then show ?thesis
    using assms slot_less by (intro set_chunk_same) (auto simp: chunk_ok_def holds_def)
qed

text \<open>An operation that changes the live pairs of the map at \<open>key\<close> only.\<close>

lemma held_abs:
  assumes "core_inv c" and "holds c key" and "\<And>k. k \<noteq> key \<Longrightarrow> pm_abs pm' k = chunk_abs (chunks c ! slot c key) k"
  shows "core_abs (set_chunk c (int (slot c key)) ((chunks c ! slot c key)\<lparr>mc_pm := Some pm'\<rparr>))
    = (core_abs c)(key := pm_abs pm' key)"
proof
  fix k
  have i: "slot c key < length (chunks c)" using slot_less [OF assms(1)] by simp
  have p: "present (chunks c ! slot c key)" using assms(2) by (simp add: holds_def)
  show "core_abs (set_chunk c (int (slot c key)) ((chunks c ! slot c key)\<lparr>mc_pm := Some pm'\<rparr>)) k
      = ((core_abs c)(key := pm_abs pm' key)) k"
    using assms(3) i p
    by (cases "slot c k = slot c key") (auto simp: core_abs_def set_chunk_def slot_def chunk_abs_def)
qed

lemma set_spec_other: "set_spec h s m k v = (e, m') \<Longrightarrow> k' \<noteq> k \<Longrightarrow> m' k' = m k'"
  by (auto simp: set_spec_def split: if_splits option.splits)

lemma set_spec_lww:
  "set_spec h s m k v = (e, m') \<Longrightarrow> m' = (if e = None then lww stamp k v m else m)"
  by (auto simp: set_spec_def lww_def split: if_splits option.splits)

lemma del_spec_other: "del_spec s m k v = (e, m') \<Longrightarrow> k' \<noteq> k \<Longrightarrow> m' k' = m k'"
  by (auto simp: del_spec_def split: if_splits option.splits)

lemma cas_spec_other: "cas_spec h s m k v = (e, m') \<Longrightarrow> k' \<noteq> k \<Longrightarrow> m' k' = m k'"
  by (auto simp: cas_spec_def split: if_splits option.splits)

lemma lww_at: "m(k := lww ts k v m k) = lww ts k v m"
  by (auto simp: lww_def fun_eq_iff split: option.splits)

lemma lww_local: "m k = n k \<Longrightarrow> lww ts k v m k = lww ts k v n k"
  by (simp add: lww_def split: option.splits)

text \<open>
  The three writing primitives run an operation of the map of the chunk of \<open>key\<close>; \<open>on_chunk\<close>
  is their common part.
\<close>

definition on_chunk :: "core \<Rightarrow> bytes \<Rightarrow> (pmap \<Rightarrow> (err \<times> pmap) go) \<Rightarrow> (err \<times> core) go" where
  "on_chunk c key op =
     bindG (key_chunk c key) (\<lambda>i. bindG (get_chunk c i) (\<lambda>mc.
       if \<not> present mc then Ret (Some not_present, c)
       else (case mc_pm mc of None \<Rightarrow> Panic NilPointer
             | Some pm \<Rightarrow> bindG (op pm) (\<lambda>(e, pm'). Ret (e, set_chunk c i (mc\<lparr>mc_pm := Some pm'\<rparr>))))))"

definition local_op :: "bytes \<Rightarrow> (err \<Rightarrow> bytes option \<Rightarrow> bytes option \<Rightarrow> bool) \<Rightarrow> (pmap \<Rightarrow> (err \<times> pmap) go) \<Rightarrow> bool" where
  "local_op key R op \<longleftrightarrow> (\<forall>pm. pm_inv pm \<longrightarrow> (\<exists>e pm'. op pm = Ret (e, pm') \<and> pm_inv pm'
     \<and> (\<forall>k. k \<noteq> key \<longrightarrow> pm_abs pm' k = pm_abs pm k) \<and> R e (pm_abs pm key) (pm_abs pm' key)))"

lemma on_chunk_absent: "core_inv c \<Longrightarrow> \<not> holds c key \<Longrightarrow> on_chunk c key op = Ret (Some not_present, c)"
  using slot_less [of c key] by (simp add: on_chunk_def key_chunk_slot get_chunk_Ret holds_def)

lemma on_chunk_step:
  assumes inv: "core_inv c" and h: "holds c key" and op: "local_op key R op"
  obtains e c' where "on_chunk c key op = Ret (e, c')" and "core_inv c'"
    and "core_abs c' = (core_abs c)(key := core_abs c' key)" and "R e (core_abs c key) (core_abs c' key)"
    and "\<And>k. holds c' k = holds c k"
proof -
  let ?i = "slot c key"
  obtain pm where pm: "mc_pm (chunks c ! ?i) = Some pm" "pm_inv pm" "present (chunks c ! ?i)"
    "chunk_abs (chunks c ! ?i) = pm_abs pm" "core_abs c key = pm_abs pm key"
    using held_chunk [OF inv h] .
  from op pm(2) obtain e pm' where pm': "op pm = Ret (e, pm')" "pm_inv pm'"
    "\<And>k. k \<noteq> key \<Longrightarrow> pm_abs pm' k = pm_abs pm k" "R e (pm_abs pm key) (pm_abs pm' key)"
    unfolding local_op_def by blast
  let ?c = "set_chunk c (int ?i) ((chunks c ! ?i)\<lparr>mc_pm := Some pm'\<rparr>)"
  have run: "on_chunk c key op = Ret (e, ?c)"
    using inv slot_less [OF inv] pm(1,3) pm'(1) by (simp add: on_chunk_def key_chunk_slot get_chunk_Ret)
  have abs: "core_abs ?c = (core_abs c)(key := pm_abs pm' key)"
    using inv h pm'(3) pm(4) by (intro held_abs) simp_all
  show thesis
  proof (rule that [OF run])
    show "core_inv ?c" using inv h pm'(2) by (rule held_update)
    show "core_abs ?c = (core_abs c)(key := core_abs ?c key)" by (simp add: abs)
    show "R e (core_abs c key) (core_abs ?c key)" using pm'(4) pm(5) by (simp add: abs)
    show "holds ?c k = holds c k" for k
      using slot_less [OF inv] pm(3) by (auto simp: holds_def set_chunk_def slot_def nth_list_update)
  qed
qed

text \<open>What each operation of a map does at its key.\<close>

lemma set_local:
  assumes "small key v"
  shows "local_op key (\<lambda>e old new. new = (if e = None then lww stamp key v (\<lambda>_. old) key else old))
    (\<lambda>pm. pm_Set pm (FNV1a64 key) key v)"
  unfolding local_op_def
proof (intro allI impI)
  fix pm
  assume "pm_inv pm"
  then obtain l where l: "pm_rep pm l" by (auto simp: pm_inv_def)
  obtain e pm' where pm': "pm_Set pm (FNV1a64 key) key v = Ret (e, pm')" "pm_inv pm'"
    "set_spec (can_insert pm) (fits (pm_st pm) key v) (pm_abs pm) key v = (e, pm_abs pm')"
    using step_to_Ret [OF set_step [OF l assms]] by metis
  moreover have "pm_abs pm' key = (if e = None then lww stamp key v (\<lambda>_. pm_abs pm key) key else pm_abs pm key)"
    using set_spec_lww [OF pm'(3)] by (simp add: lww_def split: option.splits)
  ultimately show "\<exists>e pm'. pm_Set pm (FNV1a64 key) key v = Ret (e, pm') \<and> pm_inv pm'
      \<and> (\<forall>k. k \<noteq> key \<longrightarrow> pm_abs pm' k = pm_abs pm k)
      \<and> pm_abs pm' key = (if e = None then lww stamp key v (\<lambda>_. pm_abs pm key) key else pm_abs pm key)"
    using set_spec_other [OF pm'(3)] by blast
qed

definition cas_passes :: "bytes option \<Rightarrow> bytes \<Rightarrow> bool" where
  "cas_passes old v \<longleftrightarrow> 24 \<le> length v \<and> cas_check (\<lambda>_. old) [] v = None"

definition del_at :: "bytes \<Rightarrow> bytes option \<Rightarrow> bytes option" where
  "del_at v old = (case old of None \<Rightarrow> None | Some x \<Rightarrow> if stamp v < stamp x then Some x else None)"

lemma cas_spec_at:
  "cas_spec h s m k v = (e, m') \<Longrightarrow> if e = None then cas_passes (m k) v \<and> m' k = Some (cas_new v) else m' k = m k"
  by (auto simp: cas_spec_def cas_passes_def cas_check_def split: if_splits option.splits)

lemma del_spec_at: "del_spec s m k v = (e, m') \<Longrightarrow> m' k = del_at v (m k)"
  by (auto simp: del_spec_def del_at_def split: if_splits option.splits)

lemma cas_local:
  assumes "small key v"
  shows "local_op key (\<lambda>e old new. if e = None then cas_passes old v \<and> new = Some (cas_new v) else new = old)
    (\<lambda>pm. pm_CAS pm (FNV1a64 key) key v)"
  unfolding local_op_def
proof (intro allI impI)
  fix pm
  assume "pm_inv pm"
  then obtain l where l: "pm_rep pm l" by (auto simp: pm_inv_def)
  obtain e pm' where pm': "pm_CAS pm (FNV1a64 key) key v = Ret (e, pm')" "pm_inv pm'"
    "cas_spec (can_insert pm) (fits (pm_st pm) key (cas_new v)) (pm_abs pm) key v = (e, pm_abs pm')"
    using step_to_Ret [OF cas_step [OF l small_cas [OF assms]]] by metis
  moreover have "if e = None then cas_passes (pm_abs pm key) v \<and> pm_abs pm' key = Some (cas_new v)
      else pm_abs pm' key = pm_abs pm key"
    using pm'(3) by (rule cas_spec_at)
  ultimately show "\<exists>e pm'. pm_CAS pm (FNV1a64 key) key v = Ret (e, pm') \<and> pm_inv pm'
      \<and> (\<forall>k. k \<noteq> key \<longrightarrow> pm_abs pm' k = pm_abs pm k)
      \<and> (if e = None then cas_passes (pm_abs pm key) v \<and> pm_abs pm' key = Some (cas_new v)
         else pm_abs pm' key = pm_abs pm key)"
    using cas_spec_other [OF pm'(3)] by blast
qed

lemma del_local:
  assumes "8 \<le> length v" and "small key []"
  shows "local_op key (\<lambda>e old new. new = del_at v old) (\<lambda>pm. pm_Del pm (FNV1a64 key) key v)"
  unfolding local_op_def
proof (intro allI impI)
  fix pm
  assume "pm_inv pm"
  then obtain l where l: "pm_rep pm l" by (auto simp: pm_inv_def)
  obtain e pm' where pm': "pm_Del pm (FNV1a64 key) key v = Ret (e, pm')" "pm_inv pm'"
    "del_spec (fits (pm_st pm) key []) (pm_abs pm) key v = (e, pm_abs pm')"
    using step_to_Ret [OF del_step [OF l assms]] by metis
  moreover have "pm_abs pm' key = del_at v (pm_abs pm key)"
    using pm'(3) by (rule del_spec_at)
  ultimately show "\<exists>e pm'. pm_Del pm (FNV1a64 key) key v = Ret (e, pm') \<and> pm_inv pm'
      \<and> (\<forall>k. k \<noteq> key \<longrightarrow> pm_abs pm' k = pm_abs pm k) \<and> pm_abs pm' key = del_at v (pm_abs pm key)"
    using del_spec_other [OF pm'(3)] by blast
qed

lemma core_Set_on: "core_Set c key v = on_chunk c key (\<lambda>pm. pm_Set pm (FNV1a64 key) key v)"
  by (simp add: core_Set_def on_chunk_def)

lemma core_Set_step:
  assumes inv: "core_inv c" and sm: "small key v"
  obtains e c' where "core_Set c key v = Ret (e, c')" and "core_inv c'"
    and "core_abs c' = (if e = None then lww stamp key v (core_abs c) else core_abs c)"
    and "\<And>k. holds c' k = holds c k" and "e = None \<Longrightarrow> holds c key"
proof (cases "holds c key")
  case False
  then have "core_Set c key v = Ret (Some not_present, c)"
    using on_chunk_absent [OF inv] by (simp add: core_Set_on)
  then show thesis using inv by (rule that) simp_all
next
  case True
  obtain e c' where c': "core_Set c key v = Ret (e, c')" "core_inv c'"
    "core_abs c' = (core_abs c)(key := core_abs c' key)"
    "core_abs c' key = (if e = None then lww stamp key v (\<lambda>_. core_abs c key) key else core_abs c key)"
    "\<And>k. holds c' k = holds c k"
    by (rule on_chunk_step [OF inv True set_local [OF sm]]) (auto simp: core_Set_on)
  have "core_abs c' = (if e = None then lww stamp key v (core_abs c) else core_abs c)"
    using c'(3,4) lww_at [of "core_abs c" key stamp v]
      lww_local [of "\<lambda>_. core_abs c key" key "core_abs c" stamp v]
    by (cases e) simp_all
  then show thesis using c' True by (intro that [of e c']) simp_all
qed

lemma core_Get_abs:
  assumes inv: "core_inv c" and rd: "readable key"
  shows "core_Get c key = Ret (core_abs c key, if holds c key then None else Some not_present)"
proof (cases "holds c key")
  case True
  obtain pm where pm: "mc_pm (chunks c ! slot c key) = Some pm" "pm_inv pm"
    "present (chunks c ! slot c key)" "core_abs c key = pm_abs pm key"
    using held_chunk [OF inv True] .
  then have "pm_Get pm (ucast (FNV1a64 key)) key = Ret (pm_abs pm key)"
    using get_readable [OF _ rd] by (auto simp: pm_inv_def)
  then show ?thesis
    using True pm inv slot_less [OF inv] by (simp add: core_Get_def key_chunk_slot get_chunk_Ret)
next
  case False
  have "chunk_ok (chunks c ! slot c key)" using inv slot_less by (intro core_chunk)
  then have "core_abs c key = None"
    using False by (auto simp: core_abs_def chunk_abs_def holds_def chunk_ok_def split: option.splits)
  then show ?thesis
    using False inv slot_less [OF inv]
    by (simp add: core_Get_def key_chunk_slot get_chunk_Ret holds_def)
qed

interpretation srv: lww_store core_inv core_abs core_put stamp
proof unfold_locales
  fix c c' k v
  assume inv: "core_inv c" and p: "core_put c k v = Some c'"
  have sm: "small k v" and s: "core_Set c k v = Ret (None, c')"
    using p by (auto simp: core_put_def split: if_splits go.splits)
  show "core_inv c'" "core_abs c' = lww stamp k v (core_abs c)"
    by (rule core_Set_step [OF inv sm]; use s in simp)+
qed

lemma ex_core_inv: "pm_inv pm \<Longrightarrow> core_inv (ex_core pm)"
  by (simp add: core_inv_def ex_core_def chunk_ok_def)

lemma ex_core_slot [simp]: "slot (ex_core pm) k = 0"
  by (simp add: slot_def ex_core_def)

lemma ex_core_set: "core_Set (ex_core ex_map) ex_key (ex_val 5) = Ret (None, ex_core ex_map1)"
proof -
  obtain c' where "pm_Set ex_map (FNV1a64 ex_key) ex_key (ex_val 5) = Ret (None, c')" "ex_map1 = c'"
    using put_ok_map [OF ex_map_rep(1), of ex_key "ex_val 5"] ex_map_room(1,2) ex_map_rep(3)
    by (auto simp: ex_map1_def pm_put_def split: if_splits go.splits)
  then show ?thesis
    using ex_core_inv [OF ex_map_inv]
    by (simp add: core_Set_def key_chunk_slot) (simp add: ex_core_def get_chunk_def index_of_def set_chunk_def)
qed

lemma core_Delete_step:
  assumes inv: "core_inv c" and v: "8 \<le> length v" and sm: "small key []" and room: "core_Delete c key v \<noteq> Loop"
  obtains e c' where "core_Delete c key v = Ret (e, c')" and "core_inv c'"
    and "core_abs c' = (core_abs c)(key := del_at v (core_abs c key))"
    and "length (chunks c') = length (chunks c)" and "e = Some not_present \<or> holds c key"
proof (cases "holds c key")
  case False
  have "chunk_ok (chunks c ! slot c key)" using inv slot_less by (intro core_chunk)
  then have "core_abs c key = None"
    using False by (auto simp: core_abs_def chunk_abs_def holds_def chunk_ok_def split: option.splits)
  moreover have "core_Delete c key v = Ret (Some not_present, c)"
    using False inv slot_less [OF inv]
    by (simp add: core_Delete_def key_chunk_slot get_chunk_Ret holds_def)
  ultimately show thesis
    using inv by (intro that [of "Some not_present" c]) (auto simp: del_at_def)
next
  case True
  obtain e c' where c': "on_chunk c key (\<lambda>pm. pm_Del pm (FNV1a64 key) key v) = Ret (e, c')" "core_inv c'"
    "core_abs c' = (core_abs c)(key := core_abs c' key)" "core_abs c' key = del_at v (core_abs c key)"
    by (rule on_chunk_step [OF inv True del_local [OF v sm]]) blast
  obtain pm where pm: "mc_pm (chunks c ! slot c key) = Some pm" "present (chunks c ! slot c key)"
    using held_chunk [OF inv True] by metis
  obtain pm' where pm': "pm_Del pm (FNV1a64 key) key v = Ret (e, pm')"
    "c' = set_chunk c (int (slot c key)) ((chunks c ! slot c key)\<lparr>mc_pm := Some pm'\<rparr>)"
    using c'(1) pm inv slot_less [OF inv]
    by (auto simp: on_chunk_def key_chunk_slot get_chunk_Ret bindG_eq_Ret)
  let ?b = "above_tenth (pm_Deleted pm') (pm_Used pm') \<and> above_tenth (pm_Used pm') (pm_Size pm')"
  define q where "q = (if ?b then defragChannel c' @ [int (slot c key)] else defragChannel c')"
  have "core_Delete c key v = Ret (e, c'\<lparr>defragChannel := q\<rparr>)"
    using pm pm' inv slot_less [OF inv]
    by (cases ?b) (use room in \<open>simp_all add: core_Delete_def key_chunk_slot get_chunk_Ret Let_def q_def split: if_splits\<close>)
  moreover have "length (chunks c') = length (chunks c)" by (simp add: pm'(2))
  ultimately show thesis
    using c'(2-4) True by (intro that [of e "c'\<lparr>defragChannel := q\<rparr>"]) simp_all
qed

lemma core_CAS_step:
  assumes inv: "core_inv c" and sm: "small key v"
  obtains e c' where "core_CAS c key v f = Ret (e, c')" and "core_inv c'"
    and "core_abs c' = (if e = None then (core_abs c)(key \<mapsto> cas_new v) else core_abs c)"
    and "e = None \<Longrightarrow> cas_passes (core_abs c key) v \<and> holds c key \<and> f (int (slot c key))"
proof (cases "holds c key \<and> f (int (slot c key))")
  case False
  then have "\<exists>e. e \<noteq> None \<and> core_CAS c key v f = Ret (e, c)"
    using inv slot_less [OF inv] by (auto simp: core_CAS_def key_chunk_slot get_chunk_Ret holds_def)
  then obtain e where "core_CAS c key v f = Ret (Some e, c)" by auto
  then show thesis using inv by (intro that [of "Some e" c]) simp_all
next
  case True
  then have h: "holds c key" by simp
  have eq: "core_CAS c key v f = on_chunk c key (\<lambda>pm. pm_CAS pm (FNV1a64 key) key v)"
    using True inv slot_less [OF inv]
    by (simp add: core_CAS_def on_chunk_def key_chunk_slot get_chunk_Ret)
  obtain e c' where c': "core_CAS c key v f = Ret (e, c')" "core_inv c'"
    "core_abs c' = (core_abs c)(key := core_abs c' key)"
    "if e = None then cas_passes (core_abs c key) v \<and> core_abs c' key = Some (cas_new v)
     else core_abs c' key = core_abs c key"
    unfolding eq by (rule on_chunk_step [OF inv h cas_local [OF sm]])
  show thesis
    by (rule that [OF c'(1,2)]) (use c'(3,4) True in \<open>auto split: if_splits\<close>)
qed

lemma CloseAndDelete_fine:
  assumes "pm_inv pm"
  shows "\<exists>pm' d'. pm_CloseAndDelete os_fine d pm = Ret (pm', d')"
proof -
  obtain l where "store_inv (pm_st pm) l" using assms by (auto simp: pm_inv_def pm_rep_def)
  then show ?thesis
    by (cases "st_osFile (pm_st pm)")
      (auto simp: pm_CloseAndDelete_def st_close_def deleteStore_def store_inv_def os_fine_def)
qed

lemma New_fine:
  assumes "unat sz \<le> 2 ^ 32"
  shows "\<exists>pm d'. pm_New os_fine d path sz = Ret (pm, d') \<and> pm_inv pm \<and> pm_abs pm = Map.empty"
proof -
  obtain pm d' where pm: "pm_New os_fine d path sz = Ret (pm, d')"
    by (cases "path = []") (simp_all add: pm_New_def newStore_def os_fine_def Let_def)
  from New_rep [OF this assms] show ?thesis using pm by (auto simp: pm_inv_def pm_abs_def)
qed

lemma pm_inv_checksum: "pm_inv pm \<Longrightarrow> pm_inv (pm\<lparr>pm_checksum := cs\<rparr>)"
  by (auto simp: pm_inv_def pm_rep_def)

lemma present_list_Ret:
  assumes "\<forall>mc\<in>set mcs. chunk_ok mc"
  shows "\<exists>ids mcs'. present_list now i mcs = Ret (ids, mcs') \<and> (\<forall>mc\<in>set mcs'. chunk_ok mc)
    \<and> map present mcs' = map present mcs
    \<and> map fst ids = filter (\<lambda>j. present (mcs ! (j - i))) [i..<i + length mcs]"
  using assms
proof (induction mcs arbitrary: i)
  case Nil
  then show ?case by simp
next
  case (Cons mc mcs)
  obtain ids mcs' where IH: "present_list now (Suc i) mcs = Ret (ids, mcs')" "\<forall>mc\<in>set mcs'. chunk_ok mc"
    "map present mcs' = map present mcs"
    "map fst ids = filter (\<lambda>j. present (mcs ! (j - Suc i))) [Suc i..<Suc i + length mcs]"
    using Cons.IH [of "Suc i"] Cons.prems by auto
  have shift: "filter (\<lambda>j. present ((mc # mcs) ! (j - i))) [Suc i..<Suc i + length mcs]
      = filter (\<lambda>j. present (mcs ! (j - Suc i))) [Suc i..<Suc i + length mcs]"
    by (intro filter_cong) (auto simp: Suc_diff_le nth_Cons')
  have split: "[i..<i + length (mc # mcs)] = i # [Suc i..<Suc i + length mcs]"
    using upt_conv_Cons [of i "i + length (mc # mcs)"] by simp
  have ok: "chunk_ok mc" using Cons.prems by simp
  show ?case
  proof (cases "present mc")
    case True
    then obtain pm where "mc_pm mc = Some pm" using ok by (auto simp: chunk_ok_def)
    then show ?thesis
      using True ok IH shift split
      by (auto simp: pm_Checksum_def Let_def chunk_ok_def pm_inv_checksum split: prod.splits)
  next
    case False
    then show ?thesis using ok IH shift split by auto
  qed
qed

lemma chunk_steps:
  assumes inv: "core_inv c" and i: "0 \<le> i" "nat i < length (chunks c)"
  shows "\<exists>c' d'. ChunkSetPresent os_fine d c i = Ret (c', d') \<and> core_inv c'"
    and "\<exists>c' d'. ChunkSetNoPresent os_fine d c i = Ret (c', d') \<and> core_inv c'"
    and "\<exists>e c'. ChunkSetProtected c i t = Ret (e, c') \<and> core_inv c'"
    and "\<exists>c'. expire c i t = Ret c' \<and> core_inv c'"
proof -
  obtain j where j: "i = int j" "j < length (chunks c)" using i by (metis nat_0_le)
  let ?mc = "chunks c ! j"
  have ok: "chunk_ok ?mc" using inv j(2) by (rule core_chunk)
  have gc: "get_chunk c i = Ret ?mc" using j by (simp add: get_chunk_Ret)
  have sz: "unat (chunkSize c) \<le> 2 ^ 32" using inv by (simp add: core_inv_def)
  show "\<exists>c' d'. ChunkSetPresent os_fine d c i = Ret (c', d') \<and> core_inv c'"
  proof (cases "present ?mc")
    case True
    then show ?thesis using inv gc by (simp add: ChunkSetPresent_def)
  next
    case False
    obtain pm d' where pm: "pm_New os_fine d (chunkPath c i 0) (chunkSize c) = Ret (pm, d')" "pm_inv pm"
      using New_fine [OF sz] by blast
    have "core_inv ((set_chunk c (int j) (?mc\<lparr>mc_pm := Some pm, present := True\<rparr>))\<lparr>knownChunks := knownChunks c + 1\<rparr>)"
      using inv j(2) False pm(2) ok by (intro set_chunk_inv) (simp_all add: chunk_ok_def)
    then show ?thesis using False pm gc j(1) by (simp add: ChunkSetPresent_def)
  qed
  show "\<exists>c' d'. ChunkSetNoPresent os_fine d c i = Ret (c', d') \<and> core_inv c'"
  proof (cases "present ?mc")
    case False
    then show ?thesis using inv gc by (simp add: ChunkSetNoPresent_def)
  next
    case True
    then obtain pm where pm: "mc_pm ?mc = Some pm" "pm_inv pm" using ok by (auto simp: chunk_ok_def)
    obtain pm' d' where "pm_CloseAndDelete os_fine d pm = Ret (pm', d')"
      using CloseAndDelete_fine [OF pm(2)] by blast
    moreover have "core_inv ((set_chunk c (int j) (?mc\<lparr>mc_pm := None, present := False, protected := False\<rparr>))
        \<lparr>knownChunks := knownChunks c - 1\<rparr>)"
      using inv j(2) True by (intro set_chunk_inv) (simp_all add: chunk_ok_def)
    ultimately show ?thesis using True pm gc j(1) by (simp add: ChunkSetNoPresent_def)
  qed
  have up: "core_inv (set_chunk c (int j) mc)" if "chunk_ok mc" "present mc = present ?mc" for mc
    using inv j(2) that by (rule set_chunk_same)
  show "\<exists>e c'. ChunkSetProtected c i t = Ret (e, c') \<and> core_inv c'"
    using inv gc ok j(1) up [of "?mc\<lparr>protected := True, protectionTime := t\<rparr>"]
    by (auto simp: ChunkSetProtected_def chunk_ok_def)
  show "\<exists>c'. expire c i t = Ret c' \<and> core_inv c'"
    using inv gc ok j(1) up [of "?mc\<lparr>protectionTime := zero_time, protected := False\<rparr>"]
    by (auto simp: expire_def chunk_ok_def)
qed

lemma PresentChunksList_Ret:
  assumes inv: "core_inv c"
  shows "\<exists>ids c'. PresentChunksList c now = Ret (ids, c') \<and> core_inv c'
    \<and> map fst ids = filter (\<lambda>j. present (chunks c ! j)) [0..<length (chunks c)]"
proof -
  have "\<forall>mc\<in>set (chunks c). chunk_ok mc" using inv by (simp add: core_inv_def)
  from present_list_Ret [OF this, of now 0] obtain ids mcs where
    l: "present_list now 0 (chunks c) = Ret (ids, mcs)" "\<forall>mc\<in>set mcs. chunk_ok mc"
    "map present mcs = map present (chunks c)"
    "map fst ids = filter (\<lambda>j. present (chunks c ! j)) [0..<length (chunks c)]"
    by auto
  have "length (filter present xs) = length (filter id (map present xs))" for xs
    by (simp add: filter_map)
  then have "length (filter present mcs) = length (filter present (chunks c))" using l(3) by metis
  moreover have "length mcs = length (chunks c)" using l(3) by (metis length_map)
  ultimately have "core_inv (c\<lparr>chunks := mcs\<rparr>)" using inv l(2) by (auto simp: core_inv_def)
  then show ?thesis using inv l(1,4) by (simp add: PresentChunksList_def core_inv_def)
qed

lemma do_core_step:
  assumes inv: "core_inv c" and ok: "core_op_ok (length (chunks c)) op" and ret: "\<And>k v. op = CDelete k v \<Longrightarrow> core_Delete c k v \<noteq> Loop"
  shows "\<exists>c' d'. do_core (c, d) op = Ret (c', d') \<and> core_inv c'"
proof (cases op)
  case (CSet k v)
  then have "small k v" using ok by simp
  then show ?thesis by (rule core_Set_step [OF inv]) (simp add: CSet)
next
  case (CDelete k v)
  then have "8 \<le> length v" "small k []" "core_Delete c k v \<noteq> Loop" using ok ret by simp_all
  then show ?thesis by (rule core_Delete_step [OF inv]) (simp add: CDelete)
next
  case (CCas k v f)
  then have "small k v" using ok by simp
  then show ?thesis by (rule core_CAS_step [OF inv, where f = f]) (simp add: CCas)
next
  case (CList now)
  then show ?thesis using PresentChunksList_Ret [OF inv, of now] by auto
next
  case (CProtect i t)
  then show ?thesis using chunk_steps(3) [OF inv, of i t] ok by auto
next
  case (CExpire i t)
  let ?c = "c\<lparr>expirations := remove1 (i, t) (expirations c)\<rparr>"
  have "core_inv ?c" using inv by simp
  from chunk_steps(4) [OF this, of i t] show ?thesis using CExpire inv ok by auto
qed (use chunk_steps(1,2) [OF inv] ok in auto)

text \<open>Where there is room in the channel, every operation returns.\<close>

lemma core_Delete_room:
  assumes inv: "core_inv c" and v: "8 \<le> length v" and sm: "small key []" and room: "defrag_room c"
  shows "core_Delete c key v \<noteq> Loop"
proof (cases "holds c key")
  case False
  then show ?thesis using inv slot_less [OF inv] by (simp add: core_Delete_def key_chunk_slot get_chunk_Ret holds_def)
next
  case True
  obtain pm where pm: "mc_pm (chunks c ! slot c key) = Some pm" "pm_inv pm" "present (chunks c ! slot c key)"
    using held_chunk [OF inv True] by metis
  obtain e pm' where "pm_Del pm (FNV1a64 key) key v = Ret (e, pm')" using del_local [OF v sm] pm(2) unfolding local_op_def by blast
  then show ?thesis using pm inv slot_less [OF inv] room
    by (simp add: core_Delete_def key_chunk_slot get_chunk_Ret Let_def defrag_room_def)
qed

lemma do_core_returns:
  assumes inv: "core_inv c" and ok: "core_op_ok (length (chunks c)) op" and room: "core_op_room c op"
  shows "\<exists>s. do_core (c, d) op = Ret s"
proof -
  have "core_Delete c k v \<noteq> Loop" if "op = CDelete k v" for k v
    using ok room that by (intro core_Delete_room [OF inv]) simp_all
  then show ?thesis using do_core_step [OF inv ok] by blast
qed

lemma core_reach_inv:
  assumes "core_reach s s'" and "core_inv (fst s)"
  shows "core_inv (fst s')"
  using assms
proof (induction rule: core_reach.induct)
  case (core_step s c d op s')
  then have "core_inv c" by simp
  moreover have "core_Delete c k v \<noteq> Loop" if "op = CDelete k v" for k v using core_step.hyps(3) that by auto
  ultimately have "\<exists>c' d'. do_core (c, d) op = Ret (c', d') \<and> core_inv c'" using do_core_step core_step.hyps(2) by blast
  then show ?case using core_step.hyps(3) by auto
qed simp

lemma core_New_inv:
  assumes "core_New path sz n = Ret c" and "0 < n" and "n < 2 ^ 63" and "unat sz \<le> 2 ^ 32"
  shows "core_inv c"
  using assms by (auto simp: core_New_def core_inv_def new_metaChunk_def chunk_ok_def filter_replicate split: if_splits)

section \<open>Properties: the primitives\<close>

text \<open>
  C12: A server keeps what it accepts: after a \<open>Set\<close> that reports success, of a pair of less than \<open>2 ^ 62\<close> bytes whose
  key can be read back (its low hash bits are neither 0 nor 1), \<open>Get\<close> of this key returns a value at least as
  new. It is the value written if that was newer than the one before; otherwise it may be the one before,
  since \<open>Set\<close> reports success also when it drops an older value. Every other readable key reads
  as before, in this chunk and in the others.
\<close>

theorem read_your_write:
  assumes inv: "core_inv c" and set: "core_Set c key v = Ret (None, c')" and sm: "small key v"
    and rd: "readable key"
  shows "(\<exists>w. core_Get c' key = Ret (Some w, None) \<and> stamp v \<le> stamp w
      \<and> (w = v \<or> core_abs c key = Some w)
      \<and> ((\<forall>x. core_abs c key = Some x \<longrightarrow> stamp x < stamp v) \<longrightarrow> w = v))
    \<and> (\<forall>k. k \<noteq> key \<and> readable k \<longrightarrow> core_Get c' k = core_Get c k)"
proof -
  have c': "core_inv c'" "core_abs c' = lww stamp key v (core_abs c)" "\<And>k. holds c' k = holds c k"
    "holds c key"
    by (rule core_Set_step [OF inv sm]; use set in simp)+
  have "core_Get c' k = core_Get c k" if "k \<noteq> key" and "readable k" for k
    using core_Get_abs [OF c'(1) that(2)] core_Get_abs [OF inv that(2)] that(1) c'(2,3)
    by (simp add: lww_def split: option.splits)
  moreover have "core_Get c' key = Ret (lww stamp key v (core_abs c) key, None)"
    using core_Get_abs [OF c'(1) rd] c'(2-4) by simp
  ultimately show ?thesis by (auto simp: lww_def not_le split: option.splits)
qed

theorem read_your_write_witness:
  "core_Get (ex_core ex_map1) ex_key = Ret (Some (ex_val 5), None)"
proof -
  have "core_abs (ex_core ex_map) ex_key = None"
    by (simp add: core_abs_def) (simp add: ex_core_def chunk_abs_def ex_map_rep)
  with read_your_write [OF ex_core_inv [OF ex_map_inv] ex_core_set _ ex_key_readable] show ?thesis by auto
qed

text \<open>
  C13: Servers converge: two servers that offer the same pairs and accept the same writes, in
  any order and with any repetitions, offer the same pairs afterwards, provided no two
  different values of a key carry the same stamp.
\<close>

theorem servers_converge:
  assumes "core_inv a" and "core_inv b" and "core_abs a = core_abs b"
    and "puts core_put a ws = Some a'" and "puts core_put b ws' = Some b'"
    and "set ws = set ws'" and "no_ties stamp (set ws)"
  shows "core_abs a' = core_abs b'"
  using assms by (rule srv.convergence)

theorem servers_converge_witness:
  "\<exists>a' b'. puts core_put (ex_core ex_map) [(ex_key, ex_val 5)] = Some a'
    \<and> puts core_put (ex_core ex_map) [(ex_key, ex_val 5), (ex_key, ex_val 5)] = Some b'
    \<and> core_abs a' = core_abs b'"
proof -
  have a: "core_put (ex_core ex_map) ex_key (ex_val 5) = Some (ex_core ex_map1)"
    using ex_core_set by (simp add: core_put_def)
  obtain l where l: "pm_rep ex_map1 l" using ex_map1(1) by (auto simp: pm_inv_def)
  have sm: "small ex_key (ex_val 5)" by simp
  obtain pm where "pm_Set ex_map1 (FNV1a64 ex_key) ex_key (ex_val 5) = Ret (None, pm)"
    using set_step [OF l sm] ex_map1(2) ex_map1_room(1) by (auto simp: step_to_def set_spec_def)
  then have b: "core_put (ex_core ex_map1) ex_key (ex_val 5) = Some (ex_core pm)"
    using ex_core_inv [OF ex_map1(1)]
    by (simp add: core_put_def core_Set_def key_chunk_slot)
      (simp add: ex_core_def get_chunk_def index_of_def set_chunk_def)
  have runs: "puts core_put (ex_core ex_map) [(ex_key, ex_val 5)] = Some (ex_core ex_map1)"
    "puts core_put (ex_core ex_map) [(ex_key, ex_val 5), (ex_key, ex_val 5)] = Some (ex_core pm)"
    using a b by simp_all
  have i: "core_inv (ex_core ex_map)" using ex_core_inv [OF ex_map_inv] .
  have "core_abs (ex_core ex_map1) = core_abs (ex_core pm)"
    by (rule servers_converge [OF i i refl runs]) (simp_all add: no_ties_def)
  with runs show ?thesis by blast
qed

text \<open>
  C14: The bookkeeping of a server is sound: after any run on a new core of calls of \<open>Set\<close>, \<open>Delete\<close>, \<open>CAS\<close>,
  \<open>ChunkSetPresent\<close>, \<open>ChunkSetNoPresent\<close>, \<open>ChunkSetProtected\<close> and \<open>PresentChunksList\<close> and of ends of protections,
  with chunk numbers within range, pairs of less than \<open>2 ^ 62\<close> bytes and deletions with a time stamp, on
  a system whose calls succeed: \<open>PresentChunks\<close> is the number of present chunks, \<open>PresentChunksList\<close> returns exactly
  their numbers in increasing order, and every further operation of this kind returns without panic, a deletion
  as long as there is room in the channel of the defragmenter. \<open>Open\<close>, \<open>Close\<close> and the work of the
  defragmenter are not part of the runs.
\<close>

theorem core_runs:
  assumes "core_New path sz n = Ret c0" and "0 < n" and "n < 2 ^ 63" and "unat sz \<le> 2 ^ 32"
    and "core_reach (c0, d0) (c, d)"
  shows "PresentChunks c = int (length (filter present (chunks c)))
    \<and> (\<forall>now. \<exists>ids c'. PresentChunksList c now = Ret (ids, c')
          \<and> map fst ids = filter (\<lambda>j. present (chunks c ! j)) [0..<length (chunks c)])
    \<and> (\<forall>op. core_op_ok (length (chunks c)) op \<and> core_op_room c op \<longrightarrow> (\<exists>s. do_core (c, d) op = Ret s))"
proof -
  have inv: "core_inv c" using core_reach_inv [OF assms(5)] core_New_inv [OF assms(1-4)] by simp
  then show ?thesis
    using PresentChunksList_Ret do_core_returns by (fastforce simp: PresentChunks_def core_inv_def)
qed

theorem core_runs_witness:
  "\<exists>c0 c d. core_New [] 256 2 = Ret c0 \<and> core_reach (c0, Map.empty) (c, d) \<and> PresentChunks c = 1"
proof -
  obtain c0 where c0: "core_New [] 256 2 = Ret c0" "length (chunks c0) = 2" "chunks c0 ! 1 = new_metaChunk"
    "chunkSize c0 = 256" "knownChunks c0 = 0"
    by (auto simp: core_New_def numeral_2_eq_2)
  have inv: "core_inv c0" using c0(1) by (rule core_New_inv) simp_all
  have sz: "unat (256 :: u64) \<le> 2 ^ 32" by simp
  obtain pm d where pm: "pm_New os_fine Map.empty (chunkPath c0 1 0) 256 = Ret (pm, d)"
    using New_fine [OF sz] by blast
  let ?c = "(set_chunk c0 1 (new_metaChunk\<lparr>mc_pm := Some pm, present := True\<rparr>))\<lparr>knownChunks := 1\<rparr>"
  have "do_core (c0, Map.empty) (CPresent 1) = Ret (?c, d)"
    using c0 pm by (simp add: ChunkSetPresent_def get_chunk_def index_of_def new_metaChunk_def)
  then have r: "core_reach (c0, Map.empty) (?c, d)"
    by (rule core_reach.core_step [OF core_reach.core_start, rotated]) (simp add: c0)
  have "PresentChunks ?c = int (length (filter present (chunks ?c)))"
    using core_runs [OF c0(1) _ _ _ r] by simp
  with c0(1) r show ?thesis by (auto simp: PresentChunks_def)
qed

end
