(* ===== verification/Core_Defrag.thy ===== *)
theory Core_Defrag
  imports Core_Props
begin

text \<open>
  What the defragmenter (src/core/defrag.go) does to a server: it replaces the map of a chunk
  by a new one that holds the same live pairs and no dead record.
\<close>

section \<open>Lemmas: copying a map\<close>

lemma survivors_subset: "set (survivors l) \<subseteq> set l"
  by (induction l rule: survivors.induct) auto

lemma survivors_value: "(k, v) \<in> set (survivors l) \<Longrightarrow> v \<noteq> []"
  by (induction l rule: survivors.induct) (auto split: if_splits)

lemma survivors_size: "log_size (survivors l) \<le> log_size l"
  by (induction l rule: survivors.induct) auto

lemma survivors_id: "distinct (map fst l) \<Longrightarrow> \<forall>(k, v)\<in>set l. v \<noteq> [] \<Longrightarrow> survivors l = l"
  by (induction l rule: survivors.induct) auto

lemma pairs_bound:
  assumes r: "pm_rep c l" and lim: "unat (sizeLimit (pm_hm c)) \<le> 2 ^ 26"
  shows "length (pm_pairs c) \<le> 46976204"
proof -
  let ?h = "pm_hm c"
  have hm: "hm_inv ?h" using r by (simp add: pm_rep_def)
  then obtain k where sh: "hm_shape ?h k" by (auto simp: hm_inv_def)
  note d = hm_shapeD [OF sh]
  have "(2 :: nat) ^ k \<le> 2 ^ 26" using hm lim d(2) by (simp add: hm_inv_def)
  then have "(2 ^ k * 6305039478318694) div 2 ^ 53 \<le> (2 ^ 26 * 6305039478318694) div (2 ^ 53 :: nat)"
    by (intro div_le_mono mult_le_mono1)
  then have "unat (numKeysToExpand ?h) \<le> 46976204"
    using load_limit_unat [OF d(1)] sh by (simp add: hm_shape_def)
  moreover have "used ?h \<le> unat (numKeysToExpand ?h)"
    using hm by (simp add: hm_inv_def word_le_nat_alt)
  moreover have "length (entries ?h) \<le> used ?h"
    unfolding entries_def used_def
    by (induction "[0..<unat (hm_size ?h)]" rule: length_induct)
      (simp add: length_filter_conv_card; rule card_mono; auto)
  ultimately show ?thesis using pm_pairs_live [OF r] by (simp add: live_def)
qed

text \<open>One call of the callback, for a key that the new map does not hold.\<close>

lemma defrag_pair_step:
  assumes r: "pm_rep pm l" and abs: "pm_abs pm = replay l" and new: "replay l k = None"
    and v: "8 \<le> length v" and room: "can_insert pm" and fit: "fits (pm_st pm) k v"
  obtains pm' where "defrag_pair k v pm = Ret (True, pm')" and "pm_rep pm' (l @ [(k, v)])"
    and "pm_abs pm' = replay (l @ [(k, v)])" and "same_limits pm pm'"
    and "sum_defect pm' = sum_defect pm"
proof -
  have "store_inv (pm_st pm) l" using r by (simp add: pm_rep_def)
  then have "small k v" using fit by (rule fits_small)
  from set_step [OF r this] obtain e pm' l' where s: "pm_Set pm (FNV1a64 k) k v = Ret (e, pm')"
    "pm_rep pm' l'" "same_limits pm pm'" "extends l' l k (pm_abs pm)" "sum_defect pm' = sum_defect pm"
    "e \<noteq> Some store_full \<Longrightarrow> pm_abs pm' = replay l'"
    "set_spec (can_insert pm) (fits (pm_st pm) k v) (pm_abs pm) k v = (e, pm_abs pm')"
    unfolding step_to_def using abs by auto
  have e: "e = None" "pm_abs pm' = (replay l)(k \<mapsto> v)"
    using s(7) v room fit new abs by (simp_all add: set_spec_def)
  have re: "replay l' k = Some v" using s(6) e by (metis fun_upd_same option.distinct(1))
  then have "l' \<noteq> l" using new by auto
  then obtain w where w: "l' = l @ [(k, w)]" using s(4) by (auto simp: extends_def)
  then have "w = v" using re by (cases "w = []") (simp_all add: replay_snoc)
  then show thesis using that [of pm'] s e(1) w by (simp add: defrag_pair_def)
qed

lemma copy_run:
  assumes "pm_rep pm l" and "pm_abs pm = replay l" and "distinct (map fst (l @ ps))"
    and "\<forall>(k, v)\<in>set ps. 8 \<le> length v" and "log_size (l @ ps) < unat (st_size (pm_st pm)) \<or> ps = []"
    and "unat (sizeLimit (pm_hm pm)) = 2 ^ 26" and "used (pm_hm pm) + length ps \<le> 46976204"
  shows "\<exists>pm'. run_each defrag_pair ps pm = Ret pm' \<and> pm_rep pm' (l @ ps) \<and> pm_abs pm' = replay (l @ ps)
    \<and> sum_defect pm' = sum_defect pm"
  using assms
proof (induction ps arbitrary: pm l)
  case (Cons p ps)
  obtain k v where p: "p = (k, v)" by fastforce
  have "unat (load_limit (2 ^ 26)) = 46976204" by (simp add: load_limit_def)
  then have room: "can_insert pm"
    using can_insert_used [OF Cons.prems(1), of 26] Cons.prems(6,7) by simp
  have st: "store_inv (pm_st pm) l" using Cons.prems(1) by (simp add: pm_rep_def)
  have fit: "fits (pm_st pm) k v"
    using Cons.prems(5) store_inv_mapped(4) [OF st] p by (simp add: fits_def)
  have "k \<notin> fst ` set l" using Cons.prems(3) p by auto
  then have new: "replay l k = None" by (simp add: replay_def replay_absent)
  have v: "8 \<le> length v" using Cons.prems(4) p by simp
  obtain pm' where pm': "defrag_pair k v pm = Ret (True, pm')" "pm_rep pm' (l @ [(k, v)])"
    "pm_abs pm' = replay (l @ [(k, v)])" "same_limits pm pm'" "sum_defect pm' = sum_defect pm"
    by (rule defrag_pair_step [OF Cons.prems(1,2) new v room fit])
  have "\<exists>pm''. run_each defrag_pair ps pm' = Ret pm'' \<and> pm_rep pm'' ((l @ [(k, v)]) @ ps)
      \<and> pm_abs pm'' = replay ((l @ [(k, v)]) @ ps) \<and> sum_defect pm'' = sum_defect pm'"
    using pm'(2,3)
    by (rule Cons.IH) (use Cons.prems(3-7) p pm'(4) in \<open>auto simp: same_limits_def\<close>)
  then show ?case using pm'(1,5) p by simp
qed simp

lemma peeks_keys: "map fst (peeks z l) = map fst l"
  by (induction l rule: peeks.induct) auto

lemma survivors_stamped:
  assumes "pm_rep c l" and "pm_abs c = replay l"
  shows "\<forall>(k, v)\<in>set (survivors l). 8 \<le> length v"
proof clarify
  fix k v assume "(k, v) \<in> set (survivors l)"
  then have "pm_abs c k = Some v"
    using map_of_is_SomeI [OF survivors_distinct] survivors_map [of l k] assms(2)
    by (simp add: replay_def)
  then show "8 \<le> length v" using pm_abs_stamped [OF assms(1)] by blast
qed

lemma New_size: "pm_New os d path sz = Ret (pm, d') \<Longrightarrow> st_size (pm_st pm) = sz"
  by (auto simp: pm_New_def newStore_def Let_def bindG_eq_Ret split: if_splits)

lemma ex_map1_limit: "unat (sizeLimit (pm_hm ex_map1)) \<le> 2 ^ 26"
proof -
  have "same_limits ex_map ex_map1"
    using put_ok_map [OF ex_map_rep(1), of ex_key "ex_val 5"] ex_map_room(1,2) ex_map_rep
    by (auto simp: ex_map1_def)
  moreover have "sizeLimit (pm_hm ex_map) = 64"
    using newHashMap_core [of 2 64] by (simp add: ex_map_def)
  ultimately show ?thesis by (simp add: same_limits_def)
qed

lemma copy_map:
  assumes it: "iterable old l" and lim: "unat (sizeLimit (pm_hm old)) \<le> 2 ^ 26"
    and new: "pm_New os d path (st_size (pm_st old)) = Ret (pm, d')"
  obtains pm' where "pm_Iterate old defrag_pair pm = Ret pm'" and "iterable pm' (survivors l)"
    and "pm_abs pm' = pm_abs old" and "sum_defect pm' = 0"
proof -
  have r: "pm_rep old l" and abs: "pm_abs old = replay l" and rd: "\<forall>(k, v)\<in>set l. readable k"
    using it by (simp_all add: iterable_def)
  have st: "store_inv (pm_st old) l" using r by (simp add: pm_rep_def)
  have run: "pm_Iterate old defrag_pair pm = run_each defrag_pair (survivors l) pm" using it by (rule Iterate_run)
  have "unat (st_size (pm_st old)) \<le> 2 ^ 32" using st by (simp add: store_inv_def)
  note n = New_rep [OF new this]
  have size: "st_size (pm_st pm) = st_size (pm_st old)" using new by (rule New_size)
  have m: "mset (survivors l) = mset (pm_pairs old)" using r abs by (rule survivors_pairs)
  then have few: "length (survivors l) \<le> 46976204"
    using pairs_bound [OF r lim] by (metis size_mset)
  have fit: "log_size ([] @ survivors l) < unat (st_size (pm_st pm)) \<or> survivors l = []"
    using survivors_size [of l] st size by (auto simp: store_inv_def)
  have e: "pm_abs pm = replay []" using n(2) by (simp add: pm_abs_def replay_def)
  have "unat (sizeLimit (pm_hm pm)) = 2 ^ 26" using n(4) by simp
  from copy_run [OF n(1) e _ survivors_stamped [OF r abs] fit this] obtain pm' where
    pm': "run_each defrag_pair (survivors l) pm = Ret pm'" "pm_rep pm' (survivors l)"
    "pm_abs pm' = replay (survivors l)" "sum_defect pm' = 0"
    using survivors_distinct [of l] few n(3,5) by auto
  have "distinct (peeks z (survivors l))" for z
    using survivors_distinct [of l] peeks_keys [of z "survivors l"] by (metis distinct_map)
  then have "iterable pm' (survivors l)"
    using pm'(2,3) rd survivors_subset [of l] by (auto simp: iterable_def)
  moreover have "pm_abs pm' = pm_abs old"
  proof
    fix k
    have "survivors (survivors l) = survivors l"
      using survivors_distinct [of l] survivors_value by (intro survivors_id) auto
    then show "pm_abs pm' k = pm_abs old k"
      using survivors_map [of l k] survivors_map [of "survivors l" k] pm'(3) abs by (simp add: replay_def)
  qed
  ultimately show thesis using that run pm' by simp
qed

lemma defrag_run:
  assumes "core_inv c" and "i < length (chunks c)" and "mc_pm (chunks c ! i) = Some old"
    and "iterable old l" and "st_size (pm_st old) = chunkSize c"
    and "unat (sizeLimit (pm_hm old)) \<le> 2 ^ 26"
  shows "\<exists>c' d' pm ps. defrag os_fine d c (int i) = Ret (c', d') \<and> core_inv c' \<and> core_abs c' = core_abs c \<and> length (chunks c') = length (chunks c)
    \<and> mc_pm (chunks c' ! i) = Some pm \<and> iterable pm ps \<and> mset ps = mset (pm_pairs old)
    \<and> newChecksum (pm_checksum pm) = pair_sum ps"
proof -
  let ?mc = "chunks c ! i"
  have ok: "chunk_ok ?mc" using assms(1,2) by (rule core_chunk)
  have sz: "unat (chunkSize c) \<le> 2 ^ 32" using assms(1) by (simp add: core_inv_def)
  let ?path = "if dbpath c = [] then [] else chunkPath c (int i) (revision ?mc + 1)"
  obtain pm0 d1 where pm0: "pm_New os_fine d ?path (chunkSize c) = Ret (pm0, d1)"
    using New_fine [OF sz] by blast
  have "pm_New os_fine d ?path (st_size (pm_st old)) = Ret (pm0, d1)" using pm0 assms(5) by simp
  from copy_map [OF assms(4,6) this] obtain pm where pm: "pm_Iterate old defrag_pair pm0 = Ret pm"
    "iterable pm (survivors l)" "pm_abs pm = pm_abs old" "sum_defect pm = 0" by blast
  have rep: "pm_rep pm (survivors l)" using pm(2) by (simp add: iterable_def)
  have old: "pm_inv old" using assms(4) by (auto simp: iterable_def pm_inv_def)
  obtain old' d2 where "pm_CloseAndDelete os_fine d1 old = Ret (old', d2)"
    using CloseAndDelete_fine [OF old] by blast
  then have run: "defrag os_fine d c (int i)
      = Ret (set_chunk c (int i) (?mc\<lparr>mc_pm := Some pm, revision := revision ?mc + 1\<rparr>), d2)"
    using assms(2,3) pm(1) pm0 by (auto simp: defrag_def get_chunk_Ret Let_def)
  let ?c = "set_chunk c (int i) (?mc\<lparr>mc_pm := Some pm, revision := revision ?mc + 1\<rparr>)"
  have "core_inv ?c"
    using ok assms(3) rep by (intro set_chunk_same [OF assms(1,2)]) (auto simp: chunk_ok_def pm_inv_def)
  moreover have "core_abs ?c = core_abs c"
    using assms(2,3) pm(3) by (auto simp: fun_eq_iff core_abs_def chunk_abs_def set_chunk_def slot_def nth_list_update)
  moreover have "mc_pm (chunks ?c ! i) = Some pm" using assms(2) by (simp add: set_chunk_def)
  moreover have m: "mset (survivors l) = mset (pm_pairs old)"
    using assms(4) by (intro survivors_pairs) (simp_all add: iterable_def)
  moreover have "newChecksum (pm_checksum pm) = pair_sum (survivors l)"
  proof -
    have "mset (survivors (survivors l)) = mset (pm_pairs pm)"
      using pm(2) by (intro survivors_pairs) (simp_all add: iterable_def)
    moreover have "survivors (survivors l) = survivors l"
      using survivors_distinct [of l] survivors_value by (intro survivors_id) auto
    ultimately have "pair_sum (survivors l) = pair_sum (pm_pairs pm)" by (intro pair_sum_mset) simp
    then show ?thesis using pm(4) by (simp add: sum_defect_def)
  qed
  moreover have "length (chunks ?c) = length (chunks c)" by simp
  ultimately show ?thesis using run pm(2) by blast
qed

section \<open>Properties\<close>



end
