(* ===== verification/Core_State.thy ===== *)
theory Core_State
  imports Core_Defrag
begin

text \<open>
  The rest of the state of a server (src/core/core.go): the names of the chunk files, the
  protection of chunks and its expiry, and what \<open>Open\<close> leaves out.
\<close>

section \<open>Specification\<close>

text \<open>The name of a chunk file, and the protections that some goroutine will end.\<close>

definition chunk_name :: "int \<Rightarrow> int \<Rightarrow> string" where
  "chunk_name i r = dec_int i @ ''_rev'' @ dec_int r"

definition protections_pending :: "core \<Rightarrow> bool" where
  "protections_pending c \<longleftrightarrow> (\<forall>i < length (chunks c). protected (chunks c ! i) \<longrightarrow>
     (int i, protectionTime (chunks c ! i)) \<in> set (expirations c))"

section \<open>Lemmas: decimal numerals\<close>

fun undec :: "nat \<Rightarrow> string \<Rightarrow> nat" where
  "undec n [] = n"
| "undec n (ch # s) = undec (10 * n + (of_char ch - 48)) s"

lemma undec_append: "undec n (s @ [ch]) = 10 * undec n s + (of_char ch - 48)"
  by (induction s arbitrary: n) auto

lemma undec_dec: "undec 0 (dec_nat n) = n"
proof (induction n rule: dec_nat.induct)
  case (1 n)
  have d: "of_char (char_of (48 + m) :: char) - 48 = m" if "m < 10" for m :: nat
    using that by (simp add: of_char_of)
  show ?case
  proof (cases "n < 10")
    case True
    then show ?thesis using d [of n] by (simp add: dec_nat.simps [of n])
  next
    case False
    then show ?thesis using 1 d [of "n mod 10"] by (simp add: dec_nat.simps [of n] undec_append)
  qed
qed

lemma dec_nat_digits: "ch \<in> set (dec_nat n) \<Longrightarrow> 48 \<le> (of_char ch :: nat) \<and> (of_char ch :: nat) \<le> 57"
proof (induction n rule: dec_nat.induct)
  case (1 n)
  have d: "48 \<le> (of_char (char_of (48 + m) :: char) :: nat) \<and> (of_char (char_of (48 + m) :: char) :: nat) \<le> 57"
    if "m < 10" for m :: nat
    using that by (simp add: of_char_of)
  show ?case
    using 1 d [of n] d [of "n mod 10"] by (auto simp: dec_nat.simps [of n] split: if_splits)
qed

lemma dec_int_inj: "dec_int i = dec_int j \<Longrightarrow> i = j"
proof -
  assume eq: "dec_int i = dec_int j"
  have neg: "CHR ''-'' \<notin> set (dec_nat n)" for n using dec_nat_digits [of "CHR ''-''" n] by auto
  have inj: "dec_nat m = dec_nat n \<Longrightarrow> m = n" for m n by (metis undec_dec)
  have ne: "dec_nat n \<noteq> CHR ''-'' # s" for n s using neg [of n] by (metis list.set_intros(1))
  show "i = j"
    using eq ne [of "nat i"] ne [of "nat j"] inj [of "nat i" "nat j"] inj [of "nat (- i)" "nat (- j)"]
    by (auto simp: dec_int_def split: if_splits) (metis ne)+
qed

lemma dec_int_no_underscore: "CHR ''_'' \<notin> set (dec_int i)"
  using dec_nat_digits [of "CHR ''_''"] by (auto simp: dec_int_def)

lemma chunk_name_prefix:
  "take (length (dec_int i @ ''_rev'')) (chunk_name j r) = dec_int i @ ''_rev'' \<longleftrightarrow> i = j"
proof
  assume "take (length (dec_int i @ ''_rev'')) (chunk_name j r) = dec_int i @ ''_rev''"
  then obtain s where "chunk_name j r = dec_int i @ CHR ''_'' # s"
    by (metis append.assoc append_Cons append_take_drop_id)
  then have "dec_int j @ CHR ''_'' # (''rev'' @ dec_int r) = dec_int i @ CHR ''_'' # s"
    by (simp add: chunk_name_def)
  then have "takeWhile (\<lambda>ch. ch \<noteq> CHR ''_'') (dec_int j @ CHR ''_'' # (''rev'' @ dec_int r))
      = takeWhile (\<lambda>ch. ch \<noteq> CHR ''_'') (dec_int i @ CHR ''_'' # s)" by simp
  moreover have "takeWhile (\<lambda>ch. ch \<noteq> CHR ''_'') (dec_int k @ CHR ''_'' # t) = dec_int k" for k t
    using dec_int_no_underscore [of k] by (subst takeWhile_append2) auto
  ultimately show "i = j" using dec_int_inj by metis
qed (simp add: chunk_name_def)

section \<open>Properties: files\<close>

text \<open>
  The names of the chunk files are unambiguous: in a directory that holds only chunk
  files, \<open>findChunk\<close> returns the path of a file of that very chunk (of chunk 1 and not of
  chunk 11, say), and returns the empty path exactly when the chunk has no file.
\<close>

lemma findChunk_finds:
  assumes "dbpath c \<noteq> []" and "files = map (\<lambda>(j, r). chunk_name j r) ids"
  shows "(\<exists>r. (i, r) \<in> set ids \<and> findChunk c files i = chunkPath c i r)
    \<or> (i \<notin> fst ` set ids \<and> findChunk c files i = [])"
proof -
  define P where "P = (\<lambda>name. take (length (dec_int i @ ''_rev'')) name = dec_int i @ ''_rev'')"
  have P: "P (chunk_name j r) \<longleftrightarrow> i = j" for j r
    unfolding P_def by (rule chunk_name_prefix)
  have fc: "findChunk c files i = (case List.find P files of None \<Rightarrow> [] | Some name \<Rightarrow> dbpath c @ ''/chunks/'' @ name)"
    using assms(1) by (simp add: findChunk_def P_def)
  show ?thesis
  proof (cases "List.find P files")
    case None
    then have "\<not> P (chunk_name j r)" if "(j, r) \<in> set ids" for j r
      using that assms(2) by (force simp: find_None_iff)
    then have "i \<notin> fst ` set ids" using P by force
    then show ?thesis using None fc by simp
  next
    case (Some name)
    then obtain k where "k < length files" "P (files ! k)" "name = files ! k"
      unfolding find_Some_iff by (elim exE conjE)
    then have "name \<in> set files" "P name" by simp_all
    then obtain j r where "(j, r) \<in> set ids" "name = chunk_name j r" using assms(2) by auto
    moreover then have "i = j" using \<open>P name\<close> P by simp
    ultimately show ?thesis using Some fc assms(1) by (auto simp: chunkPath_def chunk_name_def)
  qed
qed

section \<open>Lemmas: protections\<close>

lemma pending_frame [simp]:
  "protections_pending (c\<lparr>defragChannel := q\<rparr>) = protections_pending c"
  "protections_pending (c\<lparr>knownChunks := n\<rparr>) = protections_pending c"
  by (simp_all add: protections_pending_def)

lemma pending_set_chunk:
  assumes "protections_pending c" and "get_chunk c i = Ret mc"
    and "protected mc' \<Longrightarrow> protected mc \<and> protectionTime mc' = protectionTime mc"
  shows "protections_pending (set_chunk c i mc')"
  using assms
  by (auto simp: protections_pending_def get_chunk_eq set_chunk_def nth_list_update)

lemma pending_data:
  assumes "protections_pending c"
  shows "core_Set c k v = Ret (e, c') \<Longrightarrow> protections_pending c'"
    and "core_Delete c k v = Ret (e, c') \<Longrightarrow> protections_pending c'"
    and "core_CAS c k v f = Ret (e, c') \<Longrightarrow> protections_pending c'"
    and "ChunkSetPresent os d c i = Ret (c', d') \<Longrightarrow> protections_pending c'"
    and "ChunkSetNoPresent os d c i = Ret (c', d') \<Longrightarrow> protections_pending c'"
  using assms
  by (auto simp: core_Set_def core_Delete_def core_CAS_def ChunkSetPresent_def ChunkSetNoPresent_def
      Let_def bindG_eq_Ret split: if_splits option.splits intro!: pending_set_chunk)

lemma pending_protect:
  assumes "protections_pending c" and "ChunkSetProtected c i t = Ret (e, c')"
  shows "protections_pending c'"
  using assms
  by (auto simp: ChunkSetProtected_def bindG_eq_Ret protections_pending_def get_chunk_eq set_chunk_def
      nth_list_update split: if_splits)

lemma pending_expire:
  assumes pd: "protections_pending c"
    and ex: "expire (c\<lparr>expirations := remove1 (i, t) (expirations c)\<rparr>) i t = Ret c'"
  shows "protections_pending c'"
  unfolding protections_pending_def
proof (intro allI impI)
  fix j assume j: "j < length (chunks c')" "protected (chunks c' ! j)"
  define c1 where "c1 = c\<lparr>expirations := remove1 (i, t) (expirations c)\<rparr>"
  have c1: "expirations c1 = remove1 (i, t) (expirations c)" "chunks c1 = chunks c"
    by (simp_all add: c1_def)
  have ex: "expire c1 i t = Ret c'" using ex by (simp add: c1_def)
  then obtain mc where "get_chunk c1 i = Ret mc" by (auto simp: expire_def bindG_eq_Ret)
  then have i: "0 \<le> i" "nat i < length (chunks c)" and mc: "mc = chunks c ! nat i"
    and g: "get_chunk c1 i = Ret mc"
    by (simp_all add: get_chunk_eq c1)
  have keep: "expirations c' = remove1 (i, t) (expirations c)" "length (chunks c') = length (chunks c)"
    using ex g c1 by (auto simp: expire_def set_chunk_def split: if_splits)
  have same: "chunks c' ! j = chunks c ! j \<and> (int j = i \<longrightarrow> protectionTime mc \<noteq> t)"
  proof (cases "protectionTime mc = t")
    case True
    then have "chunks c' = (chunks c)[nat i := mc\<lparr>protectionTime := zero_time, protected := False\<rparr>]"
      using ex g c1 by (auto simp: expire_def set_chunk_def)
    then show ?thesis using i j by (cases "j = nat i") auto
  next
    case False
    then show ?thesis using ex g c1 by (auto simp: expire_def)
  qed
  then have "(int j, protectionTime (chunks c ! j)) \<in> set (expirations c)"
    using pd j keep by (simp add: protections_pending_def)
  moreover have "(int j, protectionTime (chunks c ! j)) \<noteq> (i, t)" using same mc by auto
  ultimately show "(int j, protectionTime (chunks c' ! j)) \<in> set (expirations c')"
    using keep same by (simp add: in_set_remove1)
qed

lemma present_list_protections:
  "present_list now i mcs = Ret (ids, mcs') \<Longrightarrow>
     map protected mcs' = map protected mcs \<and> map protectionTime mcs' = map protectionTime mcs"
  by (induction now i mcs arbitrary: ids mcs' rule: present_list.induct)
    (auto simp: bindG_eq_Ret pm_Checksum_def Let_def split: if_splits option.splits prod.splits)

lemma pending_list:
  assumes "protections_pending c" and "PresentChunksList c now = Ret (ids, c')"
  shows "protections_pending c'"
proof -
  obtain mcs where mcs: "present_list now 0 (chunks c) = Ret (ids, mcs)" "c' = c\<lparr>chunks := mcs\<rparr>"
    using assms(2) by (auto simp: PresentChunksList_def bindG_eq_Ret split: if_splits)
  note p = present_list_protections [OF mcs(1)]
  then have "length mcs = length (chunks c)" by (metis length_map)
  moreover have "protected (mcs ! i) = protected (chunks c ! i)"
    "protectionTime (mcs ! i) = protectionTime (chunks c ! i)" if "i < length mcs" for i
    using p that by (metis length_map nth_map)+
  ultimately show ?thesis using assms(1) mcs(2) by (simp add: protections_pending_def)
qed

lemma pending_step:
  assumes "protections_pending c" and "do_core (c, d) op = Ret (c', d')"
  shows "protections_pending c'"
proof (cases op)
  case (CExpire i t)
  then show ?thesis
    using assms by (auto simp: bindG_eq_Ret split: if_splits dest: pending_expire)
qed (use assms in \<open>auto simp: bindG_eq_Ret dest: pending_data pending_protect pending_list\<close>)

lemma pending_reach: "core_reach s s' \<Longrightarrow> protections_pending (fst s) \<Longrightarrow> protections_pending (fst s')"
proof (induction rule: core_reach.induct)
  case (core_step s c d op s')
  then show ?case using pending_step [of c d op "fst s'" "snd s'"] by simp
qed simp

section \<open>Properties: protections and opening\<close>

text \<open>
  C16: A protection always ends, and only its own timer ends it: after any run of operations
  on a new server, a protected chunk has a pending timer with the instant of its last
  protection, which clears the flag when it fires, while the timer of an earlier
  protection leaves the server as it is.
\<close>

theorem protection_expires:
  assumes "core_New path sz n = Ret c0" and "core_reach (c0, d0) (c, d)"
    and "i < length (chunks c)" and "IsProtected c (int i) = Ret True"
  shows "\<exists>t. (int i, t) \<in> set (expirations c)
    \<and> (\<exists>c'. expire c (int i) t = Ret c' \<and> IsProtected c' (int i) = Ret False)
    \<and> (\<forall>t'. t' \<noteq> t \<longrightarrow> expire c (int i) t' = Ret c)"
proof -
  have "protections_pending c0"
    using assms(1) by (auto simp: core_New_def protections_pending_def new_metaChunk_def split: if_splits)
  then have "protections_pending c" using pending_reach [OF assms(2)] by simp
  moreover have "protected (chunks c ! i)"
    using assms(3,4) by (simp add: IsProtected_def get_chunk_Ret)
  ultimately show ?thesis
    using assms(3)
    by (intro exI [of _ "protectionTime (chunks c ! i)"])
      (auto simp: protections_pending_def expire_def get_chunk_Ret IsProtected_def get_chunk_def
        index_of_def set_chunk_def)
qed

lemma New_present:
  "\<exists>c0 c d. core_New [] 256 2 = Ret c0 \<and> core_reach (c0, Map.empty) (c, d) \<and> length (chunks c) = 2
    \<and> present (chunks c ! 1)"
proof -
  obtain c0 where c0: "core_New [] 256 2 = Ret c0" "length (chunks c0) = 2" "chunks c0 ! 1 = new_metaChunk"
    "chunkSize c0 = 256"
    by (auto simp: core_New_def numeral_2_eq_2)
  have sz: "unat (256 :: u64) \<le> 2 ^ 32" by simp
  obtain pm d where pm: "pm_New os_fine Map.empty (chunkPath c0 1 0) 256 = Ret (pm, d)"
    using New_fine [OF sz] by blast
  let ?c = "(set_chunk c0 1 (new_metaChunk\<lparr>mc_pm := Some pm, present := True\<rparr>))\<lparr>knownChunks := knownChunks c0 + 1\<rparr>"
  have "do_core (c0, Map.empty) (CPresent 1) = Ret (?c, d)"
    using c0 pm by (simp add: ChunkSetPresent_def get_chunk_def index_of_def new_metaChunk_def)
  then have r: "core_reach (c0, Map.empty) (?c, d)"
    by (rule core_reach.core_step [OF core_reach.core_start, rotated]) (simp add: c0)
  have "length (chunks ?c) = 2" "present (chunks ?c ! 1)" using c0 by (simp_all add: set_chunk_def)
  with c0(1) r show ?thesis by blast
qed

theorem protection_expires_witness:
  "\<exists>c c'. IsProtected c 1 = Ret True \<and> expire c 1 7 = Ret c' \<and> IsProtected c' 1 = Ret False"
proof -
  obtain c0 c d where c: "core_New [] 256 2 = Ret c0" "core_reach (c0, Map.empty) (c, d)"
    "length (chunks c) = 2" "present (chunks c ! 1)"
    using New_present by blast
  define mc where "mc = (chunks c ! 1)\<lparr>protected := True, protectionTime := 7\<rparr>"
  define c2 where "c2 = (set_chunk c 1 mc)\<lparr>expirations := expirations c @ [(1, 7)]\<rparr>"
  have mc: "protected mc" "protectionTime mc = 7" by (simp_all add: mc_def)
  have "do_core (c, d) (CProtect 1 7) = Ret (c2, d)"
    using c by (simp add: ChunkSetProtected_def get_chunk_def index_of_def c2_def mc_def)
  then have r: "core_reach (c0, Map.empty) (c2, d)"
    by (rule core_reach.core_step [OF c(2), rotated]) (simp add: c(3))
  have l: "1 < length (chunks c2)" using c(3) by (simp add: c2_def set_chunk_def)
  have g: "get_chunk c2 (int 1) = Ret mc"
    unfolding get_chunk_Ret [OF l] using c(3) by (simp add: c2_def set_chunk_def)
  then have p: "IsProtected c2 (int 1) = Ret True" using mc by (simp add: IsProtected_def)
  obtain t c' where t: "expire c2 (int 1) t = Ret c'" "IsProtected c' (int 1) = Ret False"
    "\<forall>t'. t' \<noteq> t \<longrightarrow> expire c2 (int 1) t' = Ret c2"
    using protection_expires [OF c(1) r l p] by (elim exE conjE)
  have "t = 7"
  proof (rule ccontr)
    assume "t \<noteq> 7"
    then have "expire c2 (int 1) t = Ret c2" using g mc by (simp add: expire_def)
    then show False using t(1,2) p by simp
  qed
  then show ?thesis using t(1,2) p by auto
qed

text \<open>
  C36: \<open>Open\<close> does not count the chunks it opens: on a new server \<open>PresentChunks\<close> stays 0 after
  \<open>Open\<close>, however many chunks are present, and after the first of them is given up, by
  \<open>ChunkSetNoPresent\<close>, \<open>PresentChunksList\<close> panics on the negative count.
\<close>

theorem open_forgets_chunks:
  assumes "core_New path sz n = Ret c0" and "core_Open os d files c0 = Ret c"
    and "i < length (chunks c)" and "present (chunks c ! i)"
    and "ChunkSetNoPresent os' d' c (int i) = Ret (c', d'')"
  shows "PresentChunks c = 0 \<and> PresentChunksList c' now = Panic (Raised ''makeslice: cap out of range'')"
proof -
  have "knownChunks c = 0"
    using assms(1,2) by (auto simp: core_New_def core_Open_def bindG_eq_Ret split: if_splits)
  moreover then have "knownChunks c' = - 1"
    using assms(3-5) by (auto simp: ChunkSetNoPresent_def get_chunk_Ret bindG_eq_Ret split: option.splits)
  ultimately show ?thesis by (simp add: PresentChunks_def PresentChunksList_def)
qed

lemma New_empty_file:
  assumes "path \<noteq> []"
  obtains d pm where "pm_Open os_fine d path = Ret pm" and "pm_inv pm"
proof -
  have sz: "unat (256 :: u64) \<le> 2 ^ 32" by simp
  obtain pm0 d where pm0: "pm_New os_fine Map.empty path 256 = Ret (pm0, d)"
    using New_fine [OF sz] by blast
  have rep: "store_inv (pm_st pm0) []" using New_rep [OF pm0 sz] by (simp add: pm_rep_def)
  have fl: "d path = st_file (pm_st pm0)" "unat (st_size (pm_st pm0)) = 256"
    using pm0 assms by (auto simp: pm_New_def newStore_def Let_def os_fine_def)
  have "reopenable (unat (st_size (pm_st pm0))) []"
    using fl by (simp add: reopenable_def regular_def)
  from open_scans [of "pm_st pm0" "[]" d path, OF rep fl(1) this, of os_fine] show thesis
    using that by (auto simp: os_fine_def pm_inv_def)
qed

theorem open_forgets_chunks_witness:
  "\<exists>c0 d c c' d'. core_New ''db'' 256 1 = Ret c0 \<and> core_Open os_fine d [chunk_name 0 0] c0 = Ret c
    \<and> present (chunks c ! 0) \<and> PresentChunks c = 0 \<and> ChunkSetNoPresent os_fine d c 0 = Ret (c', d')
    \<and> PresentChunksList c' (\<lambda>_. 0) = Panic (Raised ''makeslice: cap out of range'')"
proof -
  obtain c0 where c0: "core_New ''db'' 256 1 = Ret c0" "chunks c0 = [new_metaChunk]" "dbpath c0 = ''db''"
    by (auto simp: core_New_def)
  define path where "path = findChunk c0 [chunk_name 0 0] 0"
  have "path \<noteq> []"
    using c0(3) chunk_name_prefix [of 0 0 0] by (simp add: path_def findChunk_def)
  then obtain d pm where pm: "pm_Open os_fine d path = Ret pm" "pm_inv pm" by (rule New_empty_file)
  define mc where "mc = new_metaChunk\<lparr>mc_pm := Some pm, present := True\<rparr>"
  define c where "c = c0\<lparr>chunks := [mc]\<rparr>"
  have op: "core_Open os_fine d [chunk_name 0 0] c0 = Ret c"
    using c0(2) pm(1) \<open>path \<noteq> []\<close> by (simp add: core_Open_def path_def [symmetric] c_def mc_def)
  have pr: "0 < length (chunks c)" "present (chunks c ! 0)" by (simp_all add: c_def mc_def)
  obtain pm' d' where "pm_CloseAndDelete os_fine d pm = Ret (pm', d')"
    using CloseAndDelete_fine [OF pm(2)] by blast
  moreover have "get_chunk c (int 0) = Ret mc" by (simp add: get_chunk_def index_of_def c_def)
  ultimately obtain c' where no: "ChunkSetNoPresent os_fine d c (int 0) = Ret (c', d')"
    by (simp add: ChunkSetNoPresent_def) (simp add: mc_def)
  from open_forgets_chunks [OF c0(1) op pr no, of "\<lambda>_. 0"] c0(1) op pr(2) no show ?thesis by auto
qed

end
