(* ===== verification/Tcp_Message.thy ===== *)
theory Tcp_Message
  imports Treeless_Prelude
begin

text \<open>
  The messages of the TCP protocol (src/com/protocol/tcpMessage.go): the operation codes, the
  message and its serialization, and the interface of a self-delimiting encoding,
  which the buffered connection relies on.
\<close>

section \<open>Operations\<close>

type_synonym operation = byte

definition OpGet :: operation where "OpGet = 1"
definition OpSet :: operation where "OpSet = 2"
definition OpAsyncSet :: operation where "OpAsyncSet = 3"
definition OpDel :: operation where "OpDel = 4"
definition OpCAS :: operation where "OpCAS = 5"

definition OpAddServerToGroup :: operation where "OpAddServerToGroup = 100"
definition OpGetConf :: operation where "OpGetConf = 101"
definition OpGetChunkInfo :: operation where "OpGetChunkInfo = 102"
definition OpProtect :: operation where "OpProtect = 103"
definition OpTransfer :: operation where "OpTransfer = 104"
definition OpSetBuffered :: operation where "OpSetBuffered = 105"
definition OpSetNoDelay :: operation where "OpSetNoDelay = 106"
definition OpDefrag :: operation where "OpDefrag = 107"
definition OpForgetNode :: operation where "OpForgetNode = 108"

definition OpOK :: operation where "OpOK = 200"
definition OpErr :: operation where "OpErr = 201"
definition OpResponse :: operation where "OpResponse = 202"

lemmas op_codes = OpGet_def OpSet_def OpAsyncSet_def OpDel_def OpCAS_def OpAddServerToGroup_def
  OpGetConf_def OpGetChunkInfo_def OpProtect_def OpTransfer_def OpSetBuffered_def OpSetNoDelay_def
  OpDefrag_def OpForgetNode_def OpOK_def OpErr_def OpResponse_def

section \<open>Messages\<close>

record message =
  msg_Type :: operation
  msg_ID :: u32
  msg_Key :: bytes
  msg_Value :: bytes

definition MinimumMessageSize :: nat where
  "MinimumMessageSize = 13"

text \<open>The result of \<open>Marshal\<close>: the size, whether it is too long, and the destination buffer.\<close>

definition Marshal :: "message \<Rightarrow> bytes \<Rightarrow> (nat \<times> bool \<times> bytes) go" where
  "Marshal m dest =
     (let sz = length (msg_Key m) + length (msg_Value m) + 13 in
      if sz > length dest then Ret (sz, True, dest)
      else bindG (put_bytes dest 0 (le32 (of_nat sz))) (\<lambda>d1.
        bindG (put_bytes d1 4 (le32 (msg_ID m))) (\<lambda>d2.
        bindG (put_bytes d2 8 (le32 (of_nat (length (msg_Key m))))) (\<lambda>d3.
        bindG (store_at d3 12 (msg_Type m)) (\<lambda>d4.
        let d5 = copy_at d4 13 (length d4 - 13) (msg_Key m);
            at = 13 + length (msg_Key m);
            d6 = copy_at d5 at (length d5 - at) (msg_Value m)
        in Ret (sz, False, d6))))))"

definition Unmarshal :: "bytes \<Rightarrow> message go" where
  "Unmarshal src =
     bindG (bindG (slice_of src 4 8) Uint32) (\<lambda>i.
     bindG (bindG (slice_of src 8 12) Uint32) (\<lambda>keySize.
     bindG (index_of src 12) (\<lambda>t.
     bindG (slice_from src 13) (\<lambda>array.
     bindG (slice_of array 0 (unat keySize)) (\<lambda>key.
     bindG (slice_from array (unat keySize)) (\<lambda>val.
     Ret \<lparr>msg_Type = t, msg_ID = i, msg_Key = key, msg_Value = val\<rparr>))))))"

section \<open>Specification\<close>

text \<open>The bytes of a message on the wire.\<close>

definition msg_size :: "message \<Rightarrow> nat" where
  "msg_size m = length (msg_Key m) + length (msg_Value m) + 13"

definition msg_bytes :: "message \<Rightarrow> bytes" where
  "msg_bytes m = le32 (of_nat (msg_size m)) @ le32 (msg_ID m) @ le32 (of_nat (length (msg_Key m)))
     @ [msg_Type m] @ msg_Key m @ msg_Value m"

text \<open>
  A self-delimiting encoding: the first four bytes of a frame are its length, there is a
  smallest frame, and decoding inverts encoding. Streams of frames are unambiguous.
\<close>

locale framing =
  fixes wf :: "'m \<Rightarrow> bool" and enc :: "'m \<Rightarrow> bytes" and dec :: "bytes \<Rightarrow> 'm go" and least :: nat
  assumes enc_head: "wf m \<Longrightarrow> take 4 (enc m) = le32 (of_nat (length (enc m)))"
    and enc_length: "wf m \<Longrightarrow> least \<le> length (enc m)"
    and enc_bound: "wf m \<Longrightarrow> length (enc m) < 2 ^ 32"
    and enc_least: "4 \<le> least"
    and dec_enc: "wf m \<Longrightarrow> dec (enc m) = Ret m"
begin

lemma partial_head:
  assumes "wf m" and "4 \<le> n"
  shows "Uint32 (take n (enc m @ r)) = Ret (of_nat (length (enc m)))"
proof -
  have "4 \<le> length (enc m)" using enc_length [OF assms(1)] enc_least by simp
  then show ?thesis using enc_head [OF assms(1)] assms(2) by (simp add: Uint32_def min_def)
qed

lemma head_size: "wf m \<Longrightarrow> Uint32 (enc m @ r) = Ret (of_nat (length (enc m)))"
  using partial_head [of m "length (enc m @ r)" r] enc_length [of m] enc_least by simp

lemma size_of_head:
  assumes "wf m"
  shows "unat (of_nat (length (enc m)) :: u32) = length (enc m)"
  using enc_bound [OF assms] by (intro unat_of_nat_small) simp

lemma enc_nonempty: "wf m \<Longrightarrow> enc m \<noteq> []"
  using enc_length [of m] enc_least by auto

lemma enc_prefix:
  assumes "wf m" and "wf m'" and "enc m @ r = enc m' @ r'"
  shows "m = m' \<and> r = r'"
proof -
  have "Ret (of_nat (length (enc m)) :: u32) = Ret (of_nat (length (enc m')))"
    using head_size [OF assms(1)] head_size [OF assms(2)] assms(3) by metis
  then have "length (enc m) = length (enc m')"
    using size_of_head [OF assms(1)] size_of_head [OF assms(2)] by (metis go.inject)
  then have e: "enc m = enc m'" "r = r'"
    using append_eq_append_conv [of "enc m" "enc m'" r r'] assms(3) by blast+
  have "Ret m = Ret m'" using dec_enc [OF assms(1)] dec_enc [OF assms(2)] e(1) by metis
  then show ?thesis using e(2) by simp
qed

lemma frames_unique:
  assumes "\<forall>m\<in>set ms. wf m" and "\<forall>m\<in>set ms'. wf m"
    and "concat (map enc ms) = concat (map enc ms')"
  shows "ms = ms'"
  using assms
proof (induction ms arbitrary: ms')
  case Nil
  have "\<not> wf m" if "enc m = []" for m using that enc_nonempty by blast
  then show ?case using Nil by (cases ms') simp_all
next
  case (Cons m ms)
  have wf: "wf m" "\<forall>m\<in>set ms. wf m" using Cons.prems(1) by simp_all
  have eq: "enc m @ concat (map enc ms) = concat (map enc ms')" using Cons.prems(3) by simp
  show ?case
  proof (cases ms')
    case Nil
    then show ?thesis using eq enc_nonempty [OF wf(1)] by simp
  next
    case ms': (Cons m' ns)
    then have wf': "wf m'" "\<forall>m\<in>set ns. wf m" using Cons.prems(2) by simp_all
    have "enc m @ concat (map enc ms) = enc m' @ concat (map enc ns)" using eq ms' by simp
    from enc_prefix [OF wf(1) wf'(1) this] Cons.IH [OF wf(2) wf'(2)] ms' show ?thesis by simp
  qed
qed

end

section \<open>Lemmas\<close>

lemma length_msg_bytes [simp]: "length (msg_bytes m) = msg_size m"
  by (simp add: msg_bytes_def msg_size_def)

lemma msg_size_ge [simp]: "13 \<le> msg_size m"
  by (simp add: msg_size_def)

lemma Marshal_too_long: "length dest < msg_size m \<Longrightarrow> Marshal m dest = Ret (msg_size m, True, dest)"
  by (simp add: Marshal_def msg_size_def)

lemma Marshal_fits:
  assumes "msg_size m \<le> length dest"
  shows "Marshal m dest = Ret (msg_size m, False, msg_bytes m @ drop (msg_size m) dest)"
proof -
  have sp: "\<exists>a b. xs = a @ b \<and> length a = n" if "n \<le> length xs" for n and xs :: bytes
    using that by (intro exI [of _ "take n xs"] exI [of _ "drop n xs"]) simp
  have sz: "13 + length (msg_Key m) + length (msg_Value m) \<le> length dest"
    using assms by (simp add: msg_size_def)
  obtain a d1 where 1: "dest = a @ d1" "length a = 4" using sp [of 4 dest] sz by auto
  obtain b d2 where 2: "d1 = b @ d2" "length b = 4" using sp [of 4 d1] sz 1 by auto
  obtain c d3 where 3: "d2 = c @ d3" "length c = 4" using sp [of 4 d2] sz 1 2 by auto
  obtain t d4 where 4: "d3 = t # d4" using sz 1 2 3 by (cases d3) auto
  obtain k d5 where 5: "d4 = k @ d5" "length k = length (msg_Key m)"
    using sp [of "length (msg_Key m)" d4] sz 1 2 3 4 by auto
  obtain v r where 6: "d5 = v @ r" "length v = length (msg_Value m)"
    using sp [of "length (msg_Value m)" d5] sz 1 2 3 4 5 by auto
  have d: "dest = a @ b @ c @ [t] @ k @ v @ r" "length a = 4" "length b = 4" "length c = 4"
    "length k = length (msg_Key m)" "length v = length (msg_Value m)"
    using 1 2 3 4 5 6 by simp_all
  let ?s = "le32 (of_nat (msg_size m))" and ?i = "le32 (msg_ID m)" and ?n = "le32 (of_nat (length (msg_Key m)))"
  have w1: "put_bytes dest 0 ?s = Ret (?s @ b @ c @ [t] @ k @ v @ r)"
    using put_bytes_append [of a ?s "[]" "b @ c @ [t] @ k @ v @ r"] d(1,2) by simp
  have w2: "put_bytes (?s @ b @ c @ [t] @ k @ v @ r) 4 ?i = Ret (?s @ ?i @ c @ [t] @ k @ v @ r)"
    using put_bytes_append [of b ?i ?s "c @ [t] @ k @ v @ r"] d(3) by simp
  have w3: "put_bytes (?s @ ?i @ c @ [t] @ k @ v @ r) 8 ?n = Ret (?s @ ?i @ ?n @ [t] @ k @ v @ r)"
    using put_bytes_append [of c ?n "?s @ ?i" "[t] @ k @ v @ r"] d(4) by simp
  let ?h = "?s @ ?i @ ?n @ [msg_Type m]"
  have w4: "store_at (?s @ ?i @ ?n @ [t] @ k @ v @ r) 12 (msg_Type m) = Ret (?h @ k @ v @ r)"
    by (simp add: store_at_def list_update_append)
  have w5: "copy_at (?h @ k @ v @ r) 13 (length (?h @ k @ v @ r) - 13) (msg_Key m) = ?h @ msg_Key m @ v @ r"
    using d(5) by (simp add: copy_at_def)
  have w6: "copy_at (?h @ msg_Key m @ v @ r) (13 + length (msg_Key m))
      (length (?h @ msg_Key m @ v @ r) - (13 + length (msg_Key m))) (msg_Value m) = ?h @ msg_Key m @ msg_Value m @ r"
    using d(6) by (simp add: copy_at_def)
  have sz': "msg_size m = length (msg_Key m) + length (msg_Value m) + 13" by (simp add: msg_size_def)
  have "Marshal m dest = Ret (msg_size m, False, ?h @ msg_Key m @ msg_Value m @ r)"
    unfolding Marshal_def Let_def sz' [symmetric] w1 bindG.simps w2 w3 w4 w5 w6 using assms by simp
  moreover have "drop (msg_size m) dest = r" by (simp add: d msg_size_def)
  ultimately show ?thesis by (simp add: msg_bytes_def)
qed

lemma msg_bytes_inverse:
  assumes "msg_size m < 2 ^ 32"
  shows "Unmarshal (msg_bytes m) = Ret m"
proof -
  have "unat (of_nat (length (msg_Key m)) :: u32) = length (msg_Key m)"
    using assms by (intro unat_of_nat_small) (simp add: msg_size_def)
  then show ?thesis
    by (simp add: Unmarshal_def msg_bytes_def slice_of_def slice_from_def index_of_def nth_append)
qed

interpretation wire: framing "\<lambda>m. msg_size m < 2 ^ 32" msg_bytes Unmarshal 13
proof
  fix m assume "msg_size m < 2 ^ 32"
  then show "Unmarshal (msg_bytes m) = Ret m" by (rule msg_bytes_inverse)
  show "take 4 (msg_bytes m) = le32 (of_nat (length (msg_bytes m)))"
    by (simp add: msg_bytes_def [of m]) (simp add: msg_size_def ac_simps)
qed simp_all

section \<open>Properties\<close>

text \<open>
  Messages survive the wire: \<open>Marshal\<close> into a buffer that is long enough writes exactly the
  bytes of the message at its front and leaves the rest of the buffer alone, reports their
  number, and \<open>Unmarshal\<close> of those bytes is the message; into a shorter buffer it writes
  nothing and says so.
\<close>

lemma marshal_roundtrip:
  assumes "msg_size m < 2 ^ 32"
  shows "if msg_size m \<le> length dest
    then \<exists>d. Marshal m dest = Ret (msg_size m, False, d) \<and> length d = length dest
           \<and> drop (msg_size m) d = drop (msg_size m) dest \<and> Unmarshal (take (msg_size m) d) = Ret m
    else Marshal m dest = Ret (msg_size m, True, dest)"
  using assms by (simp add: Marshal_fits Marshal_too_long msg_bytes_inverse)

definition ex_msg :: message where
  "ex_msg = \<lparr>msg_Type = OpSet, msg_ID = 7, msg_Key = [1, 2], msg_Value = [3]\<rparr>"

text \<open>
  What \<open>Unmarshal\<close> does with bytes from the network: it returns exactly when there are 13
  bytes and the key length in them is within the rest, and panics otherwise; a message
  it returns has all the bytes behind the header as key and value.
\<close>

lemma unmarshal_total:
  "if 13 \<le> length src \<and> unat (le_word (take 4 (drop 8 src)) :: u32) \<le> length src - 13
   then \<exists>m. Unmarshal src = Ret m \<and> msg_Key m @ msg_Value m = drop 13 src
   else Unmarshal src = Panic OutOfRange"
proof (cases "13 \<le> length src")
  case True
  have "take n (drop 13 src) @ drop (n + 13) src = drop 13 src" for n
    by (metis append_take_drop_id drop_drop)
  with True show ?thesis
    by (simp add: Unmarshal_def slice_of_def slice_from_def index_of_def Uint32_def)
qed (auto simp: Unmarshal_def slice_of_def slice_from_def index_of_def Uint32_def)

end
