(* ===== verification/Buff_Conn.thy ===== *)
theory Buff_Conn
  imports Tcp_Message
begin

text \<open>
  The buffered connection (src/com/buffconn/buffconn.go): reading messages out of a byte
  stream that arrives in pieces, collecting messages in a write buffer, and the goroutine
  that flushes the buffer.

  The TCP connection is its state as the code can see it. \<open>inbox\<close> is what will arrive, in the
  pieces in which the system hands it out; a read into a buffer of no bytes returns no
  bytes at once, and a read behind the last piece fails. A write takes all bytes, or fails
  after some of them: \<open>wfails\<close> holds the outcomes of the next writes, and \<open>outbox\<close> what was
  sent. The channel to the goroutine holds one operation; a \<open>Write\<close> that has to send one while it is
  full does not return.
\<close>

definition writeBufferSize :: nat where
  "writeBufferSize = 1450"

definition readBufferSize :: nat where
  "readBufferSize = 2048"

record conn =
  readBuffer :: bytes
  readStart :: nat
  readEnd :: nat
  writeBuffer :: bytes
  writeIndex :: nat
  buffering :: bool
  ch :: "int list"
  ticker :: bool
  inbox :: "bytes list"
  outbox :: bytes
  wfails :: "nat option list"
  tcp_closed :: bool

section \<open>The goroutine\<close>

text \<open>The goroutine receives an operation from the channel, which holds at most one.\<close>

definition conn_recv :: "conn \<Rightarrow> conn" where
  "conn_recv c = (case ch c of
     [] \<Rightarrow> c
   | op # rest \<Rightarrow>
       if \<not> ticker c then (if op = 1 then c\<lparr>ch := rest, ticker := True\<rparr> else c\<lparr>ch := rest\<rparr>)
       else (if op = 0 then c\<lparr>ch := rest, ticker := False\<rparr> else c\<lparr>ch := rest\<rparr>))"

text \<open>
  Sending to the channel: when it is full, the call does not return before the goroutine has received. A
  goroutine that is waiting for the write mutex in the meantime never does, since the sender holds it.
\<close>

definition conn_send :: "conn \<Rightarrow> int \<Rightarrow> conn go" where
  "conn_send c op = (if ch c = [] then Ret (c\<lparr>ch := [op]\<rparr>) else Loop)"

definition tcpWrite :: "conn \<Rightarrow> bytes \<Rightarrow> err \<times> conn" where
  "tcpWrite c buffer =
     (if buffer = [] then (None, c)
      else case wfails c of
        [] \<Rightarrow> (None, c\<lparr>outbox := outbox c @ buffer\<rparr>)
      | None # fs \<Rightarrow> (None, c\<lparr>outbox := outbox c @ buffer, wfails := fs\<rparr>)
      | Some n # fs \<Rightarrow>
          (Some ''write'', c\<lparr>outbox := outbox c @ take n buffer, wfails := fs, tcp_closed := True\<rparr>))"

text \<open>A tick of the ticker.\<close>

definition conn_tick :: "conn \<Rightarrow> conn go" where
  "conn_tick c =
     (if ticker c
      then bindG (slice_of (writeBuffer c) 0 (writeIndex c)) (\<lambda>b.
             Ret ((snd (tcpWrite c b))\<lparr>writeIndex := 0\<rparr>))
      else Ret c)"

text \<open>A new connection starts its goroutine and puts the first operation into the empty channel.\<close>

definition conn_New :: "bytes list \<Rightarrow> nat option list \<Rightarrow> conn" where
  "conn_New ib fs =
     \<lparr>readBuffer = replicate readBufferSize 0, readStart = 0, readEnd = 0,
      writeBuffer = replicate writeBufferSize 0, writeIndex = 0, buffering = True,
      ch = [1], ticker = False, inbox = ib, outbox = [], wfails = fs, tcp_closed = False\<rparr>"

section \<open>Reading\<close>

text \<open>
  The loop \<open>for end-start < need { n, err := Read(buf[end:]); ... end += n }\<close>, which occurs
  three times. A read hands out the next piece, or what fits of it. A read into a buffer of
  no bytes changes nothing, so that the loop never ends.
\<close>

function fill :: "bytes \<Rightarrow> nat \<Rightarrow> nat \<Rightarrow> bytes list \<Rightarrow> nat \<Rightarrow> (bool \<times> bytes \<times> nat \<times> bytes list) go" where
  "fill buf start end ib need =
     (if int end - int start < int need then
        if length buf < end then Panic OutOfRange
        else if length buf = end then Loop
        else case ib of
            [] \<Rightarrow> Ret (False, buf, end, ib)
          | s # ss \<Rightarrow>
              let n = length buf - end; bs = take n s in
              fill (copy_at buf end n bs) start (end + length bs) (if length s \<le> n then ss else drop n s # ss) need
      else Ret (True, buf, end, ib))"
  by pat_completeness auto

termination
  by (relation "measure (\<lambda>(buf, start, end, ib, need). length ib + length (concat ib))") auto

declare fill.simps [simp del]

definition conn_Read :: "conn \<Rightarrow> ((string + message) \<times> conn) go" where
  "conn_Read c =
     bindG (fill (readBuffer c) (readStart c) (readEnd c) (inbox c) MinimumMessageSize) (\<lambda>(ok, buf, e, ib).
     let c1 = c\<lparr>readBuffer := buf, readEnd := e, inbox := ib\<rparr> in
     if \<not> ok then Ret (Inl ''read'', c1\<lparr>tcp_closed := True\<rparr>)
     else bindG (bindG (slice_from buf (readStart c)) Uint32) (\<lambda>w.
       let messageSize = unat w in
       if int messageSize > int readBufferSize - int (readStart c) then
         bindG (slice_of buf (readStart c) e) (\<lambda>part.
         let bigBuffer = copy_at (replicate messageSize 0) 0 messageSize part in
         bindG (fill bigBuffer 0 (e - readStart c) ib messageSize) (\<lambda>(ok, bigBuffer, index, ib).
         if \<not> ok then Ret (Inl ''read'', c1\<lparr>inbox := ib, tcp_closed := True\<rparr>)
         else bindG (Unmarshal bigBuffer) (\<lambda>msg.
           Ret (Inr msg, c1\<lparr>inbox := ib, readStart := 0, readEnd := 0\<rparr>))))
       else
         bindG (fill buf (readStart c) e ib messageSize) (\<lambda>(ok, buf, e, ib).
         let c2 = c\<lparr>readBuffer := buf, readEnd := e, inbox := ib\<rparr> in
         if \<not> ok then Ret (Inl ''read'', c2\<lparr>tcp_closed := True\<rparr>)
         else bindG (if readStart c > 1400
                     then bindG (slice_of buf (readStart c) e) (\<lambda>part.
                            Ret (c2\<lparr>readBuffer := copy_at buf 0 (length buf) part,
                                     readEnd := e - readStart c, readStart := 0\<rparr>))
                     else Ret c2) (\<lambda>c3.
           let c4 = c3\<lparr>readStart := readStart c3 + messageSize\<rparr> in
           bindG (bindG (slice_of (readBuffer c4) (readStart c4 - messageSize) (readStart c4)) Unmarshal) (\<lambda>msg.
           Ret (Inr msg, c4))))))"

section \<open>Writing\<close>

text \<open>Two messages change the mode of the connection before they are written.\<close>

definition set_mode :: "conn \<Rightarrow> message \<Rightarrow> conn go" where
  "set_mode c m =
     (if msg_Type m = OpSetBuffered then conn_send (c\<lparr>buffering := True\<rparr>) 1
      else if msg_Type m = OpSetNoDelay then conn_send (c\<lparr>buffering := False\<rparr>) 0
      else Ret c)"

definition conn_Write :: "conn \<Rightarrow> message \<Rightarrow> (err \<times> conn) go" where
  "conn_Write c m =
     bindG (set_mode c m) (\<lambda>c1.
         bindG (slice_from (writeBuffer c1) (writeIndex c1)) (\<lambda>dest.
         bindG (Marshal m dest) (\<lambda>(msgSize, tooLong, dest').
         let c2 = c1\<lparr>writeBuffer := take (writeIndex c1) (writeBuffer c1) @ dest'\<rparr>;
             finish = (\<lambda>c. let c' = c\<lparr>writeIndex := writeIndex c + msgSize\<rparr> in
               if \<not> buffering c then
                 bindG (slice_of (writeBuffer c') 0 (writeIndex c')) (\<lambda>b.
                 let (e, c'') = tcpWrite c' b in Ret (e, c''\<lparr>writeIndex := 0\<rparr>))
               else Ret (None, c'))
         in if tooLong then
              bindG (slice_of (writeBuffer c2) 0 (writeIndex c2)) (\<lambda>b.
              let (e, c3) = tcpWrite c2 b in
              if e \<noteq> None then Ret (e, c3)
              else let c4 = c3\<lparr>writeIndex := 0\<rparr> in
                if msgSize > writeBufferSize then
                  bindG (Marshal m (replicate msgSize 0)) (\<lambda>(_, _, bigMsg). Ret (tcpWrite c4 bigMsg))
                else bindG (Marshal m (writeBuffer c4)) (\<lambda>(_, _, wb). finish (c4\<lparr>writeBuffer := wb\<rparr>)))
            else finish c2)))"

text \<open>Closing the channel ends the goroutine.\<close>

definition conn_Close :: "conn \<Rightarrow> conn" where
  "conn_Close c = c\<lparr>ticker := False, tcp_closed := True\<rparr>"

section \<open>Specification\<close>

text \<open>The bytes between two indices, and the bytes that were sent to a connection and not read yet.\<close>

definition window :: "bytes \<Rightarrow> nat \<Rightarrow> nat \<Rightarrow> bytes" where
  "window buf s e = take (e - s) (drop s buf)"

definition unread :: "conn \<Rightarrow> bytes" where
  "unread c = window (readBuffer c) (readStart c) (readEnd c) @ concat (inbox c)"

definition reader_ok :: "conn \<Rightarrow> bool" where
  "reader_ok c \<longleftrightarrow> length (readBuffer c) = readBufferSize \<and> readStart c \<le> readEnd c
     \<and> readEnd c \<le> readBufferSize \<and> readStart c + MinimumMessageSize \<le> readBufferSize"

text \<open>Message sizes that never leave the start of the next message too close to the end of the buffer.\<close>

definition readable_size :: "message \<Rightarrow> bool" where
  "readable_size m \<longleftrightarrow> msg_size m \<le> 635 \<or> (readBufferSize < msg_size m \<and> msg_size m < 2 ^ 32)"

fun read_msgs :: "nat \<Rightarrow> conn \<Rightarrow> (message list \<times> conn) go" where
  "read_msgs 0 c = Ret ([], c)"
| "read_msgs (Suc n) c = bindG (conn_Read c) (\<lambda>(r, c'). case r of
     Inl e \<Rightarrow> Panic (Raised e)
   | Inr m \<Rightarrow> bindG (read_msgs n c') (\<lambda>(ms, c''). Ret (m # ms, c'')))"

section \<open>Lemmas: reading\<close>

lemma length_window [simp]: "e \<le> length buf \<Longrightarrow> length (window buf s e) = e - s"
  by (simp add: window_def)

lemma window_copy:
  assumes "s \<le> e" and "e \<le> length buf" and "length bs \<le> n"
  shows "window (copy_at buf e n bs) s (e + length bs) = window buf s e @ bs"
proof -
  have "drop s (take e buf @ bs @ r) = drop s (take e buf) @ bs @ r" for r
    using assms by simp
  moreover have "take (e + length bs - s) (drop s (take e buf) @ bs @ r) = drop s (take e buf) @ bs" for r
    using assms by simp
  ultimately show ?thesis using assms by (simp add: window_def copy_at_def drop_take)
qed

lemma window_take: "e \<le> e' \<Longrightarrow> take (e - s) (window buf s e') = window buf s e"
  by (simp add: window_def min_def)

lemma fill_enough:
  assumes "s \<le> e" and "e \<le> length buf" and "s + need \<le> length buf"
    and "need \<le> length (window buf s e @ concat ib)"
  shows "\<exists>buf' e' ib'. fill buf s e ib need = Ret (True, buf', e', ib') \<and> length buf' = length buf
    \<and> e \<le> e' \<and> e' \<le> length buf \<and> s + need \<le> e'
    \<and> window buf' s e' @ concat ib' = window buf s e @ concat ib"
  using assms
proof (induction buf s e ib need rule: fill.induct)
  case (1 buf s e ib need)
  show ?case
  proof (cases "int e - int s < int need")
    case False
    then show ?thesis using 1 by (simp add: fill.simps [of buf])
  next
    case True
    then have lt: "e < length buf" using 1(2-5) by simp
    obtain p ps where ib: "ib = p # ps" using True 1(2-5) by (cases ib) auto
    let ?n = "length buf - e"
    let ?bs = "take ?n p" and ?ib = "if length p \<le> ?n then ps else drop ?n p # ps"
    let ?buf = "copy_at buf e ?n ?bs"
    have w: "window ?buf s (e + length ?bs) = window buf s e @ ?bs"
      using 1(2) lt by (intro window_copy) simp_all
    have c: "window ?buf s (e + length ?bs) @ concat ?ib = window buf s e @ concat ib"
      unfolding w by (simp add: ib)
    have l: "length ?buf = length buf" using lt by simp
    have "\<exists>buf' e' ib'. fill ?buf s (e + length ?bs) ?ib need = Ret (True, buf', e', ib')
        \<and> length buf' = length ?buf \<and> e + length ?bs \<le> e' \<and> e' \<le> length ?buf \<and> s + need \<le> e'
        \<and> window buf' s e' @ concat ib' = window ?buf s (e + length ?bs) @ concat ?ib"
      by (rule 1(1) [OF True _ _ ib refl refl]) (use lt l c 1(2-5) in simp_all)
    moreover have "fill buf s e ib need = fill ?buf s (e + length ?bs) ?ib need"
      using True lt by (subst fill.simps) (simp add: ib Let_def)
    ultimately show ?thesis unfolding l c by auto
  qed
qed

lemma slice_window: "s \<le> e \<Longrightarrow> e \<le> length buf \<Longrightarrow> slice_of buf s e = Ret (window buf s e)"
  by (simp add: slice_of_def window_def)

lemma window_split:
  assumes "s \<le> k" and "k \<le> e" and "e \<le> length buf"
  shows "window buf s e = window buf s k @ window buf k e"
proof -
  have "take (k - s + (e - k)) (drop s buf) = take (k - s) (drop s buf) @ take (e - k) (drop (k - s) (drop s buf))"
    by (rule take_add)
  then show ?thesis using assms by (simp add: window_def)
qed

lemma window_frame:
  assumes "s \<le> e" and "e \<le> length buf" and "s + msg_size m \<le> e"
    and "window buf s e @ x = msg_bytes m @ y"
  shows "window buf s (s + msg_size m) = msg_bytes m" and "window buf (s + msg_size m) e @ x = y"
proof -
  have "window buf s (s + msg_size m) @ window buf (s + msg_size m) e @ x = msg_bytes m @ y"
    using window_split [of s "s + msg_size m" e buf] assms by simp
  moreover have "length (window buf s (s + msg_size m)) = length (msg_bytes m)" using assms by simp
  ultimately show "window buf s (s + msg_size m) = msg_bytes m" "window buf (s + msg_size m) e @ x = y"
    by simp_all
qed

lemma head_window:
  assumes "s + 4 \<le> e" and "e \<le> length buf" and "window buf s e @ x = msg_bytes m @ y"
    and "msg_size m < 2 ^ 32"
  shows "bindG (slice_from buf s) Uint32 = Ret (of_nat (msg_size m))"
proof -
  have "take 4 (drop s buf) = take 4 (window buf s e)" using assms(1) by (simp add: window_def min_def)
  also have "\<dots> = take 4 (window buf s e @ x)" using assms(1,2) by simp
  also have "\<dots> = take 4 (msg_bytes m)"
  proof -
    have "4 \<le> msg_size m" by (simp add: msg_size_def)
    then show ?thesis using assms(3) by simp
  qed
  also have "\<dots> = le32 (of_nat (msg_size m))" using wire.enc_head [OF assms(4)] by simp
  finally show ?thesis using assms(1,2) by (simp add: slice_from_def Uint32_def)
qed

text \<open>The rest of \<open>Read\<close> once the size of the message is known.\<close>

lemma read_big:
  assumes "s \<le> e" and "e \<le> length buf" and "e - s < msg_size m"
    and w: "window buf s e @ concat ib = msg_bytes m @ rest"
  obtains e' ib' where "fill (copy_at (replicate (msg_size m) 0) 0 (msg_size m) (window buf s e)) 0 (e - s) ib (msg_size m)
      = Ret (True, msg_bytes m, e', ib')" and "concat ib' = rest"
proof -
  let ?part = "window buf s e" and ?z = "replicate (msg_size m) (0 :: byte)"
  let ?big = "copy_at ?z 0 (msg_size m) ?part"
  have lp: "length ?part = e - s" using assms by simp
  have wb: "window ?big 0 (e - s) = ?part"
    using window_copy [of 0 0 ?z ?part "msg_size m"] lp assms(3) by (simp add: window_def)
  have lb: "length ?big = msg_size m" by simp
  have "msg_size m \<le> length (window ?big 0 (e - s) @ concat ib)" unfolding wb w by simp
  then obtain buf' e' ib' where f: "fill ?big 0 (e - s) ib (msg_size m) = Ret (True, buf', e', ib')"
    "length buf' = msg_size m" "e' \<le> msg_size m" "msg_size m \<le> e'"
    "window buf' 0 e' @ concat ib' = window ?big 0 (e - s) @ concat ib"
    using fill_enough [of 0 "e - s" ?big "msg_size m" ib] assms(3) lb by auto
  then have "buf' @ concat ib' = msg_bytes m @ rest" unfolding wb w by (simp add: window_def)
  then have "buf' = msg_bytes m" "concat ib' = rest" using f(2) by simp_all
  then show thesis using that f(1) by blast
qed

lemma read_message:
  assumes ok: "reader_ok c" and un: "unread c = msg_bytes m @ rest" and sz: "msg_size m < 2 ^ 32"
  obtains c' where "conn_Read c = Ret (Inr m, c')" and "unread c' = rest"
    and "length (readBuffer c') = readBufferSize" and "readStart c' \<le> readEnd c'" and "readEnd c' \<le> readBufferSize"
    and "readStart c' = (if msg_size m > readBufferSize - readStart c then 0
           else if readStart c > 1400 then msg_size m else readStart c + msg_size m)"
proof -
  let ?s = "readStart c" and ?n = "msg_size m"
  have c: "length (readBuffer c) = 2048" "?s \<le> readEnd c" "readEnd c \<le> 2048" "?s + 13 \<le> 2048"
    using ok by (simp_all add: reader_ok_def readBufferSize_def MinimumMessageSize_def)
  have wu: "window (readBuffer c) ?s (readEnd c) @ concat (inbox c) = msg_bytes m @ rest"
    using un by (simp add: unread_def)
  have "13 \<le> length (window (readBuffer c) ?s (readEnd c) @ concat (inbox c))"
    unfolding wu by (simp add: trans_le_add1)
  then obtain buf e ib where f1: "fill (readBuffer c) ?s (readEnd c) (inbox c) 13 = Ret (True, buf, e, ib)"
    "length buf = 2048" "e \<le> 2048" "?s + 13 \<le> e" "window buf ?s e @ concat ib = msg_bytes m @ rest"
    using fill_enough [of ?s "readEnd c" "readBuffer c" 13 "inbox c"] c wu by auto
  have hd: "bindG (slice_from buf ?s) Uint32 = Ret (of_nat ?n)"
    using f1 sz by (intro head_window [of _ e _ "concat ib" _ rest]) simp_all
  have un': "unat (of_nat ?n :: u32) = ?n" using sz by (intro unat_of_nat_small) simp
  have sw: "slice_of buf ?s e = Ret (window buf ?s e)" using f1 by (intro slice_window) simp_all
  have ui: "uint (of_nat ?n :: u32) = int ?n" using un' by (metis uint_nat)
  note run = conn_Read_def Let_def MinimumMessageSize_def readBufferSize_def f1(1) hd un' ui sw
  show thesis
  proof (cases "?n > 2048 - ?s")
    case True
    obtain e' ib' where f2: "fill (copy_at (replicate ?n 0) 0 ?n (window buf ?s e)) 0 (e - ?s) ib ?n
        = Ret (True, msg_bytes m, e', ib')" "concat ib' = rest"
      by (rule read_big [of ?s e buf m ib rest]) (use f1 True in simp_all)
    have big: "int ?n > 2048 - int ?s" using True by simp
    show thesis
      by (rule that [of "c\<lparr>readBuffer := buf, readEnd := 0, inbox := ib', readStart := 0\<rparr>"])
        (use big True f2 f1(2) in \<open>simp_all add: run msg_bytes_inverse [OF sz] unread_def window_def\<close>)
  next
    case False
    then have small: "?s + ?n \<le> 2048" "\<not> int ?n > 2048 - int ?s" using c(4) by simp_all
    have "?n \<le> length (window buf ?s e @ concat ib)" unfolding f1(5) by simp
    then obtain buf' e' ib' where f2: "fill buf ?s e ib ?n = Ret (True, buf', e', ib')" "length buf' = 2048"
      "e' \<le> 2048" "?s + ?n \<le> e'" "window buf' ?s e' @ concat ib' = msg_bytes m @ rest"
      using fill_enough [of ?s e buf ?n ib] f1 small by auto
    have fr: "window buf' ?s (?s + ?n) = msg_bytes m" "window buf' (?s + ?n) e' @ concat ib' = rest"
      by (rule window_frame [of _ e' _ _ "concat ib'" rest]; use f2 in simp)+
    show thesis
    proof (cases "?s > 1400")
      case True
      let ?part = "window buf' ?s e'" and ?buf = "copy_at buf' 0 2048 (window buf' ?s e')"
      have lp: "length ?part = e' - ?s" using f2 by simp
      have wp: "window ?buf 0 (e' - ?s) = ?part"
        using window_copy [of 0 0 buf' ?part 2048] f2(2,3) lp by (simp add: window_def)
      have lb: "length ?buf = 2048" using f2(2) by simp
      have w: "window ?buf 0 (e' - ?s) @ concat ib' = msg_bytes m @ rest" unfolding wp by (rule f2(5))
      have fr': "window ?buf 0 ?n = msg_bytes m" "window ?buf ?n (e' - ?s) @ concat ib' = rest"
        using window_frame [of 0 "e' - ?s" ?buf m "concat ib'" rest] f2(3,4) lb w by simp_all
      have "slice_of ?buf 0 ?n = Ret (msg_bytes m)" using fr'(1) lb small by (simp add: slice_window)
      moreover have "slice_of buf' ?s e' = Ret ?part" using f2 by (intro slice_window) simp_all
      ultimately show thesis
        by (intro that [of "c\<lparr>readBuffer := ?buf, readEnd := e' - ?s, inbox := ib', readStart := ?n\<rparr>"])
          (use True small False f2(1-4) lb fr'(2) in \<open>simp_all add: run msg_bytes_inverse [OF sz] unread_def\<close>)
    next
      case ns: False
      have "slice_of buf' ?s (?s + ?n) = Ret (msg_bytes m)" using fr(1) f2(2) small by (simp add: slice_window)
      then show thesis
        by (intro that [of "c\<lparr>readBuffer := buf', readEnd := e', inbox := ib', readStart := ?s + ?n\<rparr>"])
          (use ns small False f2(1-4) fr(2) in \<open>simp_all add: run msg_bytes_inverse [OF sz] unread_def\<close>)
    qed
  qed
qed

lemma read_step:
  assumes "reader_ok c" and "unread c = msg_bytes m @ rest" and "readable_size m"
  obtains c' where "conn_Read c = Ret (Inr m, c')" and "unread c' = rest" and "reader_ok c'"
proof -
  have "msg_size m < 2 ^ 32" using assms(3) by (auto simp: readable_size_def)
  with assms(1,2) show thesis
  proof (rule read_message)
    fix c'
    assume c': "conn_Read c = Ret (Inr m, c')" "unread c' = rest" "length (readBuffer c') = readBufferSize"
      "readStart c' \<le> readEnd c'" "readEnd c' \<le> readBufferSize"
      "readStart c' = (if msg_size m > readBufferSize - readStart c then 0
           else if readStart c > 1400 then msg_size m else readStart c + msg_size m)"
    have "readStart c' + MinimumMessageSize \<le> readBufferSize"
      using c'(6) assms(1,3)
      by (auto simp: readable_size_def readBufferSize_def MinimumMessageSize_def reader_ok_def split: if_splits)
    then show thesis using that c' by (simp add: reader_ok_def)
  qed
qed

lemma read_msgs_all:
  assumes "reader_ok c" and "unread c = concat (map msg_bytes ms) @ rest" and "\<forall>m\<in>set ms. readable_size m"
  shows "\<exists>c'. read_msgs (length ms) c = Ret (ms, c') \<and> unread c' = rest \<and> reader_ok c'"
  using assms
proof (induction ms arbitrary: c)
  case (Cons m ms)
  have u: "unread c = msg_bytes m @ concat (map msg_bytes ms) @ rest" using Cons.prems(2) by simp
  have m: "readable_size m" "\<forall>m\<in>set ms. readable_size m" using Cons.prems(3) by simp_all
  obtain c1 where c1: "conn_Read c = Ret (Inr m, c1)" "unread c1 = concat (map msg_bytes ms) @ rest" "reader_ok c1"
    using Cons.prems(1) u m(1) by (rule read_step)
  from Cons.IH [OF c1(3,2) m(2)] obtain c2 where "read_msgs (length ms) c1 = Ret (ms, c2)"
    "unread c2 = rest" "reader_ok c2" by blast
  then show ?case using c1(1) by simp
qed simp

section \<open>Lemmas: writing\<close>

text \<open>What was handed to the connection: the bytes sent and the bytes in the write buffer.\<close>

definition handed :: "conn \<Rightarrow> bytes" where
  "handed c = outbox c @ take (writeIndex c) (writeBuffer c)"

definition writer_ok :: "conn \<Rightarrow> bool" where
  "writer_ok c \<longleftrightarrow> length (writeBuffer c) = writeBufferSize \<and> writeIndex c \<le> writeBufferSize"

lemma conn_recv_frame [simp]:
  "writeBuffer (conn_recv c) = writeBuffer c" "writeIndex (conn_recv c) = writeIndex c"
  "outbox (conn_recv c) = outbox c" "wfails (conn_recv c) = wfails c" "buffering (conn_recv c) = buffering c"
  "tcp_closed (conn_recv c) = tcp_closed c"
  by (simp_all add: conn_recv_def split: list.splits)

text \<open>A message that does not change the mode is written at once, the others when there is room in the channel.\<close>

definition write_room :: "conn \<Rightarrow> message \<Rightarrow> bool" where
  "write_room c m \<longleftrightarrow> (msg_Type m = OpSetBuffered \<or> msg_Type m = OpSetNoDelay \<longrightarrow> ch c = [])"

lemma set_mode_room:
  assumes "write_room c m"
  shows "\<exists>c1. set_mode c m = Ret c1 \<and> writeBuffer c1 = writeBuffer c \<and> writeIndex c1 = writeIndex c
    \<and> outbox c1 = outbox c \<and> wfails c1 = wfails c"
  using assms by (simp add: set_mode_def conn_send_def write_room_def)

lemma write_has_room: "conn_Write c m = Ret x \<Longrightarrow> write_room c m"
  by (auto simp: conn_Write_def set_mode_def conn_send_def write_room_def split: if_splits)

lemma tcpWrite_ok:
  "wfails c = [] \<Longrightarrow> tcpWrite c b = (None, c\<lparr>outbox := outbox c @ b\<rparr>)"
  by (simp add: tcpWrite_def)

lemma write_message:
  assumes ok: "writer_ok c" and nf: "wfails c = []" and room: "write_room c m"
  obtains c' where "conn_Write c m = Ret (None, c')" and "writer_ok c'" and "wfails c' = []"
    and "handed c' = handed c @ msg_bytes m" and "\<not> buffering c' \<longrightarrow> writeIndex c' = 0"
proof -
  obtain c1 where mode: "set_mode c m = Ret c1"
    and c1: "writeBuffer c1 = writeBuffer c" "writeIndex c1 = writeIndex c" "outbox c1 = outbox c" "wfails c1 = []"
    using set_mode_room [OF room] nf by auto
  let ?b = "writeBuffer c" and ?i = "writeIndex c" and ?n = "msg_size m"
  have w: "length ?b = 1450" "?i \<le> 1450" using ok by (simp_all add: writer_ok_def writeBufferSize_def)
  note run = conn_Write_def Let_def mode c1 slice_from_def slice_of_def writeBufferSize_def
    tcpWrite_ok
  show thesis
  proof (cases "?n \<le> 1450 - ?i")
    case True
    let ?wb = "take ?i ?b @ msg_bytes m @ drop (?i + ?n) ?b"
    have m: "Marshal m (drop ?i ?b) = Ret (?n, False, msg_bytes m @ drop (?i + ?n) ?b)"
      using Marshal_fits [of m "drop ?i ?b"] w True by (simp add: add.commute)
    have t: "take (?i + ?n) ?wb = take ?i ?b @ msg_bytes m" using w by simp
    show thesis
    proof (cases "buffering c1")
      case b: True
      show thesis
        by (rule that [of "c1\<lparr>writeBuffer := ?wb, writeIndex := ?i + ?n\<rparr>"])
          (use b True w t in \<open>simp_all add: run m handed_def writer_ok_def\<close>)
    next
      case nb: False
      show thesis
        by (rule that [of "c1\<lparr>writeBuffer := ?wb, writeIndex := 0, outbox := outbox c @ take ?i ?b @ msg_bytes m\<rparr>"])
          (use nb True w t in \<open>simp_all add: run m handed_def writer_ok_def\<close>)
    qed
  next
    case False
    have m: "Marshal m (drop ?i ?b) = Ret (?n, True, drop ?i ?b)"
      using Marshal_too_long [of "drop ?i ?b" m] w False by simp
    let ?o = "outbox c @ take ?i ?b"
    show thesis
    proof (cases "?n > 1450")
      case True
      have "Marshal m (replicate ?n 0) = Ret (?n, False, msg_bytes m)"
        using Marshal_fits [of m "replicate ?n 0"] by simp
      then show thesis
        by (intro that [of "c1\<lparr>writeBuffer := ?b, writeIndex := 0, outbox := ?o @ msg_bytes m\<rparr>"])
          (use True w in \<open>simp_all add: run m handed_def writer_ok_def\<close>)
    next
      case nl: False
      let ?wb = "msg_bytes m @ drop ?n ?b"
      have m2: "Marshal m ?b = Ret (?n, False, ?wb)" using Marshal_fits [of m ?b] w nl by simp
      show thesis
      proof (cases "buffering c1")
        case b: True
        show thesis
          by (rule that [of "c1\<lparr>writeBuffer := ?wb, writeIndex := ?n, outbox := ?o\<rparr>"])
            (use b nl w in \<open>simp_all add: run m m2 handed_def writer_ok_def\<close>)
      next
        case nb: False
        show thesis
          by (rule that [of "c1\<lparr>writeBuffer := ?wb, writeIndex := 0, outbox := ?o @ msg_bytes m\<rparr>"])
            (use nb nl w in \<open>simp_all add: run m m2 handed_def writer_ok_def\<close>)
      qed
    qed
  qed
qed

lemma tcpWrite_frame:
  assumes "tcpWrite c b = (e, c')"
  shows "writeBuffer c' = writeBuffer c" and "writeIndex c' = writeIndex c" and "buffering c' = buffering c"
  using assms by (auto simp: tcpWrite_def split: if_splits list.splits option.splits)

lemma write_returns:
  assumes ok: "writer_ok c" and room: "write_room c m"
  shows "\<exists>e c'. conn_Write c m = Ret (e, c') \<and> writer_ok c'"
proof -
  obtain c1 where mode: "set_mode c m = Ret c1" and c1: "length (writeBuffer c1) = 1450" "writeIndex c1 \<le> 1450"
    using set_mode_room [OF room] ok by (auto simp: writer_ok_def writeBufferSize_def)
  let ?i = "writeIndex c1" and ?n = "msg_size m"
  have fin: "\<exists>e d. (let c' = c2\<lparr>writeIndex := writeIndex c2 + ?n\<rparr> in
      if \<not> buffering c2 then
        bindG (slice_of (writeBuffer c') 0 (writeIndex c')) (\<lambda>b.
        let (e, c'') = tcpWrite c' b in Ret (e, c''\<lparr>writeIndex := 0\<rparr>))
      else Ret (None, c')) = Ret (e, d) \<and> writer_ok d"
    if "length (writeBuffer c2) = 1450" "writeIndex c2 + ?n \<le> 1450" for c2
    using that
    by (auto simp: Let_def slice_of_def writer_ok_def writeBufferSize_def tcpWrite_frame split: prod.splits
        dest: tcpWrite_frame(1))
  show ?thesis
  proof (cases "?n \<le> 1450 - ?i")
    case True
    then have m: "Marshal m (drop ?i (writeBuffer c1)) = Ret (?n, False, msg_bytes m @ drop (?n + ?i) (writeBuffer c1))"
      using Marshal_fits [of m "drop ?i (writeBuffer c1)"] c1 by simp
    let ?wb = "take ?i (writeBuffer c1) @ msg_bytes m @ drop (?n + ?i) (writeBuffer c1)"
    show ?thesis
      unfolding conn_Write_def Let_def mode
      using c1 True fin [of "c1\<lparr>writeBuffer := ?wb\<rparr>"]
      by (cases "buffering c1") (simp_all add: slice_from_def m Let_def)
  next
    case False
    then have m: "Marshal m (drop ?i (writeBuffer c1)) = Ret (?n, True, drop ?i (writeBuffer c1))"
      using Marshal_too_long [of "drop ?i (writeBuffer c1)" m] c1 by simp
    obtain e c3 where w: "tcpWrite c1 (take ?i (writeBuffer c1)) = (e, c3)" by fastforce
    note f = tcpWrite_frame [OF w]
    show ?thesis
    proof (cases "e = None \<and> ?n \<le> 1450")
      case True
      then have "Marshal m (writeBuffer c1) = Ret (?n, False, msg_bytes m @ drop ?n (writeBuffer c1))"
        using Marshal_fits [of m "writeBuffer c1"] c1 by simp
      then show ?thesis
        unfolding conn_Write_def Let_def mode
        using c1 True w f fin [of "c3\<lparr>writeIndex := 0, writeBuffer := msg_bytes m @ drop ?n (writeBuffer c1)\<rparr>"]
        by (cases "buffering c3") (simp_all add: slice_from_def slice_of_def m writeBufferSize_def Let_def)
    next
      case nt: False
      obtain e4 c4 where w4: "tcpWrite (c3\<lparr>writeIndex := 0\<rparr>) (msg_bytes m) = (e4, c4)" by fastforce
      have "Marshal m (replicate ?n 0) = Ret (?n, False, msg_bytes m)"
        using Marshal_fits [of m "replicate ?n 0"] by simp
      then show ?thesis
        unfolding conn_Write_def Let_def mode using c1 nt w f w4 tcpWrite_frame [OF w4]
        by (cases e) (simp_all add: slice_from_def slice_of_def m writeBufferSize_def writer_ok_def)
    qed
  qed
qed

section \<open>Lemmas: runs of a writer\<close>

text \<open>The runs of a connection that writes messages, with the ticks and receptions of its goroutine.\<close>

inductive writes :: "conn \<Rightarrow> message list \<Rightarrow> conn \<Rightarrow> bool" where
  w_start: "writes c [] c"
| w_write: "writes c ms c1 \<Longrightarrow> conn_Write c1 m = Ret (e, c2) \<Longrightarrow> writes c (ms @ [m]) c2"
| w_tick: "writes c ms c1 \<Longrightarrow> conn_tick c1 = Ret c2 \<Longrightarrow> writes c ms c2"
| w_recv: "writes c ms c1 \<Longrightarrow> c2 = conn_recv c1 \<Longrightarrow> writes c ms c2"

text \<open>
  The goroutine knows or will know whether to tick, and without buffering nothing stays in
  the buffer.
\<close>

definition ticking :: "conn \<Rightarrow> bool" where
  "ticking c \<longleftrightarrow> (if ch c = [] then ticker c = buffering c else ch c = [if buffering c then 1 else 0])"

definition flushing :: "conn \<Rightarrow> bool" where
  "flushing c \<longleftrightarrow> ticking c \<and> (\<not> buffering c \<longrightarrow> writeIndex c = 0)"

lemma ticking_frame [simp]:
  "ticking (c\<lparr>writeBuffer := b\<rparr>) = ticking c" "ticking (c\<lparr>writeIndex := i\<rparr>) = ticking c"
  "ticking (c\<lparr>outbox := o'\<rparr>) = ticking c"
  by (simp_all add: ticking_def)

lemma ticking_recv: "ticking c \<Longrightarrow> ticking (conn_recv c) \<and> ch (conn_recv c) = []"
  by (auto simp: ticking_def conn_recv_def split: list.splits if_splits)

lemma ticking_mode: "ticking c \<Longrightarrow> set_mode c m = Ret c1 \<Longrightarrow> ticking c1 \<and> wfails c1 = wfails c"
  by (auto simp: ticking_def set_mode_def conn_send_def split: if_splits)

lemma write_ticking:
  assumes "ticking c" and "conn_Write c m = Ret (e, c')" and nf: "wfails c = []"
  shows "ticking c'"
proof -
  obtain c1 where mode: "set_mode c m = Ret c1" using assms(2) by (auto simp: conn_Write_def bindG_eq_Ret)
  then have "ticking c1" "wfails c1 = []" using ticking_mode [OF assms(1)] nf by simp_all
  then show ?thesis
    using assms(2) unfolding conn_Write_def Let_def mode
    by (auto simp: bindG_eq_Ret tcpWrite_ok split: if_splits)
qed

lemma tick_flush:
  assumes "writer_ok c" and "wfails c = []" and "flushing c"
  obtains c' where "conn_tick c = Ret c'" and "writer_ok c'" and "wfails c' = []" and "flushing c'"
    and "handed c' = handed c" and "ch c = [] \<Longrightarrow> outbox c' = handed c"
proof (cases "ticker c")
  case True
  let ?c = "c\<lparr>outbox := handed c, writeIndex := 0\<rparr>"
  have "conn_tick c = Ret ?c"
    using True assms by (simp add: conn_tick_def slice_of_def writer_ok_def tcpWrite_ok handed_def)
  then show thesis
    by (rule that) (use assms in \<open>simp_all add: writer_ok_def flushing_def handed_def ticking_def\<close>)
next
  case False
  have "outbox c = handed c" if "ch c = []"
    using that False assms(3) by (simp add: flushing_def ticking_def handed_def)
  then show thesis using that [of c] False assms by (simp add: conn_tick_def)
qed

lemma writes_handed:
  assumes "writes c ms c'" and "writer_ok c" and "wfails c = []" and "flushing c"
  shows "writer_ok c' \<and> wfails c' = [] \<and> flushing c' \<and> handed c' = handed c @ concat (map msg_bytes ms)"
  using assms
proof (induction rule: writes.induct)
  case (w_write c ms c1 m e c2)
  then have c1: "writer_ok c1" "wfails c1 = []" "flushing c1" "handed c1 = handed c @ concat (map msg_bytes ms)"
    by simp_all
  obtain c3 where "conn_Write c1 m = Ret (None, c3)" "writer_ok c3" "wfails c3 = []"
    "handed c3 = handed c1 @ msg_bytes m" "\<not> buffering c3 \<longrightarrow> writeIndex c3 = 0"
    using c1(1,2) write_has_room [OF w_write.hyps(2)] by (rule write_message)
  moreover have "ticking c2"
    using write_ticking [of c1 m e c2] w_write.hyps(2) c1(2,3) by (simp add: flushing_def)
  ultimately show ?case using w_write.hyps(2) c1(4) by (simp add: flushing_def)
next
  case (w_tick c ms c1 c2)
  then have c1: "writer_ok c1" "wfails c1 = []" "flushing c1" "handed c1 = handed c @ concat (map msg_bytes ms)"
    by simp_all
  from c1(1-3) show ?case by (rule tick_flush) (use w_tick.hyps(2) c1(4) in simp)
next
  case (w_recv c ms c1 c2)
  then show ?case using ticking_recv [of c1] by (simp add: writer_ok_def flushing_def handed_def)
qed simp

lemma conn_New_ok:
  "writer_ok (conn_New ib fs)" "wfails (conn_New ib fs) = fs" "flushing (conn_New ib fs)"
  "handed (conn_New ib fs) = []" "reader_ok (conn_New ib fs)" "unread (conn_New ib fs) = concat ib"
  by (simp_all add: conn_New_def writer_ok_def flushing_def ticking_def handed_def
      reader_ok_def unread_def window_def readBufferSize_def writeBufferSize_def MinimumMessageSize_def)

section \<open>Properties\<close>

text \<open>
  C21: Messages of at most 635 bytes, or of more than 2048 and less than \<open>2 ^ 32\<close> bytes, are delivered once, unchanged
  and in order: when a connection whose writes do not fail has written some of them, each \<open>Write\<close> having
  returned, with its goroutine running in between, then one more reception and tick of the goroutine has sent
  exactly their bytes, and a connection that receives these bytes, in whatever pieces, reads exactly these
  messages. Sizes from 636 to 2048 bytes, for which a reader can hang, are excluded.
\<close>

theorem messages_delivered:
  assumes "writes (conn_New [] []) ms c" and "\<forall>m\<in>set ms. readable_size m"
  shows "\<exists>c'. conn_tick (conn_recv c) = Ret c' \<and> outbox c' = concat (map msg_bytes ms)
    \<and> (\<forall>ib fs. concat ib = outbox c' \<longrightarrow> (\<exists>r. read_msgs (length ms) (conn_New ib fs) = Ret (ms, r) \<and> unread r = []))"
proof -
  note n = conn_New_ok [of "[]" "[]"]
  have c: "writer_ok c" "wfails c = []" "flushing c" "handed c = concat (map msg_bytes ms)"
    using writes_handed [OF assms(1) n(1,2,3)] n(4) by simp_all
  have r: "writer_ok (conn_recv c)" "wfails (conn_recv c) = []" "flushing (conn_recv c)"
    "handed (conn_recv c) = concat (map msg_bytes ms)" "ch (conn_recv c) = []"
    using c ticking_recv [of c] by (simp_all add: writer_ok_def flushing_def handed_def)
  from r(1-3) obtain c' where c': "conn_tick (conn_recv c) = Ret c'" "outbox c' = concat (map msg_bytes ms)"
    by (rule tick_flush) (use r(4,5) in simp)
  have "\<exists>r. read_msgs (length ms) (conn_New ib fs) = Ret (ms, r) \<and> unread r = []" if "concat ib = outbox c'" for ib fs
    using read_msgs_all [of "conn_New ib fs" ms "[]"] conn_New_ok(5,6) that c'(2) assms(2) by auto
  then show ?thesis using c' by blast
qed

theorem messages_delivered_witness:
  "\<exists>r. read_msgs 1 (conn_New [take 5 (msg_bytes ex_msg), drop 5 (msg_bytes ex_msg)] []) = Ret ([ex_msg], r)"
proof -
  have "write_room (conn_New [] []) ex_msg" by (simp add: write_room_def ex_msg_def op_codes)
  with conn_New_ok(1,2) obtain c where c: "conn_Write (conn_New [] []) ex_msg = Ret (None, c)"
    by (rule write_message)
  have w: "writes (conn_New [] []) ([] @ [ex_msg]) c" by (rule w_write [OF w_start c])
  have "readable_size ex_msg" by (simp add: readable_size_def msg_size_def ex_msg_def)
  then have "\<forall>m\<in>set ([] @ [ex_msg]). readable_size m" by simp
  from messages_delivered [OF w this] obtain c' :: conn
    where c': "outbox c' = concat (map msg_bytes ([] @ [ex_msg]))"
    "\<forall>ib fs. concat ib = outbox c' \<longrightarrow> (\<exists>r. read_msgs (length ([] @ [ex_msg])) (conn_New ib fs)
       = Ret ([] @ [ex_msg], r) \<and> unread r = [])"
    by (elim exE conjE that)
  have "concat [take 5 (msg_bytes ex_msg), drop 5 (msg_bytes ex_msg)] = outbox c'" using c'(1) by simp
  with c'(2) have "\<exists>r. read_msgs (length ([] @ [ex_msg])) (conn_New [take 5 (msg_bytes ex_msg), drop 5 (msg_bytes ex_msg)] [])
      = Ret ([] @ [ex_msg], r) \<and> unread r = []" by blast
  moreover have "length ([] @ [ex_msg]) = 1" by simp
  ultimately show ?thesis unfolding append_Nil by metis
qed

lemma fill_full:
  "start + need \<le> end \<Longrightarrow> fill buf start end ib need = Ret (True, buf, end, ib)"
  by (subst fill.simps) simp

lemma read_buffered:
  assumes c: "length (readBuffer c) = 2048" "readEnd c = 2048" "readStart c \<le> 1400"
    and un: "unread c = msg_bytes m @ rest" and sz: "readStart c + msg_size m \<le> 2048"
  shows "conn_Read c = Ret (Inr m, c\<lparr>readStart := readStart c + msg_size m\<rparr>)"
    and "unread (c\<lparr>readStart := readStart c + msg_size m\<rparr>) = rest"
proof -
  let ?s = "readStart c" and ?n = "msg_size m" and ?b = "readBuffer c"
  have w: "window ?b ?s 2048 @ concat (inbox c) = msg_bytes m @ rest" using un c(2) by (simp add: unread_def)
  have sz': "?n < 2 ^ 32" using sz by simp
  have "bindG (slice_from ?b ?s) Uint32 = Ret (of_nat ?n)"
    using w sz' c by (intro head_window [of _ 2048 _ "concat (inbox c)" _ rest]) simp_all
  moreover have un': "unat (of_nat ?n :: u32) = ?n" using sz' by (intro unat_of_nat_small) simp
  moreover have "uint (of_nat ?n :: u32) = int ?n" using un' by (metis uint_nat)
  moreover have fr: "window ?b ?s (?s + ?n) = msg_bytes m" "window ?b (?s + ?n) 2048 @ concat (inbox c) = rest"
    by (rule window_frame [of _ 2048 _ _ "concat (inbox c)" rest]; use w c sz in simp)+
  moreover have "slice_of ?b ?s (?s + ?n) = Ret (msg_bytes m)" using fr(1) c(1) sz by (simp add: slice_window)
  ultimately show "conn_Read c = Ret (Inr m, c\<lparr>readStart := ?s + ?n\<rparr>)"
    using c sz sz'
    by (simp add: conn_Read_def Let_def MinimumMessageSize_def readBufferSize_def fill_full msg_bytes_inverse)
  show "unread (c\<lparr>readStart := ?s + ?n\<rparr>) = rest" using fr(2) c(2) by (simp add: unread_def)
qed

text \<open>
  C40: A connection can hang for ever: after a message of 1400 bytes and one of 640 bytes that
  arrive in one piece with the message behind them, 8 bytes of its header are left at
  the end of the read buffer, there is no room to read more, and the third \<open>Read\<close> spins on
  reads of no bytes.
\<close>

theorem reader_livelock:
  assumes "msg_size m1 = 1400" and "msg_size m2 = 640"
  shows "\<exists>c. read_msgs 2 (conn_New [msg_bytes m1 @ msg_bytes m2 @ msg_bytes m3] []) = Ret ([m1, m2], c)
    \<and> unread c = msg_bytes m3 \<and> conn_Read c = Loop"
proof -
  define d where "d = msg_bytes m1 @ msg_bytes m2 @ msg_bytes m3"
  have "8 < msg_size m3" by (simp add: msg_size_def)
  then have ld: "2048 < length d" using assms by (simp add: d_def)
  let ?c0 = "conn_New [d] []"
  define c1 where "c1 = ?c0\<lparr>readBuffer := take 2048 d, readEnd := 2048, inbox := [drop 2048 d]\<rparr>"
  have z: "readBuffer ?c0 = replicate 2048 0" "readStart ?c0 = 0" "readEnd ?c0 = 0" "inbox ?c0 = [d]"
    by (simp_all add: conn_New_def readBufferSize_def)
  have "fill (replicate 2048 0) 0 0 [d] 13 = fill (take 2048 d) 0 2048 [drop 2048 d] 13"
    using ld by (subst fill.simps) (simp add: copy_at_def)
  then have f: "fill (replicate 2048 0) 0 0 [d] 13 = Ret (True, take 2048 d, 2048, [drop 2048 d])"
    by (simp add: fill_full)
  have r0: "conn_Read ?c0 = conn_Read c1"
    by (simp add: conn_Read_def z c1_def f fill_full MinimumMessageSize_def Let_def cong: if_cong)
  have c1: "length (readBuffer c1) = 2048" "readEnd c1 = 2048" "readStart c1 = 0"
    "unread c1 = d"
    using ld z by (simp_all add: c1_def unread_def window_def)
  let ?c2 = "c1\<lparr>readStart := readStart c1 + msg_size m1\<rparr>"
  have r1: "conn_Read c1 = Ret (Inr m1, ?c2)" "unread ?c2 = msg_bytes m2 @ msg_bytes m3"
    by (rule read_buffered; use c1 assms in \<open>simp add: d_def\<close>)+
  let ?c3 = "?c2\<lparr>readStart := readStart ?c2 + msg_size m2\<rparr>"
  have r2: "conn_Read ?c2 = Ret (Inr m2, ?c3)" "unread ?c3 = msg_bytes m3"
    by (rule read_buffered [OF _ _ _ r1(2)]; use c1 assms in simp)+
  have "conn_Read ?c3 = Loop"
    using c1 assms by (subst conn_Read_def) (simp add: fill.simps MinimumMessageSize_def)
  then show ?thesis
    using r0 r1 r2 by (auto simp: d_def numeral_2_eq_2)
qed

theorem reader_livelock_witness:
  "\<exists>m1 m2 m3 c. read_msgs 2 (conn_New [msg_bytes m1 @ msg_bytes m2 @ msg_bytes m3] []) = Ret ([m1, m2], c)
    \<and> conn_Read c = Loop"
  using reader_livelock [of "ex_msg\<lparr>msg_Value := replicate 1385 0\<rparr>" "ex_msg\<lparr>msg_Value := replicate 625 0\<rparr>" ex_msg]
  by (auto simp: msg_size_def ex_msg_def)

end
