(* ===== verification/Timeout_Queue.thy ===== *)
theory Timeout_Queue
  imports Treeless_Prelude
begin

text \<open>
  The queue of timeouts of a client connection (src/com/comclient.go): a doubly linked list of
  deadlines, kept in a store of nodes because the code shares and rewires them. The tail is
  the end with the latest deadline; \<open>next\<close> leads from there to the head, which has the
  earliest one.
\<close>

section \<open>Nodes and queue\<close>

record timeoutMsg =
  tm_t :: time
  tm_tid :: u32
  tm_prev :: "nat option"
  tm_next :: "nat option"

text \<open>
  A pointer is an index into the store. A node of the pool has no neighbours and is as good as
  a new one, so that \<open>pool.Get\<close> is the allocation of a node.
\<close>

record queue =
  q_head :: "nat option"
  q_tail :: "nat option"
  q_l :: int
  q_store :: "timeoutMsg list"

definition createQueue :: queue where
  "createQueue = \<lparr>q_head = None, q_tail = None, q_l = 0, q_store = []\<rparr>"

definition pool_get :: "queue \<Rightarrow> time \<Rightarrow> u32 \<Rightarrow> nat \<times> queue" where
  "pool_get q t tid = (length (q_store q),
     q\<lparr>q_store := q_store q @ [\<lparr>tm_t = t, tm_tid = tid, tm_prev = None, tm_next = None\<rparr>]\<rparr>)"

definition deref :: "queue \<Rightarrow> nat option \<Rightarrow> timeoutMsg go" where
  "deref q p = (case p of None \<Rightarrow> Panic NilPointer | Some a \<Rightarrow> index_of (q_store q) a)"

definition set_prev :: "queue \<Rightarrow> nat option \<Rightarrow> nat option \<Rightarrow> queue go" where
  "set_prev q p v = (case p of None \<Rightarrow> Panic NilPointer
     | Some a \<Rightarrow> Ret (q\<lparr>q_store := (q_store q)[a := (q_store q ! a)\<lparr>tm_prev := v\<rparr>]\<rparr>))"

definition set_next :: "queue \<Rightarrow> nat option \<Rightarrow> nat option \<Rightarrow> queue go" where
  "set_next q p v = (case p of None \<Rightarrow> Panic NilPointer
     | Some a \<Rightarrow> Ret (q\<lparr>q_store := (q_store q)[a := (q_store q ! a)\<lparr>tm_next := v\<rparr>]\<rparr>))"

section \<open>Operations\<close>

text \<open>
  The search of \<open>push\<close>. It follows \<open>next\<close> without changing the store: a search of more steps
  than there are nodes has met a node twice and never ends.
\<close>

fun push_walk :: "nat \<Rightarrow> queue \<Rightarrow> nat option \<Rightarrow> time \<Rightarrow> nat option go" where
  "push_walk 0 q x t = Loop"
| "push_walk (Suc n) q x t =
     bindG (deref q x) (\<lambda>nd. if tm_next nd \<noteq> None \<and> tm_t nd > t then push_walk n q (tm_next nd) t else Ret x)"

definition push :: "queue \<Rightarrow> nat \<Rightarrow> queue go" where
  "push q0 tm =
     (let q = q0\<lparr>q_l := q_l q0 + 1\<rparr> in
      if q_l q = 1 then Ret (q\<lparr>q_tail := Some tm, q_head := Some tm\<rparr>)
      else bindG (deref q (Some tm)) (\<lambda>new.
        bindG (push_walk (Suc (length (q_store q))) q (q_tail q) (tm_t new)) (\<lambda>x.
        bindG (deref q x) (\<lambda>nd.
        bindG (if tm_next nd = None \<and> tm_t nd > tm_t new
               then bindG (set_next (q\<lparr>q_head := Some tm\<rparr>) x (Some tm)) (\<lambda>q. set_prev q (Some tm) x)
               else Ret q) (\<lambda>q.
        bindG (deref q x) (\<lambda>nd.
        let prev = tm_prev nd in
        bindG (set_prev q x (Some tm)) (\<lambda>q.
        bindG (set_next q (Some tm) x) (\<lambda>q.
        bindG (set_prev q (Some tm) prev) (\<lambda>q.
        if prev \<noteq> None then set_next q prev (Some tm) else Ret (q\<lparr>q_tail := Some tm\<rparr>))))))))))"

definition queue_len :: "queue \<Rightarrow> int" where
  "queue_len q = q_l q"

text \<open>
  \<open>clean\<close> and \<open>forall\<close> return the identifiers for which they call the callback, in the order of
  the calls. Each turn takes one from the length, which bounds the loops.
\<close>

function clean :: "queue \<Rightarrow> time \<Rightarrow> (u32 list \<times> queue) go" where
  "clean q now =
     (if q_l q > 0 then
        bindG (deref q (q_head q)) (\<lambda>f.
        if now > tm_t f then
          let fp = q_head q; q1 = q\<lparr>q_head := tm_prev f, q_l := q_l q - 1\<rparr> in
          bindG (if q_l q1 = 1 then bindG (set_next q1 (q_head q1) None) (\<lambda>q2. Ret (q2\<lparr>q_tail := q_head q2\<rparr>))
                 else if q_l q1 > 1 then set_next q1 (q_head q1) None
                 else Ret (q1\<lparr>q_head := None, q_tail := None\<rparr>)) (\<lambda>q3.
          bindG (set_next q3 fp None) (\<lambda>q4.
          bindG (set_prev q4 fp None) (\<lambda>q5.
          bindG (clean q5 now) (\<lambda>(tids, q6). Ret (tm_tid f # tids, q6)))))
        else Ret ([], q))
      else Ret ([], q))"
  by pat_completeness auto

termination
proof (relation "measure (\<lambda>(q, now). nat (q_l q))", goal_cases)
  case (2 q now f fp q1 q3 q4 q5)
  then have "q_l q5 = q_l q1" "q_l q1 = q_l q - 1"
    by (auto simp: set_next_def set_prev_def bindG_eq_Ret split: option.splits if_splits)
  with 2 show ?case by simp
qed simp

declare clean.simps [simp del]

function forall_queue :: "queue \<Rightarrow> (u32 list \<times> queue) go" where
  "forall_queue q =
     (if q_l q > 0 then
        bindG (deref q (q_head q)) (\<lambda>f.
        let fp = q_head q; q1 = q\<lparr>q_head := tm_prev f\<rparr> in
        bindG (set_next q1 fp None) (\<lambda>q2.
        bindG (set_prev q2 fp None) (\<lambda>q3.
        bindG (forall_queue (q3\<lparr>q_l := q_l q3 - 1\<rparr>)) (\<lambda>(tids, q4). Ret (tm_tid f # tids, q4)))))
      else Ret ([], q\<lparr>q_head := None, q_tail := None\<rparr>))"
  by pat_completeness auto

termination
proof (relation "measure (\<lambda>q. nat (q_l q))", goal_cases)
  case (2 q f fp q1 q2 q3)
  then have "q_l q3 = q_l q"
    by (auto simp: set_next_def set_prev_def split: option.splits)
  with 2 show ?case by simp
qed simp

declare forall_queue.simps [simp del]

section \<open>Specification\<close>

text \<open>
  The interface the broker relies on: a queue stands for the list of its deadlines and
  identifiers, the earliest first. A deadline is accepted when it is not earlier than the
  earliest one.
\<close>

type_synonym deadline = "time \<times> u32"

definition add_deadline :: "deadline \<Rightarrow> deadline list \<Rightarrow> deadline list" where
  "add_deadline e es = takeWhile (\<lambda>d. fst d \<le> fst e) es @ e # dropWhile (\<lambda>d. fst d \<le> fst e) es"

locale timeout_queue =
  fixes rep :: "'q \<Rightarrow> deadline list \<Rightarrow> bool"
    and start :: 'q
    and add :: "'q \<Rightarrow> time \<Rightarrow> u32 \<Rightarrow> 'q go"
    and expired :: "'q \<Rightarrow> time \<Rightarrow> (u32 list \<times> 'q) go"
    and drain :: "'q \<Rightarrow> (u32 list \<times> 'q) go"
  assumes rep_start: "rep start []"
    and rep_add: "rep q es \<Longrightarrow> es = [] \<or> fst (hd es) \<le> t \<Longrightarrow> \<exists>q'. add q t tid = Ret q' \<and> rep q' (add_deadline (t, tid) es)"
    and rep_expired: "rep q es \<Longrightarrow> \<exists>q'. expired q now = Ret (map snd (takeWhile (\<lambda>d. fst d < now) es), q')
      \<and> rep q' (dropWhile (\<lambda>d. fst d < now) es)"
    and rep_drain: "rep q es \<Longrightarrow> \<exists>q'. drain q = Ret (map snd es, q') \<and> rep q' []"
begin

lemma expire_all:
  assumes "rep q es" and "\<forall>d\<in>set es. fst d < now"
  shows "\<exists>q'. expired q now = Ret (map snd es, q') \<and> rep q' []"
proof -
  have "takeWhile (\<lambda>d. fst d < now) es = es" "dropWhile (\<lambda>d. fst d < now) es = []"
    using assms(2) by simp_all
  then show ?thesis using rep_expired [OF assms(1), of now] by metis
qed

lemma add_latest:
  assumes "rep q es" and "\<forall>d\<in>set es. fst d \<le> t"
  shows "\<exists>q'. add q t tid = Ret q' \<and> rep q' (es @ [(t, tid)])"
proof -
  have "add_deadline (t, tid) es = es @ [(t, tid)]"
    using assms(2) by (simp add: add_deadline_def)
  moreover have "es = [] \<or> fst (hd es) \<le> t" using assms(2) by (cases es) auto
  ultimately show ?thesis using rep_add [OF assms(1)] by metis
qed

end

text \<open>
  The nodes of a queue from tail to head: \<open>linked q pv as nx\<close> says that the nodes \<open>as\<close> are
  linked to each other, that \<open>pv\<close> is before the first and \<open>nx\<close> behind the last.
\<close>

fun linked :: "timeoutMsg list \<Rightarrow> nat option \<Rightarrow> nat list \<Rightarrow> nat option \<Rightarrow> bool" where
  "linked st pv [] nx = True"
| "linked st pv (a # as) nx \<longleftrightarrow> a < length st \<and> tm_prev (st ! a) = pv
     \<and> tm_next (st ! a) = (case as of [] \<Rightarrow> nx | b # _ \<Rightarrow> Some b) \<and> linked st (Some a) as nx"

definition node_deadline :: "timeoutMsg list \<Rightarrow> nat \<Rightarrow> deadline" where
  "node_deadline st a = (tm_t (st ! a), tm_tid (st ! a))"

definition nodes_ok :: "queue \<Rightarrow> nat list \<Rightarrow> bool" where
  "nodes_ok q as \<longleftrightarrow> distinct as \<and> linked (q_store q) None as None \<and> q_l q = int (length as)
     \<and> q_tail q = (case as of [] \<Rightarrow> None | a # _ \<Rightarrow> Some a)
     \<and> q_head q = (if as = [] then None else Some (last as))"

definition queue_rep :: "queue \<Rightarrow> deadline list \<Rightarrow> bool" where
  "queue_rep q es \<longleftrightarrow> (\<exists>as. nodes_ok q as \<and> es = rev (map (node_deadline (q_store q)) as)
     \<and> sorted (map fst es))"

text \<open>What the broker does to add a deadline.\<close>

definition push_new :: "queue \<Rightarrow> time \<Rightarrow> u32 \<Rightarrow> queue go" where
  "push_new q t tid = (let (tm, q') = pool_get q t tid in push q' tm)"

section \<open>Lemmas: links\<close>

lemma set_add_deadline [simp]: "set (add_deadline e es) = insert e (set es)"
proof -
  have "set (takeWhile P es) \<union> set (dropWhile P es) = set es" for P
    by (metis set_append takeWhile_dropWhile_id)
  then show ?thesis by (auto simp: add_deadline_def)
qed

lemma deadline_upd:
  "tm_t nd = tm_t (st ! b) \<Longrightarrow> tm_tid nd = tm_tid (st ! b) \<Longrightarrow> node_deadline (st[b := nd]) a = node_deadline st a"
  by (cases "a = b"; cases "b < length st") (simp_all add: node_deadline_def list_update_beyond)

lemma linked_append:
  "linked st pv (u @ w) nx \<longleftrightarrow> linked st pv u (case w of [] \<Rightarrow> nx | b # _ \<Rightarrow> Some b)
     \<and> linked st (if u = [] then pv else Some (last u)) w nx"
proof (induction u arbitrary: pv)
  case (Cons a u)
  then show ?case by (cases u) (auto split: list.splits)
qed simp

lemma linked_bound: "linked st pv as nx \<Longrightarrow> a \<in> set as \<Longrightarrow> a < length st"
  by (induction st pv as nx rule: linked.induct) auto

lemma linked_cong:
  assumes "\<forall>a\<in>set as. st' ! a = st ! a" and "length st' = length st"
  shows "linked st' pv as nx = linked st pv as nx"
  using assms by (induction st pv as nx rule: linked.induct) auto

lemma linked_grow: "linked st pv as nx \<Longrightarrow> linked (st @ [nd]) pv as nx"
  by (induction st pv as nx rule: linked.induct) (auto simp: nth_append)

lemma linked_other:
  "b \<notin> set as \<Longrightarrow> linked (st[b := nd]) pv as nx = linked st pv as nx"
  by (rule linked_cong) (metis nth_list_update_neq, simp)

lemma linked_first:
  assumes "linked st pv (x # w) nx" and "x \<notin> set w"
  shows "linked (st[x := (st ! x)\<lparr>tm_prev := pv'\<rparr>]) pv' (x # w) nx"
  using assms by (simp add: linked_other)

lemma linked_last:
  assumes "linked st pv (u @ [y]) nx" and "y \<notin> set u"
  shows "linked (st[y := (st ! y)\<lparr>tm_next := nx'\<rparr>]) pv (u @ [y]) nx'"
  using assms by (auto simp: linked_append linked_other)

lemma deref_frame [simp]: "deref (q\<lparr>q_l := m\<rparr>) p = deref q p"
  by (simp add: deref_def split: option.splits)

section \<open>Lemmas: the search\<close>

lemma push_walk_stop:
  assumes "linked (q_store q) pv as None" and "as \<noteq> []" and "tm_t (q_store q ! last as) \<le> t"
    and "length as \<le> n"
  shows "push_walk n q (Some (hd as)) t = Ret (Some (hd (dropWhile (\<lambda>a. tm_t (q_store q ! a) > t) as)))"
    and "dropWhile (\<lambda>a. tm_t (q_store q ! a) > t) as \<noteq> []"
  using assms
proof (induction as arbitrary: pv n)
  case (Cons a as)
  {
    case 1
    then obtain m where n: "n = Suc m" by (cases n) auto
    show ?case
    proof (cases "tm_t (q_store q ! a) > t")
      case False
      then show ?thesis using 1 n by (simp add: deref_def index_of_def)
    next
      case True
      then obtain b bs where as: "as = b # bs" using 1 by (cases as) auto
      have "push_walk m q (Some (hd as)) t = Ret (Some (hd (dropWhile (\<lambda>a. tm_t (q_store q ! a) > t) as)))"
        using 1 n as by (intro Cons.IH(1) [of "Some a"]) simp_all
      then show ?thesis using True 1 n as by (simp add: deref_def index_of_def)
    qed
  next
    case 2
    then show ?case using Cons.IH(2) [of "Some a" "length as"] by (cases as) auto
  }
qed simp_all

section \<open>Lemmas: the operations\<close>

text \<open>Inserting a node between two neighbours.\<close>

lemma linked_insert:
  assumes "linked st None (u @ x # w) None" and "distinct (u @ x # w)" and "tm \<notin> set (u @ x # w)"
    and "tm < length st" and "pv = tm_prev (st ! x)"
    and st3: "st3 = st[x := (st ! x)\<lparr>tm_prev := Some tm\<rparr>, tm := (st ! tm)\<lparr>tm_next := Some x, tm_prev := pv\<rparr>]"
    and st4: "st4 = (case pv of None \<Rightarrow> st3 | Some y \<Rightarrow> st3[y := (st3 ! y)\<lparr>tm_next := Some tm\<rparr>])"
  shows "linked st4 None (u @ tm # x # w) None" and "pv = (if u = [] then None else Some (last u))"
proof -
  have l: "linked st None u (Some x)" "linked st (if u = [] then None else Some (last u)) (x # w) None"
    using assms(1) by (simp_all add: linked_append)
  then show pv: "pv = (if u = [] then None else Some (last u))" using assms(5) by simp
  let ?s1 = "st[x := (st ! x)\<lparr>tm_prev := Some tm\<rparr>]"
  have l1: "linked ?s1 (Some tm) (x # w) None" using l(2) assms(2) by (intro linked_first) simp_all
  have "tm \<notin> set (x # w)" using assms(3) by simp
  from l1 have xw: "linked st3 (Some tm) (x # w) None"
    unfolding st3 linked_other [OF \<open>tm \<notin> set (x # w)\<close>] .
  have u: "linked st3 None u (Some x)"
    using l(1) assms(2,3) by (simp add: st3 linked_other)
  have tm: "tm_prev (st3 ! tm) = pv" "tm_next (st3 ! tm) = Some x" "tm < length st3"
    using assms(4) by (simp_all add: st3)
  show "linked st4 None (u @ tm # x # w) None"
  proof (cases u rule: rev_cases)
    case Nil
    then show ?thesis using pv xw tm by (simp add: st4)
  next
    case (snoc v y)
    then have s4: "st4 = st3[y := (st3 ! y)\<lparr>tm_next := Some tm\<rparr>]" using pv by (simp add: st4)
    have y: "y \<noteq> tm" "y \<notin> set (x # w)" "y \<notin> set v" using assms(2,3) snoc by auto
    have "linked st4 None (v @ [y]) (Some tm)" using u y(3) snoc unfolding s4 by (intro linked_last) simp_all
    moreover have "linked st4 (Some tm) (x # w) None" using xw y(2) unfolding s4 by (simp add: linked_other)
    moreover have "st4 ! tm = st3 ! tm" "length st4 = length st3" using y(1) by (simp_all add: s4)
    ultimately have "linked st4 None u (Some tm) \<and> linked st4 (Some y) (tm # x # w) None"
      using snoc pv tm by simp
    then show ?thesis using snoc by (subst linked_append) simp
  qed
qed

lemma push_ok:
  assumes ok: "nodes_ok q as" and new: "tm < length (q_store q)" "tm \<notin> set as" and ne: "as \<noteq> []"
    and t: "tm_t (q_store q ! last as) \<le> tm_t (q_store q ! tm)"
    and gt: "gt = (\<lambda>a. tm_t (q_store q ! a) > tm_t (q_store q ! tm))"
  obtains q' where "push q tm = Ret q'" and "nodes_ok q' (takeWhile gt as @ tm # dropWhile gt as)"
    and "\<forall>a. node_deadline (q_store q') a = node_deadline (q_store q) a"
proof -
  let ?st = "q_store q"
  have l: "linked ?st None as None" and d: "distinct as" and len: "q_l q = int (length as)"
    and tail: "q_tail q = Some (hd as)" and hd: "q_head q = Some (last as)"
    using ok ne by (auto simp: nodes_ok_def split: list.splits)
  define u where "u = takeWhile gt as"
  have "dropWhile gt as \<noteq> []" using push_walk_stop(2) [OF l ne t order_refl] by (simp add: gt)
  then obtain x w where x: "dropWhile gt as = x # w" by (cases "dropWhile gt as") auto
  then have as: "as = u @ x # w" by (metis takeWhile_dropWhile_id u_def)
  have xt: "\<not> tm_t (?st ! x) > tm_t (?st ! tm)" using x by (simp add: dropWhile_eq_Cons_conv gt)
  have xl: "x < length ?st" using l as linked_bound by fastforce
  have "length as \<le> length ?st"
  proof -
    have "set as \<subseteq> {..<length ?st}" using linked_bound [OF l] by blast
    then show ?thesis using d by (metis card_lessThan card_mono distinct_card finite_lessThan)
  qed
  then have "push_walk (Suc (length ?st)) q (Some (hd as)) (tm_t (?st ! tm)) = Ret (Some x)"
    using push_walk_stop(1) [OF l ne t, of "Suc (length ?st)"] x by (simp add: gt)
  moreover have "push_walk n (q\<lparr>q_l := m\<rparr>) a b = push_walk n q a b" for n m a b
    by (induction n arbitrary: a) (simp_all cong: if_cong)
  ultimately have walk: "push_walk (Suc (length ?st)) (q\<lparr>q_l := q_l q + 1\<rparr>) (Some (hd as)) (tm_t (?st ! tm)) = Ret (Some x)"
    by (simp only:)
  define pv where "pv = tm_prev (?st ! x)"
  define st3 where "st3 = ?st[x := (?st ! x)\<lparr>tm_prev := Some tm\<rparr>, tm := (?st ! tm)\<lparr>tm_next := Some x, tm_prev := pv\<rparr>]"
  define st4 where "st4 = (case pv of None \<Rightarrow> st3 | Some y \<Rightarrow> st3[y := (st3 ! y)\<lparr>tm_next := Some tm\<rparr>])"
  have dis: "distinct (u @ x # w)" "tm \<notin> set (u @ x # w)" using d new(2) as by simp_all
  have li: "linked st4 None (u @ tm # x # w) None" "pv = (if u = [] then None else Some (last u))"
    by (rule linked_insert [OF _ dis new(1) pv_def st3_def st4_def]; use l as in simp)+
  have xtm: "x \<noteq> tm" using dis by auto
  let ?q = "q\<lparr>q_l := q_l q + 1, q_store := st4, q_tail := (if u = [] then Some tm else q_tail q)\<rparr>"
  have run: "push q tm = Ret ?q"
  proof -
    have "q_l q + 1 \<noteq> 1" using len ne by simp
    then show ?thesis
      using tail xl xt new(1) xtm walk li(2)
      by (cases "u = []")
        (simp_all add: push_def Let_def deref_def index_of_def set_prev_def set_next_def
          pv_def [symmetric] st4_def st3_def)
  qed
  have nok: "nodes_ok ?q (u @ tm # x # w)"
    unfolding nodes_ok_def
  proof (intro conjI)
    show "distinct (u @ tm # x # w)" using dis by auto
    show "linked (q_store ?q) None (u @ tm # x # w) None" using li(1) by simp
    show "q_tail ?q = (case u @ tm # x # w of [] \<Rightarrow> None | a # _ \<Rightarrow> Some a)"
      using tail as by (cases u) auto
  qed (use len hd as in simp_all)
  have "\<forall>a. node_deadline (q_store ?q) a = node_deadline ?st a"
  proof
    fix a
    have "node_deadline st4 a = node_deadline st3 a" by (simp add: st4_def deadline_upd split: option.splits)
    also have "\<dots> = node_deadline ?st a"
      using xtm by (simp add: st3_def) (subst deadline_upd; simp add: deadline_upd)
    finally show "node_deadline (q_store ?q) a = node_deadline ?st a" by simp
  qed
  with run nok show thesis using that x u_def by simp
qed

text \<open>Unlinking the head.\<close>

lemma linked_head:
  assumes "linked st pv (u @ [h]) nx"
  shows "tm_prev (st ! h) = (if u = [] then pv else Some (last u))" and "h < length st"
    and "linked st pv u (Some h)"
  using assms by (simp_all add: linked_append)

lemma clean_step:
  assumes ok: "nodes_ok q (u @ [h])" and now: "now > tm_t (q_store q ! h)"
  obtains q' where "clean q now = bindG (clean q' now) (\<lambda>(tids, q6). Ret (tm_tid (q_store q ! h) # tids, q6))"
    and "nodes_ok q' u" and "\<forall>a. node_deadline (q_store q') a = node_deadline (q_store q) a"
proof -
  let ?st = "q_store q"
  have l: "linked ?st None (u @ [h]) None" and d: "distinct u" "h \<notin> set u" and len: "q_l q = int (length u) + 1"
    and tail: "q_tail q = (case u @ [h] of [] \<Rightarrow> None | a # _ \<Rightarrow> Some a)" and hd: "q_head q = Some h"
    using ok by (simp_all add: nodes_ok_def)
  note lh = linked_head [OF l]
  have deref: "deref q (Some h) = Ret (?st ! h)" using lh(2) by (simp add: deref_def index_of_def)
  let ?h = "\<lambda>st. st[h := (st ! h)\<lparr>tm_next := None, tm_prev := None\<rparr>]"
  have dl: "node_deadline (?h st) a = node_deadline st a" for st a
    by (rule deadline_upd) simp_all
  show thesis
  proof (cases u rule: rev_cases)
    case Nil
    let ?q = "q\<lparr>q_l := 0, q_head := None, q_tail := None, q_store := ?h ?st\<rparr>"
    have "clean q now = bindG (clean ?q now) (\<lambda>(tids, q6). Ret (tm_tid (?st ! h) # tids, q6))"
      using Nil now len lh hd deref
      by (subst clean.simps) (simp add: Let_def set_next_def set_prev_def)
    then show thesis by (rule that) (use Nil dl in \<open>simp_all add: nodes_ok_def\<close>)
  next
    case (snoc v y)
    let ?s1 = "?st[y := (?st ! y)\<lparr>tm_next := None\<rparr>]"
    have yh: "y \<noteq> h" using d snoc by auto
    have "linked ?s1 None (v @ [y]) None"
      using lh(3) d snoc by (intro linked_last [of _ _ _ _ "Some h"]) simp_all
    then have li: "linked (?h ?s1) None u None" using d snoc by (simp add: linked_other)
    let ?q = "q\<lparr>q_head := Some y, q_l := int (length u), q_tail := (if v = [] then Some y else q_tail q), q_store := ?h ?s1\<rparr>"
    have "clean q now = bindG (clean ?q now) (\<lambda>(tids, q6). Ret (tm_tid (?st ! h) # tids, q6))"
      using snoc now len lh hd deref yh
      by (subst clean.simps, cases v) (simp_all add: Let_def set_next_def set_prev_def)
    moreover have "nodes_ok ?q u"
      unfolding nodes_ok_def
    proof (intro conjI)
      show "linked (q_store ?q) None u None" using li by simp
      show "q_tail ?q = (case u of [] \<Rightarrow> None | a # _ \<Rightarrow> Some a)" using snoc tail by (cases v) simp_all
    qed (use d snoc in simp_all)
    moreover have "node_deadline ?s1 a = node_deadline ?st a" for a
      by (rule deadline_upd) simp_all
    ultimately show thesis using that [of ?q] dl by simp
  qed
qed

lemma clean_ok:
  assumes "nodes_ok q as" and "sorted (map (\<lambda>a. tm_t (q_store q ! a)) (rev as))"
  shows "\<exists>q'. clean q now = Ret (map (\<lambda>a. tm_tid (q_store q ! a)) (takeWhile (\<lambda>a. tm_t (q_store q ! a) < now) (rev as)), q')
    \<and> nodes_ok q' (rev (dropWhile (\<lambda>a. tm_t (q_store q ! a) < now) (rev as)))
    \<and> (\<forall>a. node_deadline (q_store q') a = node_deadline (q_store q) a)"
  using assms
proof (induction as arbitrary: q rule: rev_induct)
  case Nil
  then have "q_l q = 0" by (simp add: nodes_ok_def)
  then have "clean q now = Ret ([], q)" by (subst clean.simps) simp
  then show ?case using Nil by simp
next
  case (snoc h u)
  show ?case
  proof (cases "tm_t (q_store q ! h) < now")
    case True
    obtain q' where q': "clean q now = bindG (clean q' now) (\<lambda>(tids, q6). Ret (tm_tid (q_store q ! h) # tids, q6))"
      "nodes_ok q' u" "\<forall>a. node_deadline (q_store q') a = node_deadline (q_store q) a"
      using snoc.prems(1) True by (rule clean_step)
    then have f: "tm_t (q_store q' ! a) = tm_t (q_store q ! a)" "tm_tid (q_store q' ! a) = tm_tid (q_store q ! a)" for a
      by (simp_all add: node_deadline_def)
    have "sorted (map (\<lambda>a. tm_t (q_store q' ! a)) (rev u))" using snoc.prems(2) f by simp
    from snoc.IH [OF q'(2) this] show ?thesis using q'(1,3) True f by auto
  next
    case False
    have "q_l q > 0" "q_head q = Some h" "h < length (q_store q)"
      using snoc.prems(1) by (auto simp: nodes_ok_def linked_append)
    then have "clean q now = Ret ([], q)" using False by (subst clean.simps) (simp add: deref_def index_of_def)
    then show ?thesis using False snoc.prems(1) by simp
  qed
qed

lemma forall_ok:
  assumes "linked (q_store q) None as nx" and "distinct as" and "q_l q = int (length as)"
    and "as \<noteq> [] \<longrightarrow> q_head q = Some (last as)"
  shows "\<exists>q'. forall_queue q = Ret (map (\<lambda>a. tm_tid (q_store q ! a)) (rev as), q') \<and> nodes_ok q' []"
  using assms
proof (induction as arbitrary: q nx rule: rev_induct)
  case Nil
  then have "forall_queue q = Ret ([], q\<lparr>q_head := None, q_tail := None\<rparr>)" by (subst forall_queue.simps) simp
  then show ?case using Nil by (simp add: nodes_ok_def)
next
  case (snoc h u)
  let ?st = "q_store q"
  note lh = linked_head [OF snoc.prems(1)]
  let ?q = "q\<lparr>q_head := tm_prev (?st ! h), q_store := ?st[h := (?st ! h)\<lparr>tm_next := None, tm_prev := None\<rparr>],
    q_l := int (length u)\<rparr>"
  have run: "forall_queue q = bindG (forall_queue ?q) (\<lambda>(tids, q4). Ret (tm_tid (?st ! h) # tids, q4))"
    using lh snoc.prems(3,4)
    by (subst forall_queue.simps) (simp add: deref_def index_of_def Let_def set_next_def set_prev_def)
  have "linked (q_store ?q) None u (Some h)" using lh(3) snoc.prems(2) by (simp add: linked_other)
  then have "\<exists>q'. forall_queue ?q = Ret (map (\<lambda>a. tm_tid (q_store ?q ! a)) (rev u), q') \<and> nodes_ok q' []"
    using snoc.prems(2) lh(1) by (intro snoc.IH [of ?q "Some h"]) simp_all
  moreover have "map (\<lambda>a. tm_tid (q_store ?q ! a)) (rev u) = map (\<lambda>a. tm_tid (?st ! a)) (rev u)"
  proof (rule map_cong)
    fix a assume "a \<in> set (rev u)"
    then have "h \<noteq> a" using snoc.prems(2) by auto
    then show "tm_tid (q_store ?q ! a) = tm_tid (?st ! a)" by simp
  qed simp
  ultimately show ?case unfolding run by auto
qed

section \<open>The linked list is a queue of timeouts\<close>

lemma add_deadline_split:
  assumes "\<forall>d\<in>set a. fst d \<le> fst e" and "\<forall>d\<in>set b. \<not> fst d \<le> fst e"
  shows "add_deadline e (a @ b) = a @ e # b"
proof -
  have "takeWhile (\<lambda>d. fst d \<le> fst e) b = []" "dropWhile (\<lambda>d. fst d \<le> fst e) b = b"
    using assms(2) by (cases b; simp)+
  then show ?thesis using assms(1) by (simp add: add_deadline_def takeWhile_append2 dropWhile_append2)
qed

lemma push_new_rep:
  assumes rep: "queue_rep q es" and t: "es = [] \<or> fst (hd es) \<le> t"
  shows "\<exists>q'. push_new q t tid = Ret q' \<and> queue_rep q' (add_deadline (t, tid) es)"
proof -
  obtain as where ok: "nodes_ok q as" and es: "es = rev (map (node_deadline (q_store q)) as)"
    and sorted: "sorted (map fst es)"
    using rep by (auto simp: queue_rep_def)
  let ?st = "q_store q @ [\<lparr>tm_t = t, tm_tid = tid, tm_prev = None, tm_next = None\<rparr>]"
  let ?q = "q\<lparr>q_store := ?st\<rparr>" and ?tm = "length (q_store q)"
  have run: "push_new q t tid = push ?q ?tm" by (simp add: push_new_def pool_get_def)
  have bound: "a < ?tm" if "a \<in> set as" for a using ok that linked_bound by (auto simp: nodes_ok_def)
  have ok': "nodes_ok ?q as" using ok by (simp add: nodes_ok_def linked_grow)
  have dl: "node_deadline ?st a = node_deadline (q_store q) a" if "a \<in> set as" for a
    using bound [OF that] by (simp add: node_deadline_def nth_append)
  have es': "es = rev (map (node_deadline ?st) as)" using es dl by simp
  have new: "?tm < length (q_store ?q)" "?tm \<notin> set as" using bound by auto
  show ?thesis
  proof (cases "as = []")
    case True
    then have "push ?q ?tm = Ret (?q\<lparr>q_l := 1, q_tail := Some ?tm, q_head := Some ?tm\<rparr>)"
      using ok by (simp add: push_def nodes_ok_def Let_def)
    moreover have "queue_rep (?q\<lparr>q_l := 1, q_tail := Some ?tm, q_head := Some ?tm\<rparr>) [(t, tid)]"
      unfolding queue_rep_def by (rule exI [of _ "[?tm]"]) (simp add: nodes_ok_def node_deadline_def)
    ultimately show ?thesis using True es run by (simp add: add_deadline_def)
  next
    case False
    define gt where "gt = (\<lambda>a. tm_t (q_store ?q ! a) > tm_t (q_store ?q ! ?tm))"
    have gt: "gt a \<longleftrightarrow> \<not> fst (node_deadline ?st a) \<le> t" for a by (auto simp: gt_def node_deadline_def)
    let ?u = "takeWhile gt as" and ?w = "dropWhile gt as"
    have "fst (hd es) = tm_t (q_store ?q ! last as)"
      using False es' by (simp add: hd_rev last_map node_deadline_def)
    then have "tm_t (q_store ?q ! last as) \<le> tm_t (q_store ?q ! ?tm)" using t False es by simp
    then obtain q' where q': "push ?q ?tm = Ret q'" "nodes_ok q' (?u @ ?tm # ?w)"
      "\<forall>a. node_deadline (q_store q') a = node_deadline ?st a"
      using push_ok [OF ok' new False _ gt_def] by auto
    let ?a = "rev (map (node_deadline ?st) ?w)" and ?b = "rev (map (node_deadline ?st) ?u)"
    have eab: "es = ?a @ ?b" unfolding es' by (metis map_append rev_append takeWhile_dropWhile_id)
    have sab: "sorted (map fst ?a @ map fst ?b)" using sorted eab by (metis map_append)
    have b: "\<forall>d\<in>set ?b. \<not> fst d \<le> t" using gt by (auto dest: set_takeWhileD)
    have a: "\<forall>d\<in>set ?a. fst d \<le> t"
    proof (cases ?w)
      case Nil
      then show ?thesis by (simp only: list.map(1) rev.simps(1) list.set(1) ball_empty)
    next
      case (Cons x w)
      then have x: "fst (node_deadline ?st x) \<le> t" using gt by (simp add: dropWhile_eq_Cons_conv)
      show ?thesis
      proof
        fix d assume "d \<in> set ?a"
        then have "fst d \<le> fst (node_deadline ?st x)" using sab Cons by (auto simp: sorted_append)
        then show "fst d \<le> t" using x by simp
      qed
    qed
    have ad: "add_deadline (t, tid) es = ?a @ (t, tid) # ?b"
      unfolding eab by (rule add_deadline_split) (use a b in simp_all)
    have eq: "rev (map (node_deadline (q_store q')) (?u @ ?tm # ?w)) = ?a @ (t, tid) # ?b"
      using q'(3) by (simp add: node_deadline_def [of ?st ?tm])
    have "sorted (map fst (?a @ (t, tid) # ?b))"
      using sab a b by (auto simp: sorted_append)
    then have "queue_rep q' (?a @ (t, tid) # ?b)"
      unfolding queue_rep_def using q'(2) eq by (intro exI [of _ "?u @ ?tm # ?w"]) metis
    then show ?thesis using run q'(1) ad by simp
  qed
qed

lemma clean_rep:
  assumes "queue_rep q es"
  shows "\<exists>q'. clean q now = Ret (map snd (takeWhile (\<lambda>d. fst d < now) es), q')
    \<and> queue_rep q' (dropWhile (\<lambda>d. fst d < now) es)"
proof -
  obtain as where ok: "nodes_ok q as" and es: "es = map (node_deadline (q_store q)) (rev as)"
    and sorted: "sorted (map fst es)"
    using assms by (auto simp: queue_rep_def rev_map)
  have "sorted (map (\<lambda>a. tm_t (q_store q ! a)) (rev as))"
    using sorted by (simp add: es node_deadline_def comp_def)
  from clean_ok [OF ok this, of now] obtain q' where
    q': "clean q now = Ret (map (\<lambda>a. tm_tid (q_store q ! a)) (takeWhile (\<lambda>a. tm_t (q_store q ! a) < now) (rev as)), q')"
    "nodes_ok q' (rev (dropWhile (\<lambda>a. tm_t (q_store q ! a) < now) (rev as)))"
    "\<forall>a. node_deadline (q_store q') a = node_deadline (q_store q) a" by blast
  have tw: "takeWhile (\<lambda>d. fst d < now) es = map (node_deadline (q_store q)) (takeWhile (\<lambda>a. tm_t (q_store q ! a) < now) (rev as))"
    and dw: "dropWhile (\<lambda>d. fst d < now) es = map (node_deadline (q_store q)) (dropWhile (\<lambda>a. tm_t (q_store q ! a) < now) (rev as))"
    by (simp_all add: es takeWhile_map dropWhile_map node_deadline_def comp_def)
  have "sorted (map fst (dropWhile (\<lambda>d. fst d < now) es))"
    using sorted by (metis map_append sorted_append takeWhile_dropWhile_id)
  then have "queue_rep q' (dropWhile (\<lambda>d. fst d < now) es)"
    unfolding queue_rep_def using q'(2,3) dw
    by (intro exI [of _ "rev (dropWhile (\<lambda>a. tm_t (q_store q ! a) < now) (rev as))"]) (simp add: rev_map)
  then show ?thesis using q'(1) tw by (simp add: node_deadline_def comp_def)
qed

lemma forall_rep:
  assumes "queue_rep q es"
  shows "\<exists>q'. forall_queue q = Ret (map snd es, q') \<and> queue_rep q' []"
proof -
  obtain as where ok: "nodes_ok q as" and es: "es = rev (map (node_deadline (q_store q)) as)"
    using assms by (auto simp: queue_rep_def)
  have "\<exists>q'. forall_queue q = Ret (map (\<lambda>a. tm_tid (q_store q ! a)) (rev as), q') \<and> nodes_ok q' []"
    using ok by (intro forall_ok [of q as None]) (simp_all add: nodes_ok_def)
  moreover have "map (\<lambda>a. tm_tid (q_store q ! a)) (rev as) = map snd es"
    by (simp add: es rev_map node_deadline_def comp_def)
  ultimately show ?thesis by (auto simp: queue_rep_def)
qed

lemma createQueue_rep: "queue_rep createQueue []"
  by (simp add: queue_rep_def createQueue_def nodes_ok_def)

interpretation list_queue: timeout_queue queue_rep createQueue push_new clean forall_queue
  by unfold_locales (use createQueue_rep push_new_rep clean_rep forall_rep in blast)+

section \<open>Properties\<close>

text \<open>
  C23: The queue of timeouts orders deadlines: adding a deadline that is not earlier than the
  earliest pending one inserts it behind the deadlines that are not later, \<open>clean\<close> calls
  the callback exactly for the deadlines that have passed, the earliest first, and
  removes them, and \<open>forall\<close> calls it for all of them and leaves the queue empty.
\<close>

theorem queue_refines:
  assumes "queue_rep q es"
  shows "(es = [] \<or> fst (hd es) \<le> t \<longrightarrow> (\<exists>q'. push_new q t tid = Ret q' \<and> queue_rep q' (add_deadline (t, tid) es)))
    \<and> (\<exists>q'. clean q now = Ret (map snd (takeWhile (\<lambda>d. fst d < now) es), q')
          \<and> queue_rep q' (dropWhile (\<lambda>d. fst d < now) es))
    \<and> (\<exists>q'. forall_queue q = Ret (map snd es, q') \<and> queue_rep q' [])"
  using list_queue.rep_add [OF assms] list_queue.rep_expired [OF assms] list_queue.rep_drain [OF assms] by blast

theorem queue_refines_witness:
  "\<exists>q q' q''. push_new createQueue 5 1 = Ret q \<and> push_new q 9 2 = Ret q' \<and> clean q' 7 = Ret ([1], q'') \<and> queue_rep q'' [(9, 2)]"
proof -
  obtain q where q: "push_new createQueue 5 1 = Ret q" "queue_rep q [(5, 1)]"
    using queue_refines [OF createQueue_rep, of 5 1] by (auto simp: add_deadline_def)
  obtain q' where q': "push_new q 9 2 = Ret q'" "queue_rep q' [(5, 1), (9, 2)]"
    using queue_refines [OF q(2), of 9 2] by (auto simp: add_deadline_def)
  show ?thesis using queue_refines [OF q'(2), of 0 0 7] q(1) q'(1) by auto
qed

text \<open>
  C39: A shorter timeout crashes the client: when one deadline is pending and one that is earlier
  is added, as for two requests with different timeouts, the branch for the head of the
  queue rewires both nodes, and the next \<open>clean\<close> after the earlier deadline panics on a nil
  pointer.
\<close>

theorem shorter_timeout_crashes:
  assumes "queue_rep q [(t, tid)]" and "t' < t" and "t' < now"
  shows "\<exists>q'. push_new q t' tid' = Ret q' \<and> clean q' now = Panic NilPointer"
proof -
  obtain x where ok: "nodes_ok q [x]" and tx: "tm_t (q_store q ! x) = t"
    using assms(1) by (auto simp: queue_rep_def node_deadline_def)
  let ?new = "\<lparr>tm_t = t', tm_tid = tid', tm_prev = None, tm_next = None\<rparr>"
  let ?tm = "length (q_store q)"
  have q: "q_l q = 1" "q_tail q = Some x" "q_head q = Some x" "x < ?tm" "tm_prev (q_store q ! x) = None"
    "tm_next (q_store q ! x) = None"
    using ok by (simp_all add: nodes_ok_def)
  obtain q' where q': "push_new q t' tid' = Ret q'" "q_l q' = 2" "q_head q' = Some ?tm" "?tm < length (q_store q')"
    "tm_prev (q_store q' ! ?tm) = None" "tm_t (q_store q' ! ?tm) = t'"
    using q tx assms(2)
    by (simp add: push_new_def pool_get_def push_def Let_def deref_def index_of_def set_next_def set_prev_def
        nth_append list_update_append)
  then have "clean q' now = Panic NilPointer"
    using assms(3) by (subst clean.simps) (simp add: deref_def index_of_def Let_def set_next_def)
  then show ?thesis using q'(1) by blast
qed

theorem shorter_timeout_crashes_witness:
  "\<exists>q q'. push_new createQueue 500 1 = Ret q \<and> push_new q 100 2 = Ret q' \<and> clean q' 101 = Panic NilPointer"
proof -
  obtain q where q: "push_new createQueue 500 1 = Ret q" "queue_rep q [(500, 1)]"
    using push_new_rep [OF createQueue_rep, of 500 1] by (auto simp: add_deadline_def)
  from shorter_timeout_crashes [OF q(2), of 100 101 2] q(1) show ?thesis by auto
qed

end
