(* ===== verification/Broker.thy ===== *)
theory Broker
  imports Buff_Conn Timeout_Queue
begin

text \<open>
  The broker of a client connection (src/com/comclient.go): it numbers the requests, keeps who
  waits for which answer, and answers each request with the response of the server, a
  timeout, or the end of the connection. Its three goroutines share their state under a
  mutex; the critical section of each turn of their loops is one step here.
\<close>

section \<open>State\<close>

record result =
  r_Value :: bytes
  r_Err :: err

text \<open>
  The goroutine of the ticker is ticking, or waits for an activation, or is on its way from the
  one to the other and does not receive yet.
\<close>

datatype ticker_state = Ticking | Idle | Listening

text \<open>
  A channel is a number, and \<open>results\<close> is what was sent to the channels. \<open>addrs\<close> is the text of the
  two addresses in error messages; \<open>from_world\<close> says whether the receiving goroutine is alive.
\<close>

record broker =
  bconn :: conn
  waits :: "u32 \<rightharpoonup> nat"
  pq :: queue
  tick_state :: ticker_state
  next_tid :: u32
  results :: "(nat \<times> result) list"
  addrs :: string
  from_world :: bool

record brokerMsg =
  mess :: message
  timeout :: int
  rch :: "nat option"

definition broker_new :: "conn \<Rightarrow> string \<Rightarrow> broker" where
  "broker_new c a = \<lparr>bconn = c, waits = Map.empty, pq = createQueue, tick_state = Idle, next_tid = 0,
     results = [], addrs = a, from_world = True\<rparr>"

text \<open>
  \<open>CreateConnection\<close>: \<open>x\<close> is the outcome of dialling, an error or what the TCP connection will do, and \<open>a\<close> the
  text of its addresses.
\<close>

definition CreateConnection :: "string + (bytes list \<times> nat option list) \<Rightarrow> string \<Rightarrow> string + broker" where
  "CreateConnection x a = (case x of Inl e \<Rightarrow> Inl e | Inr (ib, fs) \<Rightarrow> Inr (broker_new (conn_New ib fs) a))"

section \<open>Steps\<close>

text \<open>The callback of \<open>clean\<close> and \<open>forall\<close>: answer the request, if it still waits.\<close>

definition answer :: "string \<Rightarrow> u32 \<Rightarrow> broker \<Rightarrow> broker" where
  "answer e tid b = (case waits b tid of
     None \<Rightarrow> b
   | Some w \<Rightarrow> b\<lparr>waits := (waits b)(tid := None), results := results b @ [(w, \<lparr>r_Value = [], r_Err = Some (e @ addrs b)\<rparr>)]\<rparr>)"

definition broker_tick :: "broker \<Rightarrow> time \<Rightarrow> broker go" where
  "broker_tick b now =
     bindG (clean (pq b) now) (\<lambda>(tids, q).
     let b1 = fold (answer ''Timeout'') tids (b\<lparr>pq := q\<rparr>) in
     Ret (if queue_len (pq b1) = 0 then b1\<lparr>tick_state := Idle\<rparr> else b1))"

definition broker_send :: "broker \<Rightarrow> brokerMsg \<Rightarrow> time \<Rightarrow> broker go" where
  "broker_send b msg now =
     (let tid = next_tid b; m = (mess msg)\<lparr>msg_ID := tid\<rparr> in
      bindG (if timeout msg > 0 then
               (case rch msg of
                  None \<Rightarrow> Panic (Raised ''msg rch == nil'')
                | Some rc \<Rightarrow> bindG (push_new (pq b) (now + timeout msg) tid) (\<lambda>q.
                    Ret (b\<lparr>pq := q, waits := (waits b)(tid \<mapsto> rc)\<rparr>)))
             else if rch msg \<noteq> None then Panic (Raised ''msg rch != nil'') else Ret b) (\<lambda>b1.
      bindG (conn_Write (bconn b1) m) (\<lambda>(e, c).
      let b2 = b1\<lparr>bconn := c, next_tid := tid + 1\<rparr> in
      Ret (if timeout msg > 0 \<and> tick_state b2 = Listening then b2\<lparr>tick_state := Ticking\<rparr> else b2))))"

text \<open>The end of the connection, when the channel of requests is closed.\<close>

definition broker_close :: "broker \<Rightarrow> broker go" where
  "broker_close b =
     bindG (forall_queue (pq b)) (\<lambda>(tids, q).
     let b1 = fold (answer ''Connection closed => fast timeout'') tids (b\<lparr>pq := q\<rparr>) in
     Ret (b1\<lparr>bconn := conn_Close (bconn b1)\<rparr>))"

text \<open>\<open>fmt.Sprint\<close> of an operation code is a parameter.\<close>

definition response :: "(operation \<Rightarrow> string) \<Rightarrow> message \<Rightarrow> result" where
  "response sprint m =
     (if msg_Type m = OpResponse then \<lparr>r_Value = msg_Value m, r_Err = None\<rparr>
      else if msg_Type m = OpOK then \<lparr>r_Value = [], r_Err = None\<rparr>
      else if msg_Type m = OpErr
        then \<lparr>r_Value = [], r_Err = Some (''Response error: '' @ map (\<lambda>b. char_of (unat b)) (msg_Value m))\<rparr>
      else \<lparr>r_Value = [], r_Err = Some (''Invalid response operation code: '' @ sprint (msg_Type m))\<rparr>)"

definition broker_receive :: "(operation \<Rightarrow> string) \<Rightarrow> broker \<Rightarrow> broker go" where
  "broker_receive sprint b =
     bindG (conn_Read (bconn b)) (\<lambda>(r, c). case r of
       Inl e \<Rightarrow> Ret (b\<lparr>bconn := c, from_world := False\<rparr>)
     | Inr m \<Rightarrow> (case waits b (msg_ID m) of
         None \<Rightarrow> Ret (b\<lparr>bconn := c\<rparr>)
       | Some w \<Rightarrow> Ret (b\<lparr>bconn := c, waits := (waits b)(msg_ID m := None),
                          results := results b @ [(w, response sprint m)]\<rparr>)))"

section \<open>The client side of a connection\<close>

text \<open>\<open>send\<close>, with the channel \<open>rc\<close> that the pool would hand out.\<close>

definition conn_send_msg :: "operation \<Rightarrow> bytes \<Rightarrow> bytes \<Rightarrow> int \<Rightarrow> nat \<Rightarrow> brokerMsg" where
  "conn_send_msg opType key val t rc =
     (let m = \<lparr>msg_Type = opType, msg_ID = 0, msg_Key = key, msg_Value = val\<rparr> in
      if t = 0 then \<lparr>mess = m, timeout = 0, rch = None\<rparr>
      else \<lparr>mess = m, timeout = t, rch = Some rc\<rparr>)"

definition client_Get :: "bytes \<Rightarrow> int \<Rightarrow> nat \<Rightarrow> brokerMsg go" where
  "client_Get key t rc =
     (if t \<le> 0 then Panic (Raised ''get timeout <=0'') else Ret (conn_send_msg OpGet key [] t rc))"

definition client_Set :: "bytes \<Rightarrow> bytes \<Rightarrow> int \<Rightarrow> nat \<Rightarrow> brokerMsg" where
  "client_Set key val t rc = conn_send_msg (if t = 0 then OpAsyncSet else OpSet) key val t rc"

definition client_Del :: "bytes \<Rightarrow> bytes \<Rightarrow> int \<Rightarrow> nat \<Rightarrow> brokerMsg" where
  "client_Del key val t rc = conn_send_msg OpDel key val t rc"

definition client_CAS :: "bytes \<Rightarrow> bytes \<Rightarrow> int \<Rightarrow> nat \<Rightarrow> brokerMsg go" where
  "client_CAS key val t rc =
     (if t \<le> 0 then Panic (Raised ''CAS timeout <=0'') else Ret (conn_send_msg OpCAS key val t rc))"

definition client_SetNoDelay :: brokerMsg where
  "client_SetNoDelay = conn_send_msg OpSetNoDelay [] [] 0 0"

definition client_SetBuffered :: brokerMsg where
  "client_SetBuffered = conn_send_msg OpSetBuffered [] [] 0 0"

definition halfSecond :: int where
  "halfSecond = 500000000"

text \<open>The requests of the servers among themselves, with the timeout of half a second.\<close>

definition client_Transfer :: "bytes \<Rightarrow> int \<Rightarrow> nat \<Rightarrow> brokerMsg" where
  "client_Transfer addr chunkID rc = conn_send_msg OpTransfer (le32 (word_of_int chunkID)) addr halfSecond rc"

definition client_GetAccessInfo :: "nat \<Rightarrow> brokerMsg" where
  "client_GetAccessInfo rc = conn_send_msg OpGetConf [] [] halfSecond rc"

definition client_AddServerToGroup :: "bytes \<Rightarrow> nat \<Rightarrow> brokerMsg" where
  "client_AddServerToGroup addr rc = conn_send_msg OpAddServerToGroup addr [] halfSecond rc"

definition client_Protect :: "int \<Rightarrow> nat \<Rightarrow> brokerMsg" where
  "client_Protect chunkID rc = conn_send_msg OpProtect (le32 (word_of_int chunkID)) [] halfSecond rc"

definition client_GetChunkInfo :: "int \<Rightarrow> nat \<Rightarrow> brokerMsg" where
  "client_GetChunkInfo chunkID rc = conn_send_msg OpGetChunkInfo (le32 (word_of_int chunkID)) [] halfSecond rc"

text \<open>What \<open>GetChunkInfo\<close> makes of the answer.\<close>

definition chunk_info :: "result \<Rightarrow> (u64 \<times> err) go" where
  "chunk_info r = (if r_Err r \<noteq> None then Ret (0, r_Err r) else bindG (Uint64 (r_Value r)) (\<lambda>s. Ret (s, None)))"

text \<open>
  \<open>Wait\<close> on an operation with the channel \<open>rch\<close>: it takes the result out of the channel once
  it is there (\<open>None\<close> while it is not), and forgets the channel.
\<close>

definition op_wait :: "broker \<Rightarrow> nat option \<Rightarrow> (result \<times> nat option) option" where
  "op_wait b rc = (case rc of
     None \<Rightarrow> Some (\<lparr>r_Value = [], r_Err = Some ''Already returned''\<rparr>, None)
   | Some c \<Rightarrow> (case map_of (results b) c of None \<Rightarrow> None | Some r \<Rightarrow> Some (r, None)))"

text \<open>The other operations report only the error.\<close>

definition set_wait :: "broker \<Rightarrow> nat option \<Rightarrow> (err \<times> nat option) option" where
  "set_wait b rc = map_option (\<lambda>(r, rc'). (r_Err r, rc')) (op_wait b rc)"

definition del_wait :: "broker \<Rightarrow> nat option \<Rightarrow> (err \<times> nat option) option" where
  "del_wait b rc = map_option (\<lambda>(r, rc'). (r_Err r, rc')) (op_wait b rc)"

definition cas_wait :: "broker \<Rightarrow> nat option \<Rightarrow> (err \<times> nat option) option" where
  "cas_wait b rc = map_option (\<lambda>(r, rc'). (r_Err r, rc')) (op_wait b rc)"

text \<open>What \<open>sendAndReceive\<close> returns for the channel of \<open>send\<close>.\<close>

definition received :: "broker \<Rightarrow> nat option \<Rightarrow> result option" where
  "received b rc = (case rc of None \<Rightarrow> Some \<lparr>r_Value = [], r_Err = None\<rparr> | Some c \<Rightarrow> map_of (results b) c)"

text \<open>A second \<open>Wait\<close> on an operation returns at once.\<close>

lemma wait_twice:
  "op_wait b rc = Some (r, rc') \<Longrightarrow> op_wait b' rc' = Some (\<lparr>r_Value = [], r_Err = Some ''Already returned''\<rparr>, None)"
  by (auto simp: op_wait_def split: option.splits)

section \<open>Runs\<close>

text \<open>
  The deadline of a new request is not earlier than the earliest pending one; this is so, for
  example, when all requests have the same timeout.
\<close>

definition in_order :: "broker \<Rightarrow> time \<Rightarrow> bool" where
  "in_order b t = (case q_head (pq b) of None \<Rightarrow> True | Some a \<Rightarrow> tm_t (q_store (pq b) ! a) \<le> t)"

text \<open>
  \<open>broker_run b0 b s r\<close>: from \<open>b0\<close> the broker gets to \<open>b\<close> with \<open>s\<close> messages sent, \<open>r\<close> of them
  requests with an answer, on the channels \<open>0, \<dots>, r - 1\<close>. Ticks come only while the ticker is
  ticking; the sending goroutine numbers less than \<open>2 ^ 32\<close> messages. The goroutine of the buffered
  connection moves as well.
\<close>

inductive broker_run :: "broker \<Rightarrow> broker \<Rightarrow> nat \<Rightarrow> nat \<Rightarrow> bool" for b0 where
  run_start: "broker_run b0 b0 0 0"
| run_request: "broker_run b0 b s r \<Longrightarrow> s < 2 ^ 32 - 1 \<Longrightarrow> timeout msg > 0 \<Longrightarrow> rch msg = Some r \<Longrightarrow>
    in_order b (now + timeout msg) \<Longrightarrow> broker_send b msg now = Ret b' \<Longrightarrow> broker_run b0 b' (Suc s) (Suc r)"
| run_send: "broker_run b0 b s r \<Longrightarrow> s < 2 ^ 32 - 1 \<Longrightarrow> timeout msg = 0 \<Longrightarrow> rch msg = None \<Longrightarrow>
    broker_send b msg now = Ret b' \<Longrightarrow> broker_run b0 b' (Suc s) r"
| run_tick: "broker_run b0 b s r \<Longrightarrow> tick_state b = Ticking \<Longrightarrow> broker_tick b now = Ret b' \<Longrightarrow> broker_run b0 b' s r"
| run_listen: "broker_run b0 b s r \<Longrightarrow> tick_state b = Idle \<Longrightarrow> b' = b\<lparr>tick_state := Listening\<rparr> \<Longrightarrow> broker_run b0 b' s r"
| run_receive: "broker_run b0 b s r \<Longrightarrow> from_world b \<Longrightarrow> broker_receive sprint b = Ret b' \<Longrightarrow> broker_run b0 b' s r"
| run_conn: "broker_run b0 b s r \<Longrightarrow> c = conn_recv (bconn b) \<or> conn_tick (bconn b) = Ret c \<Longrightarrow> b' = b\<lparr>bconn := c\<rparr> \<Longrightarrow>
    broker_run b0 b' s r"

section \<open>Lemmas\<close>

text \<open>
  Who waits and who was answered: the channels \<open>0, \<dots>, r - 1\<close>, each in one of the two roles and
  once; the identifiers of the waiting ones are among \<open>T\<close>.
\<close>

definition served :: "broker \<Rightarrow> nat \<Rightarrow> u32 set \<Rightarrow> bool" where
  "served b r T \<longleftrightarrow> dom (waits b) \<subseteq> T \<and> inj_on (waits b) (dom (waits b))
     \<and> distinct (map fst (results b)) \<and> ran (waits b) \<inter> fst ` set (results b) = {}
     \<and> ran (waits b) \<union> fst ` set (results b) = {..<r}"

definition broker_ok :: "broker \<Rightarrow> nat \<Rightarrow> nat \<Rightarrow> bool" where
  "broker_ok b s r \<longleftrightarrow> (\<exists>es. queue_rep (pq b) es \<and> served b r (snd ` set es)
     \<and> (\<forall>i\<in>snd ` set es. unat i < s) \<and> unat (next_tid b) = s)"

lemma ran_del:
  assumes "inj_on m (dom m)" and "m i = Some w"
  shows "ran (m(i := None)) = ran m - {w}" and "inj_on (m(i := None)) (dom (m(i := None)))"
    and "w \<in> ran m"
proof -
  show "w \<in> ran m" using assms(2) by (rule ranI)
  have only: "j = i" if "m j = Some w" for j
    by (rule inj_onD [OF assms(1)]) (simp_all add: assms(2) that domI)
  show "ran (m(i := None)) = ran m - {w}"
  proof (intro set_eqI iffI)
    fix v assume "v \<in> ran (m(i := None))"
    then obtain j where "j \<noteq> i" "m j = Some v" by (auto simp: ran_def split: if_splits)
    then show "v \<in> ran m - {w}" using only by (auto intro: ranI)
  next
    fix v assume "v \<in> ran m - {w}"
    then obtain j where "m j = Some v" "v \<noteq> w" by (auto simp: ran_def)
    then have "(m(i := None)) j = Some v" using assms(2) by auto
    then show "v \<in> ran (m(i := None))" by (rule ranI)
  qed
  have "inj_on m (dom m - {i})" using assms(1) by (rule inj_on_subset) simp
  then show "inj_on (m(i := None)) (dom (m(i := None)))" by (simp add: inj_on_def)
qed

lemma served_answer:
  assumes sv: "served b r T" and w: "waits b i = Some w"
  shows "served (b\<lparr>waits := (waits b)(i := None), results := results b @ [(w, x)]\<rparr>) r (T - {i})"
proof -
  have inj: "inj_on (waits b) (dom (waits b))" using sv by (simp add: served_def)
  note rd = ran_del [OF inj w]
  have "w \<notin> fst ` set (results b)" using sv rd(3) by (auto simp: served_def)
  then show ?thesis
    using sv rd(2,3) unfolding served_def by (auto simp: rd(1))
qed

lemma served_mono: "served b r T \<Longrightarrow> dom (waits b) \<subseteq> T' \<Longrightarrow> served b r T'"
  by (auto simp: served_def)

lemma answer_served:
  assumes "served b r T"
  shows "served (answer e i b) r (T - {i})"
proof (cases "waits b i")
  case None
  then have "dom (waits b) \<subseteq> T - {i}" using assms by (auto simp: served_def)
  then show ?thesis using None assms by (simp add: answer_def served_mono)
next
  case (Some w)
  then show ?thesis using served_answer [OF assms Some] by (simp add: answer_def)
qed

lemma answer_frame [simp]:
  "pq (answer e i b) = pq b" "next_tid (answer e i b) = next_tid b" "bconn (answer e i b) = bconn b"
  "tick_state (answer e i b) = tick_state b"
  by (simp_all add: answer_def split: option.splits)

lemma answers_frame [simp]:
  "pq (fold (answer e) is b) = pq b" "next_tid (fold (answer e) is b) = next_tid b"
  "bconn (fold (answer e) is b) = bconn b" "tick_state (fold (answer e) is b) = tick_state b"
  by (induction "is" arbitrary: b) simp_all

lemma answers_served: "served b r T \<Longrightarrow> served (fold (answer e) is b) r (T - set is)"
proof (induction "is" arbitrary: b T)
  case (Cons i "is")
  have "served (fold (answer e) is (answer e i b)) r (T - {i} - set is)"
    using Cons.prems by (intro Cons.IH answer_served)
  moreover have "T - {i} - set is = T - set (i # is)" by auto
  ultimately show ?case by simp
qed simp

lemma served_frame [simp]:
  "served (b\<lparr>pq := q\<rparr>) r T = served b r T" "served (b\<lparr>bconn := c\<rparr>) r T = served b r T"
  "served (b\<lparr>next_tid := i\<rparr>) r T = served b r T" "served (b\<lparr>tick_state := s\<rparr>) r T = served b r T"
  "served (b\<lparr>from_world := f\<rparr>) r T = served b r T"
  by (simp_all add: served_def)

lemma in_order_hd:
  assumes "queue_rep q es" and "in_order (b\<lparr>pq := q\<rparr>) t"
  shows "es = [] \<or> fst (hd es) \<le> t"
proof -
  obtain as where as: "nodes_ok q as" "es = rev (map (node_deadline (q_store q)) as)"
    using assms(1) by (auto simp: queue_rep_def)
  then show ?thesis
    using assms(2) by (cases "as = []") (auto simp: in_order_def nodes_ok_def hd_rev last_map node_deadline_def)
qed

lemma queue_len_zero: "queue_rep q es \<Longrightarrow> queue_len q = 0 \<longleftrightarrow> es = []"
  by (auto simp: queue_rep_def queue_len_def nodes_ok_def)

lemma served_weaken: "served b r T \<Longrightarrow> T \<subseteq> T' \<Longrightarrow> served b r T'"
  by (auto simp: served_def)

lemma send_frame:
  assumes "broker_send b msg now = Ret b'" and "timeout msg = 0"
  obtains c where "b' = b\<lparr>bconn := c, next_tid := next_tid b + 1\<rparr>"
  using assms by (auto simp: broker_send_def Let_def bindG_eq_Ret split: if_splits)

lemma send_request:
  assumes "broker_send b msg now = Ret b'" and "timeout msg > 0" and "rch msg = Some w"
  obtains q where "push_new (pq b) (now + timeout msg) (next_tid b) = Ret q" and "pq b' = q"
    and "waits b' = (waits b)(next_tid b \<mapsto> w)" and "results b' = results b" and "next_tid b' = next_tid b + 1"
    and "tick_state b' = (if tick_state b = Listening then Ticking else tick_state b)"
proof -
  from assms obtain q c where q: "push_new (pq b) (now + timeout msg) (next_tid b) = Ret q"
    and "b' = (let b2 = b\<lparr>pq := q, waits := (waits b)(next_tid b \<mapsto> w), bconn := c, next_tid := next_tid b + 1\<rparr>
               in if tick_state b = Listening then b2\<lparr>tick_state := Ticking\<rparr> else b2)"
    by (auto simp: broker_send_def Let_def bindG_eq_Ret)
  then show thesis by (intro that [OF q]) (simp_all add: Let_def)
qed

lemma next_tid_Suc: "unat (i :: u32) = s \<Longrightarrow> s < 2 ^ 32 - 1 \<Longrightarrow> unat (i + 1) = Suc s"
  by (simp add: unat_word_ariths)

lemma run_ok_request:
  assumes ok: "broker_ok b s r" and s: "s < 2 ^ 32 - 1" and msg: "timeout msg > 0" "rch msg = Some r"
    and ord: "in_order b (now + timeout msg)" and run: "broker_send b msg now = Ret b'"
  shows "broker_ok b' (Suc s) (Suc r)"
proof -
  from ok obtain es where es: "queue_rep (pq b) es" "served b r (snd ` set es)" "\<forall>i\<in>snd ` set es. unat i < s"
    "unat (next_tid b) = s" by (auto simp: broker_ok_def)
  obtain q where q: "push_new (pq b) (now + timeout msg) (next_tid b) = Ret q" "pq b' = q"
    and b': "waits b' = (waits b)(next_tid b \<mapsto> r)" "results b' = results b" "next_tid b' = next_tid b + 1"
    using run msg by (rule send_request)
  let ?es = "add_deadline (now + timeout msg, next_tid b) es"
  have "es = [] \<or> fst (hd es) \<le> now + timeout msg" using es(1) ord by (intro in_order_hd [of "pq b" _ b]) simp_all
  then have rep: "queue_rep (pq b') ?es" using q push_new_rep [OF es(1)] by (metis go.inject)
  have fresh: "waits b (next_tid b) = None" using es(2,3,4) by (force simp: served_def)
  have "served b' (Suc r) (snd ` set ?es)"
  proof -
    have "inj_on (waits b') (dom (waits b'))"
      using es(2) fresh b'(1) by (auto simp: served_def inj_on_def ran_def dom_def lessThan_Suc)
    moreover have "ran (waits b') = insert r (ran (waits b))" using fresh b'(1) by simp
    moreover have "r \<notin> fst ` set (results b)" using es(2) by (auto simp: served_def)
    ultimately show ?thesis using es(2) b'(1,2) by (auto simp: served_def lessThan_Suc)
  qed
  moreover have "\<forall>i\<in>snd ` set ?es. unat i < Suc s" using es(3,4) by auto
  moreover have "unat (next_tid b') = Suc s" using next_tid_Suc [OF es(4) s] b'(3) by simp
  ultimately show ?thesis using rep unfolding broker_ok_def by blast
qed

lemma run_ok_tick:
  assumes ok: "broker_ok b s r" and run: "broker_tick b now = Ret b'"
  shows "broker_ok b' s r"
proof -
  from ok obtain es where es: "queue_rep (pq b) es" "served b r (snd ` set es)" "\<forall>i\<in>snd ` set es. unat i < s"
    "unat (next_tid b) = s" by (auto simp: broker_ok_def)
  let ?t = "takeWhile (\<lambda>d. fst d < now) es" and ?d = "dropWhile (\<lambda>d. fst d < now) es"
  obtain q where q: "clean (pq b) now = Ret (map snd ?t, q)" "queue_rep q ?d" using clean_rep [OF es(1)] by blast
  let ?b1 = "fold (answer ''Timeout'') (map snd ?t) (b\<lparr>pq := q\<rparr>)"
  have b': "b' = (if queue_len q = 0 then ?b1\<lparr>tick_state := Idle\<rparr> else ?b1)"
    using run q(1) by (simp add: broker_tick_def Let_def split: if_splits)
  have "set es = set ?t \<union> set ?d" by (metis set_append takeWhile_dropWhile_id)
  then have "snd ` set es - set (map snd ?t) \<subseteq> snd ` set ?d" "snd ` set ?d \<subseteq> snd ` set es" by auto
  moreover have "served ?b1 r (snd ` set es - set (map snd ?t))" using es(2) by (intro answers_served) simp
  ultimately have "served ?b1 r (snd ` set ?d)" "\<forall>i\<in>snd ` set ?d. unat i < s"
    using es(3) by (blast intro: served_weaken)+
  then show ?thesis using q(2) es(4) unfolding broker_ok_def b' by (intro exI [of _ ?d]) simp
qed

lemma run_ok_receive:
  assumes ok: "broker_ok b s r" and run: "broker_receive sprint b = Ret b'"
  shows "broker_ok b' s r"
proof -
  from ok obtain es where es: "queue_rep (pq b) es" "served b r (snd ` set es)" "\<forall>i\<in>snd ` set es. unat i < s"
    "unat (next_tid b) = s" by (auto simp: broker_ok_def)
  have "served b' r (snd ` set es) \<and> pq b' = pq b \<and> next_tid b' = next_tid b"
  proof -
    obtain x c where x: "conn_Read (bconn b) = Ret (x, c)"
      using run by (auto simp: broker_receive_def bindG_eq_Ret)
    consider (err) e where "x = Inl e" | (late) m where "x = Inr m" "waits b (msg_ID m) = None"
      | (wait) m w where "x = Inr m" "waits b (msg_ID m) = Some w"
      by (metis not_None_eq sum.exhaust)
    then show ?thesis
    proof cases
      case wait
      then have "b' = b\<lparr>waits := (waits b)(msg_ID m := None), results := results b @ [(w, response sprint m)]\<rparr>\<lparr>bconn := c\<rparr>"
        using run x by (auto simp: broker_receive_def)
      then show ?thesis using served_answer [OF es(2) wait(2)] by (auto intro: served_weaken simp del: fun_upd_apply)
    qed (use run x es(2) in \<open>auto simp: broker_receive_def\<close>)
  qed
  then show ?thesis using es unfolding broker_ok_def by auto
qed

lemma broker_run_ok: "broker_run (broker_new c a) b s r \<Longrightarrow> broker_ok b s r"
proof (induction rule: broker_run.induct)
  case run_start
  show ?case using createQueue_rep by (auto simp: broker_ok_def broker_new_def served_def intro!: exI [of _ "[]"])
next
  case (run_send b s r msg now b')
  obtain c where "b' = b\<lparr>bconn := c, next_tid := next_tid b + 1\<rparr>" using run_send(5,3) by (rule send_frame)
  then show ?case using run_send(2,6) next_tid_Suc less_SucI by (fastforce simp: broker_ok_def)
next
  case (run_listen b s r b')
  then show ?case by (simp add: broker_ok_def)
next
  case (run_conn b s r c b')
  then show ?case by (simp add: broker_ok_def)
qed (blast intro: run_ok_request run_ok_tick run_ok_receive)+

lemma answers_all: "served b r (set is) \<Longrightarrow> waits (fold (answer e) is b) = Map.empty"
  using answers_served [of b r "set is" e "is"] by (simp add: served_def)

lemma served_done: "served b r T \<Longrightarrow> waits b = Map.empty \<Longrightarrow> fst ` set (results b) = {..<r} \<and> distinct (map fst (results b))"
  by (simp add: served_def)

lemma ok_close:
  assumes "broker_ok b s r"
  shows "\<exists>b'. broker_close b = Ret b' \<and> fst ` set (results b') = {..<r} \<and> distinct (map fst (results b'))"
proof -
  from assms obtain es where es: "queue_rep (pq b) es" "served b r (snd ` set es)" by (auto simp: broker_ok_def)
  obtain q where q: "forall_queue (pq b) = Ret (map snd es, q)" using list_queue.rep_drain [OF es(1)] by blast
  let ?b1 = "fold (answer ''Connection closed => fast timeout'') (map snd es) (b\<lparr>pq := q\<rparr>)"
  have sv: "served (b\<lparr>pq := q\<rparr>) r (set (map snd es))" using es(2) by simp
  have "fst ` set (results ?b1) = {..<r} \<and> distinct (map fst (results ?b1))"
    by (rule served_done [OF answers_served [OF sv] answers_all [OF sv]])
  then show ?thesis using q by (simp add: broker_close_def Let_def)
qed

lemma ok_tick_all:
  assumes "broker_ok b s r" and late: "\<forall>x\<in>set (q_store (pq b)). tm_t x < now"
  shows "\<exists>b'. broker_tick b now = Ret b' \<and> fst ` set (results b') = {..<r} \<and> distinct (map fst (results b'))
    \<and> tick_state b' = Idle"
proof -
  from assms(1) obtain es where es: "queue_rep (pq b) es" "served b r (snd ` set es)" by (auto simp: broker_ok_def)
  obtain as where as: "nodes_ok (pq b) as" "es = rev (map (node_deadline (q_store (pq b))) as)"
    using es(1) by (auto simp: queue_rep_def)
  have "x < length (q_store (pq b))" if "x \<in> set as" for x
    using as(1) that by (auto simp: nodes_ok_def intro: linked_bound)
  then have "\<forall>d\<in>set es. fst d < now" using late as(2) by (auto simp: node_deadline_def)
  from list_queue.expire_all [OF es(1) this] obtain q
    where q: "clean (pq b) now = Ret (map snd es, q)" "queue_rep q []" by blast
  let ?b1 = "fold (answer ''Timeout'') (map snd es) (b\<lparr>pq := q\<rparr>)"
  have sv: "served (b\<lparr>pq := q\<rparr>) r (set (map snd es))" using es(2) by simp
  have "fst ` set (results ?b1) = {..<r} \<and> distinct (map fst (results ?b1))"
    by (rule served_done [OF answers_served [OF sv] answers_all [OF sv]])
  then show ?thesis using q queue_len_zero [OF q(2)] by (simp add: broker_tick_def Let_def)
qed

lemma ok_once:
  assumes "broker_ok b s r"
  shows "distinct (map fst (results b))" and "w \<in> fst ` set (results b) \<longleftrightarrow> w < r \<and> w \<notin> ran (waits b)"
  using assms by (auto simp: broker_ok_def served_def)

section \<open>Properties\<close>

text \<open>
  C24: Every request is answered at most once, and at the end exactly once. In every run of the broker
  of fewer than \<open>2 ^ 32 - 1\<close> messages, in which each new request has a deadline not earlier than the earliest pending one, and
  requests, one-way messages, ticks, late and early responses, the end of the receiving goroutine and the
  goroutine of the buffered connection interleave, no channel gets two results, and of the \<open>r\<close> requests sent those
  without a result are the ones that still wait. From every state of such a run, a tick after all deadlines
  succeeds, and so does the end of the connection, when the channel of requests is closed, as the
  last step of the run; both give each of the \<open>r\<close> channels its one result.
\<close>

theorem broker_answers_once:
  assumes "broker_run (broker_new c a) b s r"
  shows "distinct (map fst (results b))
    \<and> (\<forall>w. w \<in> fst ` set (results b) \<longleftrightarrow> w < r \<and> w \<notin> ran (waits b))
    \<and> ((\<forall>x\<in>set (q_store (pq b)). tm_t x < now) \<longrightarrow>
         (\<exists>b'. broker_tick b now = Ret b' \<and> fst ` set (results b') = {..<r} \<and> distinct (map fst (results b'))
            \<and> tick_state b' = Idle))
    \<and> (\<exists>b'. broker_close b = Ret b' \<and> fst ` set (results b') = {..<r} \<and> distinct (map fst (results b')))"
proof -
  note ok = broker_run_ok [OF assms]
  from ok_once [OF ok] ok_tick_all [OF ok] ok_close [OF ok] show ?thesis by simp
qed

lemma first_request:
  assumes "writer_ok c" and "write_room c (mess msg\<lparr>msg_ID := 0\<rparr>)" and "timeout msg > 0" and "rch msg = Some w"
  obtains b where "broker_send (broker_new c a) msg now = Ret b"
proof -
  obtain q where q: "push_new createQueue (now + timeout msg) 0 = Ret q"
    using list_queue.rep_add [OF createQueue_rep, of "now + timeout msg" 0] by auto
  obtain e c' where "conn_Write c (mess msg\<lparr>msg_ID := 0\<rparr>) = Ret (e, c')" using write_returns [OF assms(1,2)] by blast
  then show thesis using q assms(3,4) by (intro that) (simp add: broker_send_def broker_new_def Let_def)
qed

lemma first_in_order: "in_order (broker_new c a) t"
  by (simp add: in_order_def broker_new_def createQueue_def)

theorem broker_answers_once_witness:
  "\<exists>b b'. broker_run (broker_new (conn_New [] []) []) b 1 1 \<and> broker_close b = Ret b' \<and> fst ` set (results b') = {..<1}"
proof -
  let ?m = "conn_send_msg OpGet [1] [] 1000 0"
  have m: "timeout ?m > 0" "rch ?m = Some 0" by (simp_all add: conn_send_msg_def)
  have room: "write_room (conn_New [] []) (mess ?m\<lparr>msg_ID := 0\<rparr>)" by (simp add: write_room_def conn_send_msg_def op_codes)
  obtain b where b: "broker_send (broker_new (conn_New [] []) []) ?m 0 = Ret b"
    using conn_New_ok(1) room m by (rule first_request)
  have "broker_run (broker_new (conn_New [] []) []) b (Suc 0) (Suc 0)"
    by (rule run_request [OF run_start _ m first_in_order b]) simp
  then have run: "broker_run (broker_new (conn_New [] []) []) b 1 1" unfolding One_nat_def .
  from broker_answers_once [OF run, of 0] obtain b' :: broker
    where b': "broker_close b = Ret b'" "fst ` set (results b') = {..<1}"
    by (elim conjE exE that)
  show ?thesis by (intro exI conjI) (rule run b')+
qed

text \<open>
  From a state in which the ticker waits for an activation, no tick comes without a further message: the
  request waits, or the response of the server has arrived.
\<close>

definition forgotten :: "broker \<Rightarrow> bool" where
  "forgotten b \<longleftrightarrow> tick_state b = Listening
     \<and> (waits b 0 = Some 0 \<and> results b = [] \<or> waits b = Map.empty \<and> (\<exists>sprint m. msg_ID m = 0 \<and> results b = [(0, response sprint m)]))"

lemma forgotten_run:
  assumes "broker_run b0 b s r" and "s = 0" and "forgotten b0" and "\<forall>i k. waits b0 i = Some k \<longrightarrow> i = 0 \<and> k = 0"
  shows "forgotten b \<and> (\<forall>i k. waits b i = Some k \<longrightarrow> i = 0 \<and> k = 0)"
  using assms
proof (induction rule: broker_run.induct)
  case (run_receive b s r sprint b')
  then have b: "forgotten b" "\<forall>i k. waits b i = Some k \<longrightarrow> i = 0 \<and> k = 0" by blast+
  obtain x c where x: "conn_Read (bconn b) = Ret (x, c)"
    using run_receive.hyps(3) by (auto simp: broker_receive_def bindG_eq_Ret)
  show ?case
  proof (cases x)
    case (Inl e)
    then have "b' = b\<lparr>bconn := c, from_world := False\<rparr>" using run_receive.hyps(3) x by (simp add: broker_receive_def)
    then show ?thesis using b by (simp add: forgotten_def)
  next
    case (Inr m)
    show ?thesis
    proof (cases "waits b (msg_ID m)")
      case None
      then have "b' = b\<lparr>bconn := c\<rparr>" using run_receive.hyps(3) x Inr by (simp add: broker_receive_def)
      then show ?thesis using b by (simp add: forgotten_def)
    next
      case (Some w)
      then have m: "msg_ID m = 0" "w = 0" "results b = []" using b by (auto simp: forgotten_def)
      have "waits b' = (waits b)(0 := None)" "results b' = [(0, response sprint m)]" "tick_state b' = tick_state b"
        using run_receive.hyps(3) x Inr Some m by (auto simp: broker_receive_def)
      moreover have "(waits b)(0 := None) = Map.empty" using b(2) by (auto simp: fun_eq_iff) (metis not_None_eq)
      ultimately show ?thesis using b(1) m(1) by (auto simp: forgotten_def)
    qed
  qed
qed (auto simp: forgotten_def)

text \<open>
  C38: A wake-up can get lost: the activation of the ticker is dropped when its goroutine does not
  receive yet, as it may right after the broker has started. After such a first request, of any message
  with a timeout, there is a state in which the ticker waits for an activation, and whatever happens from
  there without a further message and before the connection is closed, however much time passes, there is never a tick: the ticker still waits, and
  the request has no result, past its deadline and for ever, unless the response of the server arrives.
\<close>

theorem wakeup_lost:
  assumes "broker_send (broker_new c a) msg now = Ret b" and "timeout msg > 0" and "rch msg = Some 0"
  shows "\<exists>b1. broker_run (broker_new c a) b1 1 1 \<and> tick_state b1 = Listening \<and> waits b1 0 = Some 0 \<and> results b1 = []
    \<and> (\<forall>b2. broker_run b1 b2 0 0 \<longrightarrow> tick_state b2 = Listening
         \<and> (waits b2 0 = Some 0 \<and> results b2 = [] \<or> (\<exists>sprint m. msg_ID m = 0 \<and> results b2 = [(0, response sprint m)])))"
proof -
  have r: "broker_run (broker_new c a) b 1 1"
    using run_request [OF run_start _ assms(2,3) first_in_order assms(1)] by simp
  obtain q where "pq b = q" "waits b = (waits (broker_new c a))(next_tid (broker_new c a) \<mapsto> 0)"
    "results b = results (broker_new c a)"
    "tick_state b = (if tick_state (broker_new c a) = Listening then Ticking else tick_state (broker_new c a))"
    using assms by (rule send_request)
  then have b: "waits b = [0 \<mapsto> 0]" "results b = []" "tick_state b = Idle" by (simp_all add: broker_new_def)
  let ?b1 = "b\<lparr>tick_state := Listening\<rparr>"
  have f: "forgotten ?b1" "\<forall>i k. waits ?b1 i = Some k \<longrightarrow> i = 0 \<and> k = 0" using b by (simp_all add: forgotten_def)
  have "broker_run (broker_new c a) ?b1 1 1" by (rule run_listen [OF r b(3)]) simp
  moreover have "forgotten b2" if "broker_run ?b1 b2 0 0" for b2 using forgotten_run [OF that _ f] by simp
  ultimately show ?thesis using b by (intro exI [of _ ?b1]) (auto simp: forgotten_def)
qed

theorem wakeup_lost_witness:
  "\<exists>b1. broker_run (broker_new (conn_New [] []) []) b1 1 1 \<and> waits b1 0 = Some 0
    \<and> (\<forall>b2. broker_run b1 b2 0 0 \<longrightarrow> tick_state b2 = Listening)"
proof -
  let ?m = "conn_send_msg OpGet [1] [] 1000 0"
  have m: "timeout ?m > 0" "rch ?m = Some 0" by (simp_all add: conn_send_msg_def)
  have room: "write_room (conn_New [] []) (mess ?m\<lparr>msg_ID := 0\<rparr>)" by (simp add: write_room_def conn_send_msg_def op_codes)
  obtain b where b: "broker_send (broker_new (conn_New [] []) []) ?m 0 = Ret b"
    using conn_New_ok(1) room m by (rule first_request)
  from wakeup_lost [OF b m] show ?thesis by blast
qed

end
