(* ===== verification/Udp_Heartbeat.thy ===== *)
theory Udp_Heartbeat
  imports Treeless_Prelude
begin

text \<open>
  The heartbeat packets (src/com/protocol/udpHeartbeat.go): what a server says about itself,
  in a packet of 1400 bytes, and how it is read back.
\<close>

section \<open>Packets\<close>

definition MaxHeartbeatSize :: nat where
  "MaxHeartbeatSize = 1400"

record amAliveChunk =
  chunk_ID :: int
  chunk_Checksum :: u64

record amAlive =
  KnownChunks :: "amAliveChunk list"
  RecentlyAddedServers :: "string list"
  RecentlyDeadServers :: "string list"

text \<open>The bytes of a Go string.\<close>

definition bytes_of :: "string \<Rightarrow> bytes" where
  "bytes_of s = map (\<lambda>ch. of_nat (of_char ch)) s"

definition string_of :: "bytes \<Rightarrow> string" where
  "string_of bs = map (\<lambda>b. char_of (unat b)) bs"

section \<open>Serialization\<close>

text \<open>The slice \<open>m\<close> of the code is the part of \<open>msg\<close> from position \<open>off\<close> on.\<close>

fun put_chunks :: "amAliveChunk list \<Rightarrow> bytes \<Rightarrow> nat \<Rightarrow> (bytes \<times> nat) go" where
  "put_chunks [] msg off = Ret (msg, off)"
| "put_chunks (c # cs) msg off =
     bindG (put_bytes msg off (le32 (word_of_int (chunk_ID c)))) (\<lambda>msg1.
     bindG (put_bytes msg1 (off + 4) (le64 (chunk_Checksum c))) (\<lambda>msg2.
     put_chunks cs msg2 (off + 12)))"

fun put_addrs :: "nat \<Rightarrow> string list \<Rightarrow> bytes \<Rightarrow> nat \<Rightarrow> (bytes \<times> nat) go" where
  "put_addrs slack [] msg off = Ret (msg, off)"
| "put_addrs slack (a # as) msg off =
     (if length a + slack \<ge> length msg - off then Ret (msg, off)
      else bindG (put_bytes msg off (le16 (of_nat (length a)))) (\<lambda>msg1.
        put_addrs slack as (copy_at msg1 (off + 2) (length msg1 - (off + 2)) (bytes_of a)) (off + (2 + length a))))"

definition AmAlive_Marshal :: "amAlive \<Rightarrow> bytes go" where
  "AmAlive_Marshal aa =
     bindG (put_bytes (replicate MaxHeartbeatSize 0) 0 (le16 (of_nat (length (KnownChunks aa))))) (\<lambda>msg.
     bindG (put_chunks (KnownChunks aa) msg 2) (\<lambda>(msg, off).
     bindG (put_addrs 64 (RecentlyAddedServers aa) msg off) (\<lambda>(msg, off).
     bindG (put_bytes msg off (le16 0)) (\<lambda>msg.
     bindG (put_addrs 4 (RecentlyDeadServers aa) msg (off + 2)) (\<lambda>(msg, off).
     put_bytes msg off (le16 0))))))"

fun get_chunks :: "nat \<Rightarrow> bytes \<Rightarrow> (string + amAliveChunk list \<times> bytes) go" where
  "get_chunks 0 m = Ret (Inr ([], m))"
| "get_chunks (Suc n) m =
     (if length m < 16 then Ret (Inl ''Bad formatting, error 1'')
      else bindG (Uint32 m) (\<lambda>i.
        bindG (bindG (slice_from m 4) Uint64) (\<lambda>sum.
        bindG (slice_from m 12) (\<lambda>m'.
        bindG (get_chunks n m') (\<lambda>r. case r of
            Inl e \<Rightarrow> Ret (Inl e)
          | Inr (cs, m'') \<Rightarrow> Ret (Inr (\<lparr>chunk_ID = uint i, chunk_Checksum = sum\<rparr> # cs, m'')))))))"

text \<open>
  The loops that read addresses up to an empty one: \<open>least\<close> is the number of bytes they ask
  for, \<open>e\<close> their error. The position is a 16-bit number. The loop stops before the length
  of the empty address.
\<close>

function get_addrs :: "nat \<Rightarrow> string \<Rightarrow> bytes \<Rightarrow> (string + string list \<times> bytes) go" where
  "get_addrs least e m =
     (if length m < least then Ret (Inl e)
      else bindG (Uint16 m) (\<lambda>lenAddr.
        if lenAddr = 0 then Ret (Inr ([], m))
        else bindG (slice_of m 2 (unat (2 + lenAddr))) (\<lambda>addr.
          bindG (slice_from m (unat (2 + lenAddr))) (\<lambda>m'.
          bindG (get_addrs least e m') (\<lambda>r. case r of
              Inl e \<Rightarrow> Ret (Inl e)
            | Inr (as, m'') \<Rightarrow> Ret (Inr (string_of addr # as, m'')))))))"
  by pat_completeness auto

termination
  by (relation "measure (\<lambda>(least, e, m). length m)")
    (auto simp: slice_of_def slice_from_def Uint16_def split: if_splits)

declare get_addrs.simps [simp del]

definition AmAliveUnMarshal :: "bytes \<Rightarrow> (string + amAlive) go" where
  "AmAliveUnMarshal msg =
     bindG (Uint16 msg) (\<lambda>lenKnownChunks.
     bindG (slice_from msg 2) (\<lambda>m.
     bindG (get_chunks (unat lenKnownChunks) m) (\<lambda>r. case r of Inl e \<Rightarrow> Ret (Inl e) | Inr (cs, m) \<Rightarrow>
     bindG (get_addrs 4 ''Bad formatting, error 2'' m) (\<lambda>r. case r of Inl e \<Rightarrow> Ret (Inl e) | Inr (added, m) \<Rightarrow>
     bindG (get_addrs 2 ''Bad formatting, error 3'' m) (\<lambda>r. case r of Inl e \<Rightarrow> Ret (Inl e) | Inr (dead, m) \<Rightarrow>
     Ret (Inr \<lparr>KnownChunks = cs, RecentlyAddedServers = added, RecentlyDeadServers = dead\<rparr>))))))"

section \<open>Specification\<close>

text \<open>The addresses that fit into \<open>room\<close> bytes, and their encoding.\<close>

fun fit_addrs :: "nat \<Rightarrow> nat \<Rightarrow> string list \<Rightarrow> string list" where
  "fit_addrs slack room [] = []"
| "fit_addrs slack room (a # as) =
     (if length a + slack \<ge> room then [] else a # fit_addrs slack (room - (2 + length a)) as)"

definition addr_bytes :: "string \<Rightarrow> bytes" where
  "addr_bytes a = le16 (of_nat (length a)) @ bytes_of a"

definition chunk_bytes :: "amAliveChunk \<Rightarrow> bytes" where
  "chunk_bytes c = le32 (word_of_int (chunk_ID c)) @ le64 (chunk_Checksum c)"

section \<open>Lemmas\<close>

lemma length_bytes_of [simp]: "length (bytes_of s) = length s"
  by (simp add: bytes_of_def)

lemma string_of_bytes_of [simp]: "string_of (bytes_of s) = s"
proof -
  have "char_of (unat (of_nat (of_char ch) :: byte)) = ch" for ch :: char
    by (simp add: unat_of_nat)
  then show ?thesis by (simp add: string_of_def bytes_of_def map_idI)
qed

lemma length_addr_bytes [simp]: "length (addr_bytes a) = 2 + length a"
  by (simp add: addr_bytes_def)

lemma length_chunk_bytes [simp]: "length (chunk_bytes c) = 12"
  by (simp add: chunk_bytes_def)

lemma length_chunks_bytes [simp]: "length (concat (map chunk_bytes cs)) = 12 * length cs"
  by (induction cs) auto

lemma put_bytes_off:
  assumes "off = length p" and "length bs \<le> length r"
  shows "put_bytes (p @ r) off bs = Ret (p @ bs @ drop (length bs) r)"
  using assms by (simp add: put_bytes_def)

lemma copy_at_off:
  assumes "off = length p" and "length bs \<le> length r" and "n = length r"
  shows "copy_at (p @ r) off n bs = p @ bs @ drop (length bs) r"
  using assms by (simp add: copy_at_def min_absorb2)

lemma put_chunks_run:
  assumes "off = length p" and "12 * length cs \<le> length r"
  shows "put_chunks cs (p @ r) off
    = Ret (p @ concat (map chunk_bytes cs) @ drop (12 * length cs) r, off + 12 * length cs)"
  using assms
proof (induction cs arbitrary: p r off)
  case (Cons c cs)
  let ?i = "le32 (word_of_int (chunk_ID c))" and ?s = "le64 (chunk_Checksum c)"
  have "put_bytes (p @ r) off ?i = Ret (p @ ?i @ drop 4 r)" using Cons.prems put_bytes_off [of off p ?i r] by simp
  moreover have "put_bytes (p @ ?i @ drop 4 r) (off + 4) ?s = Ret ((p @ ?i) @ ?s @ drop 12 r)"
    using Cons.prems put_bytes_off [of "off + 4" "p @ ?i" ?s "drop 4 r"] by simp
  moreover have "put_chunks cs ((p @ ?i @ ?s) @ drop 12 r) (off + 12)
      = Ret ((p @ ?i @ ?s) @ concat (map chunk_bytes cs) @ drop (12 * length cs) (drop 12 r), off + 12 + 12 * length cs)"
    using Cons.prems by (intro Cons.IH) simp_all
  ultimately show ?case by (simp add: chunk_bytes_def [of c] add.commute)
qed simp

lemma fit_addrs_size:
  "2 \<le> slack \<Longrightarrow> fit_addrs slack room as \<noteq> [] \<Longrightarrow>
     length (concat (map addr_bytes (fit_addrs slack room as))) + slack \<le> Suc room"
proof (induction slack room as rule: fit_addrs.induct)
  case (2 slack room a as)
  then show ?case by (cases "fit_addrs slack (room - (2 + length a)) as = []") (auto split: if_splits)
qed simp

lemma put_addr_step:
  assumes "off = length p" and "length a + slack < length r" and "2 \<le> slack"
  shows "put_addrs slack (a # as) (p @ r) off
    = put_addrs slack as ((p @ addr_bytes a) @ drop (2 + length a) r) (off + (2 + length a))"
proof -
  let ?n = "le16 (of_nat (length a))"
  have 1: "put_bytes (p @ r) off ?n = Ret ((p @ ?n) @ drop 2 r)"
    using put_bytes_off [of off p ?n r] assms by simp
  have "copy_at ((p @ ?n) @ drop 2 r) (off + 2) (length r - 2) (bytes_of a)
      = (p @ ?n) @ bytes_of a @ drop (length (bytes_of a)) (drop 2 r)"
    by (rule copy_at_off) (use assms in simp_all)
  moreover have "length ((p @ ?n) @ drop 2 r) - (off + 2) = length r - 2" using assms by simp
  ultimately have 2: "copy_at ((p @ ?n) @ drop 2 r) (off + 2) (length ((p @ ?n) @ drop 2 r) - (off + 2)) (bytes_of a)
      = (p @ addr_bytes a) @ drop (2 + length a) r"
    by (simp add: addr_bytes_def)
  show ?thesis unfolding put_addrs.simps 1 bindG.simps 2 using assms by simp
qed

lemma put_addrs_run:
  assumes "off = length p" and "2 \<le> slack" and "F = fit_addrs slack (length r) as"
  shows "put_addrs slack as (p @ r) off
    = Ret (p @ concat (map addr_bytes F) @ drop (length (concat (map addr_bytes F))) r,
           off + length (concat (map addr_bytes F)))"
  using assms
proof (induction as arbitrary: p r off F)
  case (Cons a as)
  show ?case
  proof (cases "length a + slack < length r")
    case False
    then have "F = []" using Cons.prems(3) by simp
    then show ?thesis using False Cons.prems(1) by simp
  next
    case True
    define G where "G = fit_addrs slack (length (drop (2 + length a) r)) as"
    have F: "F = a # G" using True Cons.prems(3) by (simp add: G_def)
    have "put_addrs slack as ((p @ addr_bytes a) @ drop (2 + length a) r) (off + (2 + length a))
        = Ret ((p @ addr_bytes a) @ concat (map addr_bytes G)
                 @ drop (length (concat (map addr_bytes G))) (drop (2 + length a) r),
               off + (2 + length a) + length (concat (map addr_bytes G)))"
      by (rule Cons.IH [OF _ Cons.prems(2) G_def]) (simp add: Cons.prems(1))
    then show ?thesis
      unfolding put_addr_step [OF Cons.prems(1) True Cons.prems(2)] F by (simp add: ac_simps)
  qed
qed simp

lemma get_chunks_run:
  assumes "\<forall>c\<in>set cs. 0 \<le> chunk_ID c \<and> chunk_ID c < 2 ^ 32" and "4 \<le> length r"
  shows "get_chunks (length cs) (concat (map chunk_bytes cs) @ r) = Ret (Inr (cs, r))"
  using assms(1)
proof (induction cs)
  case (Cons c cs)
  let ?i = "word_of_int (chunk_ID c) :: u32" and ?m = "concat (map chunk_bytes cs) @ r"
  have "uint ?i = chunk_ID c" using Cons.prems by (simp add: uint_word_of_int_eq take_bit_int_eq_self)
  moreover have "get_chunks (length cs) ?m = Ret (Inr (cs, r))" using Cons by simp
  moreover have "Uint32 (le32 ?i @ le64 (chunk_Checksum c) @ ?m) = Ret ?i" by simp
  moreover have "bindG (slice_from (le32 ?i @ le64 (chunk_Checksum c) @ ?m) 4) Uint64 = Ret (chunk_Checksum c)"
    by (simp add: slice_from_def)
  moreover have "slice_from (le32 ?i @ le64 (chunk_Checksum c) @ ?m) 12 = Ret ?m"
    by (simp add: slice_from_def)
  ultimately show ?case using assms(2) by (simp add: chunk_bytes_def [of c])
qed simp

lemma get_addrs_end:
  "least \<le> 2 + length r \<Longrightarrow> get_addrs least e (le16 0 @ r) = Ret (Inr ([], le16 0 @ r))"
  by (subst get_addrs.simps) simp

lemma get_addrs_run:
  assumes "\<forall>a\<in>set as. a \<noteq> [] \<and> length a < 65534" and "least \<le> 2 + length r"
  shows "get_addrs least e (concat (map addr_bytes as) @ le16 0 @ r) = Ret (Inr (as, le16 0 @ r))"
  using assms(1)
proof (induction as)
  case Nil
  then show ?case using get_addrs_end [OF assms(2)] by simp
next
  case (Cons a as)
  let ?n = "of_nat (length a) :: u16" and ?m = "concat (map addr_bytes as) @ le16 0 @ r"
  have a: "0 < length a" "length a < 65534" using Cons.prems by simp_all
  have n: "unat ?n = length a" using a(2) by (intro unat_of_nat_small) simp
  then have "?n \<noteq> 0" using a(1) by (metis length_0_conv less_nat_zero_code unat_0)
  have n2: "unat (2 + ?n) = 2 + length a"
    using unat_plus_small [of "2 :: u16" ?n] n a(2) by simp
  have IH: "get_addrs least e ?m = Ret (Inr (as, le16 0 @ r))" using Cons by simp
  have "Uint16 (addr_bytes a @ ?m) = Ret ?n" by (simp add: addr_bytes_def)
  moreover have "slice_of (addr_bytes a @ ?m) 2 (2 + length a) = Ret (bytes_of a)"
    by (simp add: slice_of_def addr_bytes_def)
  moreover have "slice_from (addr_bytes a @ ?m) (2 + length a) = Ret ?m" by (simp add: slice_from_def)
  moreover have "\<not> length (addr_bytes a @ ?m) < least" using assms(2) by simp
  ultimately have "get_addrs least e (addr_bytes a @ ?m) = Ret (Inr (a # as, le16 0 @ r))"
    using \<open>?n \<noteq> 0\<close> by (subst get_addrs.simps) (simp only: n2 IH bindG.simps if_False sum.case prod.case string_of_bytes_of)
  then show ?case by simp
qed

lemma fit_addrs_subset: "set (fit_addrs slack room as) \<subseteq> set as"
  by (induction slack room as rule: fit_addrs.induct) auto

lemma fit_addrs_length: "a \<in> set (fit_addrs slack room as) \<Longrightarrow> length a < room"
proof (induction slack room as rule: fit_addrs.induct)
  case (2 slack room b as)
  then show ?case by (auto split: if_splits)
qed simp

text \<open>The end of the packet, behind the added servers.\<close>

lemma marshal_tail:
  assumes off: "off = length p" and k: "6 \<le> k"
  shows "\<exists>r. bindG (put_bytes (p @ replicate k 0) off (le16 0)) (\<lambda>msg.
      bindG (put_addrs 4 dead msg (off + 2)) (\<lambda>(msg, off). put_bytes msg off (le16 0))) = Ret (p @ le16 0 @ r)
    \<and> length r + 2 = k"
proof -
  define G where "G = concat (map addr_bytes (fit_addrs 4 (k - 2) dead))"
  have lG: "length G + 2 \<le> k - 2"
    using fit_addrs_size [of 4 "k - 2" dead] k
    by (cases "fit_addrs 4 (k - 2) dead = []") (simp_all add: G_def)
  have 1: "put_bytes (p @ replicate k 0) off (le16 0) = Ret ((p @ le16 0) @ replicate (k - 2) 0)"
    using put_bytes_off [of off p "le16 0" "replicate k 0"] off k by simp
  have 2: "put_addrs 4 dead ((p @ le16 0) @ replicate (k - 2) 0) (off + 2)
      = Ret ((p @ le16 0) @ G @ drop (length G) (replicate (k - 2) 0), off + 2 + length G)"
    unfolding G_def by (rule put_addrs_run) (simp_all add: off)
  have 3: "put_bytes (((p @ le16 0) @ G) @ replicate (k - 2 - length G) 0) (off + 2 + length G) (le16 0)
      = Ret (((p @ le16 0) @ G) @ le16 0 @ drop (length (le16 0)) (replicate (k - 2 - length G) 0))"
    by (rule put_bytes_off) (use lG off in simp_all)
  have 4: "(p @ le16 0) @ G @ drop (length G) (replicate (k - 2) 0) = ((p @ le16 0) @ G) @ replicate (k - 2 - length G) 0"
    by simp
  show ?thesis
    unfolding 1 bindG.simps 2 prod.case 4 3
    by (intro exI [of _ "G @ le16 0 @ replicate (k - 2 - length G - 2) 0"]) (use lG k in simp)
qed

lemma marshal_run:
  assumes n: "length (KnownChunks aa) = n" "n \<le> 116"
    and F: "F = fit_addrs 64 (1398 - 12 * n) (RecentlyAddedServers aa)"
  obtains r where "AmAlive_Marshal aa = Ret (le16 (of_nat n) @ concat (map chunk_bytes (KnownChunks aa))
      @ concat (map addr_bytes F) @ le16 0 @ r)"
    and "2 + 12 * n + length (concat (map addr_bytes F)) + 2 + length r = 1400" and "4 \<le> length r"
proof -
  define E where "E = concat (map addr_bytes F)"
  define p where "p = le16 (of_nat n) @ concat (map chunk_bytes (KnownChunks aa))"
  have lp: "length p = 2 + 12 * n" by (simp add: p_def n(1))
  have lE: "length E + 6 \<le> 1398 - 12 * n"
    using fit_addrs_size [of 64 "1398 - 12 * n" "RecentlyAddedServers aa"] n(2)
    by (cases "F = []") (simp_all add: E_def F)
  define k where "k = 1398 - 12 * n - length E"
  have k: "6 \<le> k" "2 + 12 * n + length E + k = 1400" using lE n(2) by (simp_all add: k_def)
  have w1: "put_bytes (replicate MaxHeartbeatSize 0) 0 (le16 (of_nat n)) = Ret (le16 (of_nat n) @ replicate 1398 0)"
    using put_bytes_off [of 0 "[]" "le16 (of_nat n)" "replicate 1400 0"] by (simp add: MaxHeartbeatSize_def)
  have w2: "put_chunks (KnownChunks aa) (le16 (of_nat n) @ replicate 1398 0) 2 = Ret (p @ replicate (1398 - 12 * n) 0, 2 + 12 * n)"
    using put_chunks_run [of 2 "le16 (of_nat n)" "KnownChunks aa" "replicate 1398 0"] n by (simp add: p_def)
  have w3: "put_addrs 64 (RecentlyAddedServers aa) (p @ replicate (1398 - 12 * n) 0) (2 + 12 * n)
      = Ret (p @ E @ drop (length E) (replicate (1398 - 12 * n) 0), 2 + 12 * n + length E)"
    unfolding E_def by (rule put_addrs_run) (simp_all add: lp F)
  have d: "p @ E @ drop (length E) (replicate (1398 - 12 * n) 0) = (p @ E) @ replicate k 0"
    by (simp add: k_def)
  have o: "2 + 12 * n + length E = length (p @ E)" by (simp add: lp)
  obtain r where r: "bindG (put_bytes ((p @ E) @ replicate k 0) (2 + 12 * n + length E) (le16 0)) (\<lambda>msg.
      bindG (put_addrs 4 (RecentlyDeadServers aa) msg (2 + 12 * n + length E + 2)) (\<lambda>(msg, off). put_bytes msg off (le16 0)))
        = Ret ((p @ E) @ le16 0 @ r)" "length r + 2 = k"
    using marshal_tail [OF o k(1)] by blast
  show thesis
  proof (rule that)
    show "AmAlive_Marshal aa = Ret (le16 (of_nat n) @ concat (map chunk_bytes (KnownChunks aa))
        @ concat (map addr_bytes F) @ le16 0 @ r)"
      unfolding AmAlive_Marshal_def n(1) w1 bindG.simps w2 prod.case w3 d r(1) by (simp add: p_def E_def)
  qed (use r(2) k in \<open>simp_all add: E_def\<close>)
qed

lemma packet_read:
  assumes "length (KnownChunks aa) \<le> 116"
    and "\<forall>c\<in>set (KnownChunks aa). 0 \<le> chunk_ID c \<and> chunk_ID c < 2 ^ 32"
    and "[] \<notin> set (RecentlyAddedServers aa)"
  shows "\<exists>msg. AmAlive_Marshal aa = Ret msg \<and> length msg = 1400 \<and> AmAliveUnMarshal msg = Ret (Inr
    \<lparr>KnownChunks = KnownChunks aa,
     RecentlyAddedServers = fit_addrs 64 (1398 - 12 * length (KnownChunks aa)) (RecentlyAddedServers aa),
     RecentlyDeadServers = []\<rparr>)"
proof -
  define n where "n = length (KnownChunks aa)"
  define F where "F = fit_addrs 64 (1398 - 12 * n) (RecentlyAddedServers aa)"
  define E where "E = concat (map addr_bytes F)"
  let ?C = "concat (map chunk_bytes (KnownChunks aa))"
  have n: "n \<le> 116" using assms(1) by (simp add: n_def)
  obtain r where r: "AmAlive_Marshal aa = Ret (le16 (of_nat n) @ ?C @ E @ le16 0 @ r)"
    "2 + 12 * n + length E + 2 + length r = 1400" "4 \<le> length r"
    using marshal_run [OF n_def [symmetric] n F_def] unfolding E_def by blast
  have un: "unat (of_nat n :: u16) = n" using n by (intro unat_of_nat_small) simp
  have g1: "get_chunks n (?C @ E @ le16 0 @ r) = Ret (Inr (KnownChunks aa, E @ le16 0 @ r))"
    unfolding n_def using assms(2) r(3) by (intro get_chunks_run) simp_all
  have F: "\<forall>a\<in>set F. a \<noteq> [] \<and> length a < 65534"
  proof
    fix a assume a: "a \<in> set F"
    then have "a \<in> set (RecentlyAddedServers aa)" "length a < 1398 - 12 * n"
      using fit_addrs_subset fit_addrs_length unfolding F_def by blast+
    then show "a \<noteq> [] \<and> length a < 65534" using assms(3) by auto
  qed
  have g2: "get_addrs 4 e (E @ le16 0 @ r) = Ret (Inr (F, le16 0 @ r))" for e
    unfolding E_def using F r(3) by (intro get_addrs_run) simp_all
  have g3: "get_addrs 2 e (le16 0 @ r) = Ret (Inr ([], le16 0 @ r))" for e by (intro get_addrs_end) simp
  have "AmAliveUnMarshal (le16 (of_nat n) @ ?C @ E @ le16 0 @ r)
      = Ret (Inr \<lparr>KnownChunks = KnownChunks aa, RecentlyAddedServers = F, RecentlyDeadServers = []\<rparr>)"
    by (simp add: AmAliveUnMarshal_def slice_from_def un g1 g2 g3)
  moreover have "length (le16 (of_nat n) @ ?C @ E @ le16 0 @ r) = 1400" using r(2) by (simp add: n_def)
  ultimately show ?thesis using r(1) unfolding F_def n_def by blast
qed

section \<open>Properties\<close>

text \<open>
  C22: A heartbeat is read back except for its last list: with at most 116 chunks, numbered
  below \<open>2 ^ 32\<close>, and no empty address, \<open>Marshal\<close> returns a packet of 1400 bytes, and reading it gives
  the chunks with their checksums and the added servers that fit into the packet. The
  dead servers are not read back.
\<close>

theorem heartbeat_roundtrip:
  assumes "length (KnownChunks aa) \<le> 116"
    and "\<forall>c\<in>set (KnownChunks aa). 0 \<le> chunk_ID c \<and> chunk_ID c < 2 ^ 32"
    and "[] \<notin> set (RecentlyAddedServers aa)"
  shows "\<exists>msg. AmAlive_Marshal aa = Ret msg \<and> length msg = 1400 \<and> AmAliveUnMarshal msg = Ret (Inr
    \<lparr>KnownChunks = KnownChunks aa,
     RecentlyAddedServers = fit_addrs 64 (1398 - 12 * length (KnownChunks aa)) (RecentlyAddedServers aa),
     RecentlyDeadServers = []\<rparr>)"
  using assms by (rule packet_read)

definition ex_alive :: amAlive where
  "ex_alive = \<lparr>KnownChunks = [\<lparr>chunk_ID = 3, chunk_Checksum = 9\<rparr>], RecentlyAddedServers = [''a:1''],
     RecentlyDeadServers = [''b:2'']\<rparr>"

theorem heartbeat_roundtrip_witness:
  "\<exists>msg. AmAlive_Marshal ex_alive = Ret msg
    \<and> AmAliveUnMarshal msg = Ret (Inr (ex_alive\<lparr>RecentlyDeadServers := []\<rparr>))"
proof -
  have e: "KnownChunks ex_alive = [\<lparr>chunk_ID = 3, chunk_Checksum = 9\<rparr>]" "RecentlyAddedServers ex_alive = [''a:1'']"
    by (simp_all add: ex_alive_def)
  have "\<exists>msg. AmAlive_Marshal ex_alive = Ret msg \<and> length msg = 1400 \<and> AmAliveUnMarshal msg = Ret (Inr
    \<lparr>KnownChunks = KnownChunks ex_alive,
     RecentlyAddedServers = fit_addrs 64 (1398 - 12 * length (KnownChunks ex_alive)) (RecentlyAddedServers ex_alive),
     RecentlyDeadServers = []\<rparr>)"
    by (rule heartbeat_roundtrip) (simp_all add: e)
  then show ?thesis by (auto simp: ex_alive_def)
qed

lemma bind_sum_Ret:
  "bindG m (\<lambda>r. case r of Inl e \<Rightarrow> Ret (Inl e) | Inr x \<Rightarrow> f x) = Ret (Inr y)
     \<longleftrightarrow> (\<exists>x. m = Ret (Inr x) \<and> f x = Ret (Inr y))"
  by (cases m) (auto split: sum.splits)

lemma get_addrs_stop:
  "get_addrs least e m = Ret (Inr (as, m')) \<Longrightarrow> Uint16 m' = Ret 0"
proof (induction least e m arbitrary: as rule: get_addrs.induct)
  case (1 least e m)
  from 1(2) show ?case
    by (subst (asm) get_addrs.simps)
      (auto simp: bindG_eq_Ret [of "Uint16 m"] bindG_eq_Ret [of "slice_of m i j" for i j]
        bindG_eq_Ret [of "slice_from m i" for i] bind_sum_Ret split: if_splits intro: 1(1))
qed

text \<open>
  Death notices are never received: whatever packet arrives, the list of dead servers that
  \<open>AmAliveUnMarshal\<close> returns is empty, because its last loop starts at the empty address that
  ended the one before it.
\<close>

lemma dead_servers_lost:
  assumes "AmAliveUnMarshal msg = Ret (Inr aa)"
  shows "RecentlyDeadServers aa = []"
proof -
  have nil: "as = []" if "Uint16 m = Ret 0" "get_addrs least e m = Ret (Inr (as, m'))" for least e m as m'
    using that by (subst (asm) get_addrs.simps) (simp split: if_splits)
  from assms obtain m added dead m' m'' where
    "get_addrs 4 ''Bad formatting, error 2'' m = Ret (Inr (added, m'))"
    "get_addrs 2 ''Bad formatting, error 3'' m' = Ret (Inr (dead, m''))" "RecentlyDeadServers aa = dead"
    by (auto simp: AmAliveUnMarshal_def bindG_eq_Ret [of "Uint16 msg"] bindG_eq_Ret [of "slice_from msg 2"] bind_sum_Ret)
  then show ?thesis using get_addrs_stop nil by blast
qed

text \<open>
  A server with more than 116 chunks cannot send a heartbeat: \<open>Marshal\<close> panics when it writes
  the chunk behind the end of the packet.
\<close>

lemma heartbeat_too_many_chunks:
  assumes "length (KnownChunks aa) > 116"
  shows "AmAlive_Marshal aa = Panic OutOfRange"
proof -
  have full: "put_chunks cs msg off = Panic OutOfRange"
    if "length msg = 1400" "off \<le> 1400" "off + 12 * length cs > 1400" for cs msg off
    using that
  proof (induction cs arbitrary: msg off)
    case (Cons c cs)
    then show ?case by (auto simp: put_bytes_def)
  qed simp
  have "put_bytes (replicate MaxHeartbeatSize 0) 0 (le16 w) = Ret (le16 w @ replicate 1398 0)" for w
    using put_bytes_off [of 0 "[]" "le16 w" "replicate 1400 0"] by (simp add: MaxHeartbeatSize_def)
  moreover have "put_chunks (KnownChunks aa) (le16 w @ replicate 1398 0) 2 = Panic OutOfRange" for w
    using assms by (intro full) simp_all
  ultimately show ?thesis by (simp add: AmAlive_Marshal_def)
qed

end
