(* ===== verification/Virtual_Server.thy ===== *)
theory Virtual_Server
  imports Broker Udp_Heartbeat "HOL-Library.Multiset"
begin

text \<open>
  The servers and chunks as a server group sees them (src/dist/servergroup/virtualserver.go and
  virtualchunk.go): the connection that a request opens on demand, what each request hands
  to it and makes of the answer, and the list of the holders of a chunk.
\<close>

section \<open>Servers\<close>

text \<open>
  A connection is the list of the messages handed to its broker so far. The mutex of the server
  makes each operation here one step.
\<close>

record virtualServer =
  Phy :: string
  lastHeartbeat :: time
  dead :: bool
  heldChunks :: "amAliveChunk list"
  link :: "brokerMsg list option"
  vs_noDelay :: bool

definition new_VirtualServer :: "string \<Rightarrow> bool \<Rightarrow> virtualServer" where
  "new_VirtualServer addr nd = \<lparr>Phy = addr, lastHeartbeat = zero_time, dead = False, heldChunks = [], link = None, vs_noDelay = nd\<rparr>"

definition getChunk :: "virtualServer \<Rightarrow> int \<Rightarrow> amAliveChunk option" where
  "getChunk s cid = find (\<lambda>c. chunk_ID c = cid) (heldChunks s)"

text \<open>\<open>dial\<close> is the outcome of \<open>com.CreateConnection\<close> for an address.\<close>

type_synonym dialer = "string \<Rightarrow> err"

definition needConnection :: "dialer \<Rightarrow> virtualServer \<Rightarrow> err \<times> virtualServer" where
  "needConnection dial s = (case link s of
     Some _ \<Rightarrow> (None, s)
   | None \<Rightarrow> (case dial (Phy s) of
       Some e \<Rightarrow> (Some e, s)
     | None \<Rightarrow> (None, s\<lparr>link := Some (if vs_noDelay s then [client_SetNoDelay] else [])\<rparr>)))"

definition freeConn :: "virtualServer \<Rightarrow> virtualServer" where
  "freeConn s = s\<lparr>link := None\<rparr>"

text \<open>Handing a message to the broker of the connection.\<close>

definition hand_over :: "brokerMsg \<Rightarrow> virtualServer \<Rightarrow> virtualServer" where
  "hand_over m s = s\<lparr>link := map_option (\<lambda>ms. ms @ [m]) (link s)\<rparr>"

section \<open>Requests\<close>

text \<open>
  The requests of a client return the operation to wait for, here the channel \<open>rc\<close> of
  the answer.
\<close>

definition vs_Get :: "dialer \<Rightarrow> virtualServer \<Rightarrow> bytes \<Rightarrow> int \<Rightarrow> nat \<Rightarrow> (err \<times> virtualServer) go" where
  "vs_Get dial s key t rc = (case needConnection dial s of
     (Some e, s1) \<Rightarrow> Ret (Some e, s1)
   | (None, s1) \<Rightarrow> bindG (client_Get key t rc) (\<lambda>m. Ret (None, hand_over m s1)))"

definition vs_Set :: "dialer \<Rightarrow> virtualServer \<Rightarrow> bytes \<Rightarrow> bytes \<Rightarrow> int \<Rightarrow> nat \<Rightarrow> err \<times> virtualServer" where
  "vs_Set dial s key val t rc = (case needConnection dial s of
     (Some e, s1) \<Rightarrow> (Some e, s1)
   | (None, s1) \<Rightarrow> (None, hand_over (client_Set key val t rc) s1))"

definition vs_Del :: "dialer \<Rightarrow> virtualServer \<Rightarrow> bytes \<Rightarrow> bytes \<Rightarrow> int \<Rightarrow> nat \<Rightarrow> err \<times> virtualServer" where
  "vs_Del dial s key val t rc = (case needConnection dial s of
     (Some e, s1) \<Rightarrow> (Some e, s1)
   | (None, s1) \<Rightarrow> (None, hand_over (client_Del key val t rc) s1))"

definition vs_CAS :: "dialer \<Rightarrow> virtualServer \<Rightarrow> bytes \<Rightarrow> bytes \<Rightarrow> int \<Rightarrow> nat \<Rightarrow> (err \<times> virtualServer) go" where
  "vs_CAS dial s key val t rc = (case needConnection dial s of
     (Some e, s1) \<Rightarrow> Ret (Some e, s1)
   | (None, s1) \<Rightarrow> bindG (client_CAS key val t rc) (\<lambda>m. Ret (None, hand_over m s1)))"

text \<open>
  The requests among servers wait for the answer \<open>r\<close> that comes through the channel
  \<open>rc\<close>. Without a connection \<open>Transfer\<close> returns nil, as if the transfer had succeeded, and
  \<open>GetChunkInfo\<close> the size zero.
\<close>

definition vs_Transfer :: "dialer \<Rightarrow> virtualServer \<Rightarrow> string \<Rightarrow> int \<Rightarrow> nat \<Rightarrow> result \<Rightarrow> err \<times> virtualServer" where
  "vs_Transfer dial s addr cid rc r = (case needConnection dial s of
     (Some e, s1) \<Rightarrow> (None, s1)
   | (None, s1) \<Rightarrow> (r_Err r, hand_over (client_Transfer (bytes_of addr) cid rc) s1))"

definition vs_GetAccessInfo :: "dialer \<Rightarrow> virtualServer \<Rightarrow> nat \<Rightarrow> result \<Rightarrow> bytes \<times> virtualServer" where
  "vs_GetAccessInfo dial s rc r = (case needConnection dial s of
     (Some e, s1) \<Rightarrow> ([], s1)
   | (None, s1) \<Rightarrow> (r_Value r, hand_over (client_GetAccessInfo rc) s1))"

definition vs_AddServerToGroup :: "dialer \<Rightarrow> virtualServer \<Rightarrow> string \<Rightarrow> nat \<Rightarrow> result \<Rightarrow> err \<times> virtualServer" where
  "vs_AddServerToGroup dial s addr rc r = (case needConnection dial s of
     (Some e, s1) \<Rightarrow> (Some e, s1)
   | (None, s1) \<Rightarrow> (r_Err r, hand_over (client_AddServerToGroup (bytes_of addr) rc) s1))"

definition vs_Protect :: "dialer \<Rightarrow> virtualServer \<Rightarrow> int \<Rightarrow> nat \<Rightarrow> result \<Rightarrow> bool \<times> virtualServer" where
  "vs_Protect dial s cid rc r = (case needConnection dial s of
     (Some e, s1) \<Rightarrow> (False, s1)
   | (None, s1) \<Rightarrow> (r_Err r = None, hand_over (client_Protect cid rc) s1))"

definition vs_GetChunkInfo :: "dialer \<Rightarrow> virtualServer \<Rightarrow> int \<Rightarrow> nat \<Rightarrow> result \<Rightarrow> (u64 \<times> virtualServer) go" where
  "vs_GetChunkInfo dial s cid rc r = (case needConnection dial s of
     (Some e, s1) \<Rightarrow> Ret (0, s1)
   | (None, s1) \<Rightarrow> bindG (chunk_info r) (\<lambda>(n, _). Ret (n, hand_over (client_GetChunkInfo cid rc) s1)))"

definition vs_SetBuffered :: "dialer \<Rightarrow> virtualServer \<Rightarrow> bool \<times> virtualServer" where
  "vs_SetBuffered dial s = (case needConnection dial s of
     (Some e, s1) \<Rightarrow> (False, s1)
   | (None, s1) \<Rightarrow> (True, hand_over client_SetBuffered s1))"

definition vs_SetNoDelay :: "dialer \<Rightarrow> virtualServer \<Rightarrow> bool \<times> virtualServer" where
  "vs_SetNoDelay dial s = (case needConnection dial s of
     (Some e, s1) \<Rightarrow> (False, s1)
   | (None, s1) \<Rightarrow> (True, hand_over client_SetNoDelay s1))"

section \<open>Chunks and their holders\<close>

text \<open>A holder is a pointer to a server, here the number of its object.\<close>

record virtualChunk =
  vc_id :: int
  holders :: "nat list"

definition hasHolder :: "virtualChunk \<Rightarrow> nat \<Rightarrow> bool" where
  "hasHolder c s = list_ex (\<lambda>sin. s = sin) (holders c)"

text \<open>The first occurrence is overwritten with the last holder, and the last one is cut off.\<close>

fun find_holder :: "nat list \<Rightarrow> nat \<Rightarrow> nat option" where
  "find_holder [] s = None"
| "find_holder (h # hs) s = (if h = s then Some 0 else map_option Suc (find_holder hs s))"

definition removeHolder :: "virtualChunk \<Rightarrow> nat \<Rightarrow> virtualChunk" where
  "removeHolder c s = (case find_holder (holders c) s of
     None \<Rightarrow> c
   | Some i \<Rightarrow> c\<lparr>holders := butlast ((holders c)[i := last (holders c)])\<rparr>)"

definition addHolder :: "virtualChunk \<Rightarrow> nat \<Rightarrow> virtualChunk" where
  "addHolder c s = c\<lparr>holders := holders c @ [s]\<rparr>"

section \<open>Lemmas\<close>

lemma hasHolder_iff [simp]: "hasHolder c s \<longleftrightarrow> s \<in> set (holders c)"
  by (auto simp: hasHolder_def list_ex_iff)

lemma addHolder_sel [simp]: "holders (addHolder c s) = holders c @ [s]" "vc_id (addHolder c s) = vc_id c"
  by (simp_all add: addHolder_def)

lemma removeHolder_id [simp]: "vc_id (removeHolder c s) = vc_id c"
  by (simp add: removeHolder_def split: option.splits)

lemma find_holder_None: "find_holder hs s = None \<longleftrightarrow> s \<notin> set hs"
  by (induction hs) auto

lemma find_holder_Some:
  "find_holder hs s = Some i \<Longrightarrow> i < length hs \<and> hs ! i = s"
  by (induction hs arbitrary: i) (auto split: if_splits)

text \<open>Swapping with the last element and cutting it off removes one element of the multiset.\<close>

lemma swap_out:
  assumes "i < length xs"
  shows "mset (butlast (xs[i := last xs])) = mset xs - {#xs ! i#}"
proof -
  have ne: "xs[i := last xs] \<noteq> []" using assms by auto
  have l: "last (xs[i := last xs]) = last xs"
    using assms by (cases xs rule: rev_cases) (auto simp: last_list_update)
  have "mset (xs[i := last xs]) = mset (butlast (xs[i := last xs]) @ [last (xs[i := last xs])])"
    using append_butlast_last_id [OF ne] by simp
  then have "mset (xs[i := last xs]) = add_mset (last xs) (mset (butlast (xs[i := last xs])))"
    unfolding l by simp
  moreover have "mset (xs[i := last xs]) = add_mset (last xs) (mset xs - {#xs ! i#})"
    by (rule mset_update [OF assms])
  ultimately show ?thesis by simp
qed

lemma removeHolder_mset: "mset (holders (removeHolder c s)) = mset (holders c) - {#s#}"
  by (auto simp: removeHolder_def find_holder_None swap_out dest!: find_holder_Some split: option.splits)

lemma removeHolder_set:
  assumes "distinct (holders c)"
  shows "set (holders (removeHolder c s)) = set (holders c) - {s}" and "distinct (holders (removeHolder c s))"
proof -
  have c: "count (mset (holders (removeHolder c s))) a = (if a \<in> set (holders c) - {s} then 1 else 0)" for a
    using assms unfolding distinct_count_atmost_1 by (simp add: removeHolder_mset)
  then show "set (holders (removeHolder c s)) = set (holders c) - {s}"
    unfolding set_mset_mset [symmetric] set_mset_def by auto
  then show "distinct (holders (removeHolder c s))"
    using c by (simp add: distinct_count_atmost_1)
qed

lemma getChunk_None: "getChunk s cid = None \<longleftrightarrow> cid \<notin> chunk_ID ` set (heldChunks s)"
  by (auto simp: getChunk_def find_None_iff)

lemma needConnection_frame:
  assumes "needConnection dial s = (e, s')"
  shows "heldChunks s' = heldChunks s" and "Phy s' = Phy s" and "dead s' = dead s"
  using assms by (auto simp: needConnection_def split: option.splits)

lemma hand_over_sel [simp]:
  "heldChunks (hand_over m s) = heldChunks s" "Phy (hand_over m s) = Phy s" "dead (hand_over m s) = dead s"
  by (simp_all add: hand_over_def)

lemma freeConn_sel [simp]:
  "heldChunks (freeConn s) = heldChunks s" "Phy (freeConn s) = Phy s" "dead (freeConn s) = dead s"
  by (simp_all add: freeConn_def)

end
