(* ===== verification/Server_Group.thy ===== *)
theory Server_Group
  imports Virtual_Server
begin

text \<open>
  The server group (src/dist/servergroup/servergroup.go): what one server knows about the
  servers of the database and about which of them hold which chunk. Its two views, the
  chunks each server holds and the holders of each chunk, agree in every state.
\<close>

section \<open>State\<close>

text \<open>
  The servers are objects shared by the map of addresses and the lists of holders; a pointer is
  the number of an object in \<open>objs\<close>. A Go map is iterated in no particular order; here
  it is a list of pairs without duplicate keys.
\<close>

record serverGroup =
  LocalhostIPPort :: string
  numChunks :: int
  redundancy :: int
  servers :: "(string \<times> nat) list"
  sg_chunks :: "virtualChunk list"
  sg_noDelay :: bool
  objs :: "virtualServer list"

definition new_chunks :: "int \<Rightarrow> virtualChunk list go" where
  "new_chunks n = (if n < 0 then Panic (Raised ''makeslice: len out of range'')
     else Ret (map (\<lambda>i. \<lparr>vc_id = int i, holders = []\<rparr>) [0..<nat n]))"

definition CreateServerGroup :: "int \<Rightarrow> int \<Rightarrow> string \<Rightarrow> serverGroup go" where
  "CreateServerGroup n r addr = bindG (new_chunks n) (\<lambda>cs.
     Ret \<lparr>LocalhostIPPort = addr, numChunks = n, redundancy = r, servers = [], sg_chunks = cs, sg_noDelay = False, objs = []\<rparr>)"

text \<open>\<open>Stop\<close>, and every loop over the servers: \<open>on_server\<close> changes one object.\<close>

definition on_server :: "(virtualServer \<Rightarrow> virtualServer) \<Rightarrow> nat \<Rightarrow> serverGroup \<Rightarrow> serverGroup" where
  "on_server f p sg = sg\<lparr>objs := (objs sg)[p := f (objs sg ! p)]\<rparr>"

definition sg_Stop :: "serverGroup \<Rightarrow> serverGroup" where
  "sg_Stop sg = fold (\<lambda>(a, p). on_server freeConn p) (servers sg) sg"

section \<open>Serialization\<close>

text \<open>
  The configuration and the addresses, as the package \<open>encoding/json\<close> sees them: of a server
  only the exported field \<open>Phy\<close>. The encoder \<open>je\<close> and the decoder \<open>jd\<close> of that package are
  parameters.
\<close>

record serializableServerGroup =
  ssg_NumChunks :: int
  ssg_Redundancy :: int
  ssg_Servers :: "(string \<times> string) list"

definition sg_Marshal :: "(serializableServerGroup \<Rightarrow> bytes) \<Rightarrow> serverGroup \<Rightarrow> bytes" where
  "sg_Marshal je sg = je \<lparr>ssg_NumChunks = numChunks sg, ssg_Redundancy = redundancy sg,
     ssg_Servers = map (\<lambda>(a, p). (a, Phy (objs sg ! p))) (servers sg)\<rparr>"

definition UnmarhalServerGroup :: "(bytes \<Rightarrow> string + serializableServerGroup) \<Rightarrow> bytes \<Rightarrow> (string + serverGroup) go" where
  "UnmarhalServerGroup jd b = (case jd b of
     Inl e \<Rightarrow> Ret (Inl e)
   | Inr ssg \<Rightarrow> bindG (new_chunks (ssg_NumChunks ssg)) (\<lambda>cs.
       Ret (Inr \<lparr>LocalhostIPPort = [], numChunks = ssg_NumChunks ssg, redundancy = ssg_Redundancy ssg,
         servers = zip (map fst (ssg_Servers ssg)) [0..<length (ssg_Servers ssg)], sg_chunks = cs, sg_noDelay = False,
         objs = map (\<lambda>(a, phy). new_VirtualServer phy False) (ssg_Servers ssg)\<rparr>)))"

text \<open>\<open>dial\<close> is the outcome of the connection to the server that is asked, \<open>r\<close> its answer.\<close>

definition sg_Assoc :: "dialer \<Rightarrow> (bytes \<Rightarrow> string + serializableServerGroup) \<Rightarrow> result \<Rightarrow> string \<Rightarrow> string \<Rightarrow> (string + serverGroup) go" where
  "sg_Assoc dial jd r addr local = (case dial addr of
     Some e \<Rightarrow> Ret (Inl e)
   | None \<Rightarrow> (case r_Err r of
       Some e \<Rightarrow> Ret (Inl e)
     | None \<Rightarrow> bindG (UnmarhalServerGroup jd (r_Value r)) (\<lambda>x. case x of
         Inl e \<Rightarrow> Ret (Inl e)
       | Inr sg \<Rightarrow> Ret (Inr (sg\<lparr>LocalhostIPPort := local\<rparr>)))))"

section \<open>Getters\<close>

definition NumServers :: "serverGroup \<Rightarrow> nat" where
  "NumServers sg = length (servers sg)"

definition NumHolders :: "serverGroup \<Rightarrow> int \<Rightarrow> nat go" where
  "NumHolders sg cid = bindG (index_int (sg_chunks sg) cid) (\<lambda>c. Ret (length (holders c)))"

definition Servers :: "serverGroup \<Rightarrow> nat list" where
  "Servers sg = map snd (servers sg)"

text \<open>The result is an array of eight pointers, filled by index.\<close>

fun fill_holders :: "nat list \<Rightarrow> nat \<Rightarrow> nat option list \<Rightarrow> nat option list go" where
  "fill_holders [] i arr = Ret arr"
| "fill_holders (h # hs) i arr = bindG (store_at arr i (Some h)) (\<lambda>arr'. fill_holders hs (i + 1) arr')"

definition GetChunkHolders :: "serverGroup \<Rightarrow> int \<Rightarrow> nat option list go" where
  "GetChunkHolders sg cid = bindG (index_int (sg_chunks sg) cid) (\<lambda>c. fill_holders (holders c) 0 (replicate 8 None))"

text \<open>\<open>rnd n\<close> is the number that \<open>rand.Intn(n)\<close> draws.\<close>

definition GetAnyHolder :: "(nat \<Rightarrow> nat) \<Rightarrow> serverGroup \<Rightarrow> int \<Rightarrow> nat option go" where
  "GetAnyHolder rnd sg cid = bindG (index_int (sg_chunks sg) cid) (\<lambda>c.
     if length (holders c) < 1 then Ret None
     else bindG (index_of (holders c) (rnd (length (holders c)))) (\<lambda>h. Ret (Some h)))"

definition KnownServers :: "serverGroup \<Rightarrow> string list" where
  "KnownServers sg = map fst (servers sg)"

definition GetServerChunks :: "serverGroup \<Rightarrow> string \<Rightarrow> amAliveChunk list" where
  "GetServerChunks sg addr = (case map_of (servers sg) addr of None \<Rightarrow> [] | Some p \<Rightarrow> heldChunks (objs sg ! p))"

definition IsServerOnGroup :: "serverGroup \<Rightarrow> string \<Rightarrow> bool" where
  "IsServerOnGroup sg addr = (map_of (servers sg) addr \<noteq> None)"

section \<open>Setters\<close>

text \<open>\<open>sg.chunks[cid].removeHolder(s)\<close>, and the addition of a holder that is not there yet.\<close>

definition drop_holder :: "nat \<Rightarrow> int \<Rightarrow> virtualChunk list \<Rightarrow> virtualChunk list go" where
  "drop_holder p cid ks = bindG (index_int ks cid) (\<lambda>k. Ret (ks[nat cid := removeHolder k p]))"

definition ensure_holder :: "nat \<Rightarrow> int \<Rightarrow> virtualChunk list \<Rightarrow> virtualChunk list go" where
  "ensure_holder p cid ks = bindG (index_int ks cid) (\<lambda>k.
     Ret (if \<not> hasHolder k p then ks[nat cid := addHolder k p] else ks))"

definition SetServerChunks :: "serverGroup \<Rightarrow> string \<Rightarrow> amAliveChunk list \<Rightarrow> time \<Rightarrow> serverGroup go" where
  "SetServerChunks sg addr cids now = (case map_of (servers sg) addr of
     None \<Rightarrow> Ret sg
   | Some p \<Rightarrow>
       bindG (foldG (\<lambda>c ks. if list_ex (\<lambda>d. chunk_ID d = chunk_ID c) cids then Ret ks else drop_holder p (chunk_ID c) ks)
                (heldChunks (objs sg ! p)) (sg_chunks sg)) (\<lambda>ks1.
       bindG (foldG (\<lambda>d ks. ensure_holder p (chunk_ID d) ks) cids ks1) (\<lambda>ks2.
       Ret (on_server (\<lambda>s. s\<lparr>dead := False, heldChunks := cids, lastHeartbeat := now\<rparr>) p (sg\<lparr>sg_chunks := ks2\<rparr>)))))"

definition ServerAlive :: "serverGroup \<Rightarrow> string \<Rightarrow> time \<Rightarrow> serverGroup" where
  "ServerAlive sg addr now = (case map_of (servers sg) addr of
     None \<Rightarrow> sg
   | Some p \<Rightarrow> on_server (\<lambda>s. s\<lparr>dead := False, lastHeartbeat := now\<rparr>) p sg)"

definition AddServerToGroup :: "serverGroup \<Rightarrow> string \<Rightarrow> (string + nat) \<times> serverGroup" where
  "AddServerToGroup sg addr = (case map_of (servers sg) addr of
     None \<Rightarrow> (let p = length (objs sg) in
       (Inr p, sg\<lparr>servers := servers sg @ [(addr, p)], objs := objs sg @ [new_VirtualServer addr (sg_noDelay sg)]\<rparr>))
   | Some _ \<Rightarrow> (Inl ''Server already known'', sg))"

definition RemoveServer :: "serverGroup \<Rightarrow> string \<Rightarrow> (err \<times> serverGroup) go" where
  "RemoveServer sg addr = (case map_of (servers sg) addr of
     None \<Rightarrow> Ret (Some ''Server not known'', sg)
   | Some p \<Rightarrow>
       bindG (foldG (\<lambda>c ks. drop_holder p (chunk_ID c) ks) (heldChunks (objs sg ! p)) (sg_chunks sg)) (\<lambda>ks.
       Ret (None, on_server freeConn p (sg\<lparr>servers := filter (\<lambda>e. fst e \<noteq> addr) (servers sg), sg_chunks := ks\<rparr>))))"

definition DeadServer :: "serverGroup \<Rightarrow> string \<Rightarrow> (err \<times> serverGroup) go" where
  "DeadServer sg addr = (case map_of (servers sg) addr of
     None \<Rightarrow> Ret (Some ''Server not known'', sg)
   | Some p \<Rightarrow>
       bindG (foldG (\<lambda>c ks. drop_holder p (chunk_ID c) ks) (heldChunks (objs sg ! p)) (sg_chunks sg)) (\<lambda>ks.
       Ret (None, on_server (\<lambda>s. freeConn (s\<lparr>dead := True, heldChunks := []\<rparr>)) p (sg\<lparr>sg_chunks := ks\<rparr>))))"

text \<open>\<open>h.getChunk(cid).Checksum\<close> on a holder.\<close>

definition holder_sum :: "serverGroup \<Rightarrow> int \<Rightarrow> nat \<Rightarrow> u64 go" where
  "holder_sum sg cid h = (case getChunk (objs sg ! h) cid of None \<Rightarrow> Panic NilPointer | Some c \<Rightarrow> Ret (chunk_Checksum c))"

fun same_sums :: "serverGroup \<Rightarrow> int \<Rightarrow> u64 \<Rightarrow> nat list \<Rightarrow> bool go" where
  "same_sums sg cid s0 [] = Ret True"
| "same_sums sg cid s0 (h # hs) = bindG (holder_sum sg cid h) (\<lambda>sum2.
     if s0 \<noteq> sum2 then Ret False else same_sums sg cid s0 hs)"

definition IsSynched :: "serverGroup \<Rightarrow> int \<Rightarrow> bool go" where
  "IsSynched sg cid = bindG (index_int (sg_chunks sg) cid) (\<lambda>c.
     case holders c of
       h # h2 # hs \<Rightarrow> bindG (holder_sum sg cid h) (\<lambda>s0. same_sums sg cid s0 (h2 # hs))
     | _ \<Rightarrow> Ret True)"

definition UnSynchedChunks :: "serverGroup \<Rightarrow> nat list go" where
  "UnSynchedChunks sg = foldG (\<lambda>i l. bindG (IsSynched sg (int i)) (\<lambda>ok. Ret (if \<not> ok then l @ [i] else l)))
     [0..<length (sg_chunks sg)] []"

definition sg_SetNoDelay :: "dialer \<Rightarrow> serverGroup \<Rightarrow> serverGroup" where
  "sg_SetNoDelay dial sg = fold (\<lambda>(a, p). on_server (\<lambda>s. snd (vs_SetNoDelay dial (s\<lparr>vs_noDelay := True\<rparr>))) p)
     (servers sg) (sg\<lparr>sg_noDelay := True\<rparr>)"

definition sg_SetBuffered :: "dialer \<Rightarrow> serverGroup \<Rightarrow> serverGroup" where
  "sg_SetBuffered dial sg = fold (\<lambda>(a, p). on_server (\<lambda>s. snd (vs_SetBuffered dial (s\<lparr>vs_noDelay := False\<rparr>))) p)
     (servers sg) (sg\<lparr>sg_noDelay := False\<rparr>)"

section \<open>Runs and invariant\<close>

text \<open>The operations that change the group, as the heartbeats and the requests of other servers cause them.\<close>

datatype sg_op = GSetChunks string "amAliveChunk list" time | GAlive string time | GAdd string | GRemove string
  | GDead string | GNoDelay | GBuffered | GStop

definition do_sg :: "dialer \<Rightarrow> sg_op \<Rightarrow> serverGroup \<Rightarrow> serverGroup go" where
  "do_sg dial x sg = (case x of
     GSetChunks addr cids now \<Rightarrow> SetServerChunks sg addr cids now
   | GAlive addr now \<Rightarrow> Ret (ServerAlive sg addr now)
   | GAdd addr \<Rightarrow> Ret (snd (AddServerToGroup sg addr))
   | GRemove addr \<Rightarrow> bindG (RemoveServer sg addr) (\<lambda>(e, sg'). Ret sg')
   | GDead addr \<Rightarrow> bindG (DeadServer sg addr) (\<lambda>(e, sg'). Ret sg')
   | GNoDelay \<Rightarrow> Ret (sg_SetNoDelay dial sg)
   | GBuffered \<Rightarrow> Ret (sg_SetBuffered dial sg)
   | GStop \<Rightarrow> Ret (sg_Stop sg))"

text \<open>The chunks that a heartbeat announces exist.\<close>

definition ids_ok :: "int \<Rightarrow> amAliveChunk list \<Rightarrow> bool" where
  "ids_ok n cids = list_all (\<lambda>c. 0 \<le> chunk_ID c \<and> chunk_ID c < n) cids"

fun sg_op_ok :: "int \<Rightarrow> sg_op \<Rightarrow> bool" where
  "sg_op_ok n (GSetChunks addr cids now) = ids_ok n cids"
| "sg_op_ok n _ = True"

text \<open>
  \<open>holders_ok\<close>: the holders of chunk \<open>i\<close> are, without duplicates, the servers \<open>p\<close> with \<open>H i p\<close>.
  \<open>sg_inv\<close>: the addresses of the map are different and lead to different objects with that
  address, and the two views of who holds what agree.
\<close>

definition holders_ok :: "virtualChunk list \<Rightarrow> (int \<Rightarrow> nat \<Rightarrow> bool) \<Rightarrow> bool" where
  "holders_ok ks H \<longleftrightarrow> (\<forall>i<length ks. vc_id (ks ! i) = int i \<and> distinct (holders (ks ! i))
     \<and> set (holders (ks ! i)) = {p. H (int i) p})"

definition sg_holds :: "serverGroup \<Rightarrow> int \<Rightarrow> nat \<Rightarrow> bool" where
  "sg_holds sg i p \<longleftrightarrow> p \<in> snd ` set (servers sg) \<and> i \<in> chunk_ID ` set (heldChunks (objs sg ! p))"

definition sg_inv :: "serverGroup \<Rightarrow> bool" where
  "sg_inv sg \<longleftrightarrow> distinct (map fst (servers sg)) \<and> distinct (map snd (servers sg))
     \<and> (\<forall>(a, p)\<in>set (servers sg). p < length (objs sg) \<and> Phy (objs sg ! p) = a
          \<and> ids_ok (numChunks sg) (heldChunks (objs sg ! p)))
     \<and> int (length (sg_chunks sg)) = numChunks sg \<and> holders_ok (sg_chunks sg) (sg_holds sg)"

section \<open>Lemmas: holders\<close>

lemma index_int_Ret [simp]: "0 \<le> i \<Longrightarrow> i < int (length xs) \<Longrightarrow> index_int xs i = Ret (xs ! nat i)"
  by (simp add: index_int_def nat_less_iff)

lemma holders_ok_update:
  assumes "holders_ok ks H" and "i < length ks" and "vc_id k = int i" and "distinct (holders k)"
    and "set (holders k) = {p. H' (int i) p}" and "\<And>j p. j \<noteq> int i \<Longrightarrow> H' j p = H j p"
  shows "holders_ok (ks[i := k]) H'"
  using assms by (auto simp: holders_ok_def nth_list_update)

lemma drop_holder_ok:
  assumes ok: "holders_ok ks H" and i: "0 \<le> i" "i < int (length ks)"
  shows "\<exists>ks'. drop_holder p i ks = Ret ks' \<and> length ks' = length ks \<and> holders_ok ks' (\<lambda>j q. H j q \<and> (j = i \<longrightarrow> q \<noteq> p))"
proof -
  let ?k = "ks ! nat i"
  have n: "nat i < length ks" "int (nat i) = i" using i by auto
  then have k: "vc_id ?k = int (nat i)" "distinct (holders ?k)" "set (holders ?k) = {q. H i q}"
    using ok by (auto simp: holders_ok_def)
  have "holders_ok (ks[nat i := removeHolder ?k p]) (\<lambda>j q. H j q \<and> (j = i \<longrightarrow> q \<noteq> p))"
    using k n removeHolder_set [OF k(2), of p] by (intro holders_ok_update [OF ok]) auto
  then show ?thesis using i by (simp add: drop_holder_def)
qed

lemma ensure_holder_ok:
  assumes ok: "holders_ok ks H" and i: "0 \<le> i" "i < int (length ks)"
  shows "\<exists>ks'. ensure_holder p i ks = Ret ks' \<and> length ks' = length ks \<and> holders_ok ks' (\<lambda>j q. H j q \<or> j = i \<and> q = p)"
proof -
  let ?k = "ks ! nat i"
  have n: "nat i < length ks" "int (nat i) = i" using i by auto
  then have k: "vc_id ?k = int (nat i)" "distinct (holders ?k)" "set (holders ?k) = {q. H i q}"
    using ok by (auto simp: holders_ok_def)
  show ?thesis
  proof (cases "H i p")
    case True
    then have "(\<lambda>j q. H j q \<or> j = i \<and> q = p) = H" by auto
    then show ?thesis using True k i ok by (simp add: ensure_holder_def)
  next
    case False
    then have "holders_ok (ks[nat i := addHolder ?k p]) (\<lambda>j q. H j q \<or> j = i \<and> q = p)"
      using k n by (intro holders_ok_update [OF ok]) auto
    then show ?thesis using False k i by (simp add: ensure_holder_def)
  qed
qed

lemma drops_ok:
  assumes "holders_ok ks H" and "ids_ok (int (length ks)) (filter P cs)"
  shows "\<exists>ks'. foldG (\<lambda>c ks. if \<not> P c then Ret ks else drop_holder p (chunk_ID c) ks) cs ks = Ret ks'
    \<and> length ks' = length ks \<and> holders_ok ks' (\<lambda>j q. H j q \<and> (q = p \<longrightarrow> j \<notin> chunk_ID ` set (filter P cs)))"
  using assms
proof (induction cs arbitrary: ks H)
  case (Cons c cs)
  show ?case
  proof (cases "P c")
    case False
    then show ?thesis using Cons by simp
  next
    case True
    then have "0 \<le> chunk_ID c" "chunk_ID c < int (length ks)" using Cons.prems(2) by (simp_all add: ids_ok_def)
    from drop_holder_ok [OF Cons.prems(1) this] obtain ks1 where ks1: "drop_holder p (chunk_ID c) ks = Ret ks1"
      "length ks1 = length ks" "holders_ok ks1 (\<lambda>j q. H j q \<and> (j = chunk_ID c \<longrightarrow> q \<noteq> p))" by blast
    have "ids_ok (int (length ks1)) (filter P cs)" using Cons.prems(2) True ks1(2) by (simp add: ids_ok_def)
    from Cons.IH [OF ks1(3) this] obtain ks2 where
      "foldG (\<lambda>c ks. if \<not> P c then Ret ks else drop_holder p (chunk_ID c) ks) cs ks1 = Ret ks2" "length ks2 = length ks1"
      and h: "holders_ok ks2 (\<lambda>j q. (H j q \<and> (j = chunk_ID c \<longrightarrow> q \<noteq> p)) \<and> (q = p \<longrightarrow> j \<notin> chunk_ID ` set (filter P cs)))" by blast
    moreover have "(\<lambda>j q. (H j q \<and> (j = chunk_ID c \<longrightarrow> q \<noteq> p)) \<and> (q = p \<longrightarrow> j \<notin> chunk_ID ` set (filter P cs)))
      = (\<lambda>j q. H j q \<and> (q = p \<longrightarrow> j \<notin> chunk_ID ` set (filter P (c # cs))))" using True by auto
    ultimately show ?thesis using ks1(1,2) True by simp
  qed
qed simp

lemma ensures_ok:
  assumes "holders_ok ks H" and "ids_ok (int (length ks)) cs"
  shows "\<exists>ks'. foldG (\<lambda>d ks. ensure_holder p (chunk_ID d) ks) cs ks = Ret ks'
    \<and> length ks' = length ks \<and> holders_ok ks' (\<lambda>j q. H j q \<or> q = p \<and> j \<in> chunk_ID ` set cs)"
  using assms
proof (induction cs arbitrary: ks H)
  case (Cons c cs)
  then have "0 \<le> chunk_ID c" "chunk_ID c < int (length ks)" by (simp_all add: ids_ok_def)
  from ensure_holder_ok [OF Cons.prems(1) this] obtain ks1 where ks1: "ensure_holder p (chunk_ID c) ks = Ret ks1"
    "length ks1 = length ks" "holders_ok ks1 (\<lambda>j q. H j q \<or> j = chunk_ID c \<and> q = p)" by blast
  have "ids_ok (int (length ks1)) cs" using Cons.prems(2) ks1(2) by (simp add: ids_ok_def)
  from Cons.IH [OF ks1(3) this] obtain ks2 where
    "foldG (\<lambda>d ks. ensure_holder p (chunk_ID d) ks) cs ks1 = Ret ks2" "length ks2 = length ks1"
    "holders_ok ks2 (\<lambda>j q. (H j q \<or> j = chunk_ID c \<and> q = p) \<or> q = p \<and> j \<in> chunk_ID ` set cs)" by blast
  moreover have "(\<lambda>j q. (H j q \<or> j = chunk_ID c \<and> q = p) \<or> q = p \<and> j \<in> chunk_ID ` set cs)
    = (\<lambda>j q. H j q \<or> q = p \<and> j \<in> chunk_ID ` set (c # cs))" by auto
  ultimately show ?case using ks1(1,2) by simp
qed simp

section \<open>Lemmas: the operations keep the invariant\<close>

lemma on_server_sel [simp]:
  "servers (on_server f p sg) = servers sg" "sg_chunks (on_server f p sg) = sg_chunks sg"
  "numChunks (on_server f p sg) = numChunks sg" "length (objs (on_server f p sg)) = length (objs sg)"
  "redundancy (on_server f p sg) = redundancy sg" "LocalhostIPPort (on_server f p sg) = LocalhostIPPort sg"
  by (simp_all add: on_server_def)

lemma on_server_obj:
  "p < length (objs sg) \<Longrightarrow> objs (on_server f p sg) ! q = (if q = p then f (objs sg ! p) else objs sg ! q)"
  by (simp add: on_server_def)

lemma sg_server:
  assumes "sg_inv sg" and "(a, p) \<in> set (servers sg)"
  shows "p < length (objs sg)" and "Phy (objs sg ! p) = a" and "ids_ok (int (length (sg_chunks sg))) (heldChunks (objs sg ! p))"
  using assms by (auto simp: sg_inv_def)

lemma sg_invD:
  assumes "sg_inv sg" and "map_of (servers sg) a = Some p"
  shows "p < length (objs sg)" and "Phy (objs sg ! p) = a" and "ids_ok (int (length (sg_chunks sg))) (heldChunks (objs sg ! p))"
    and "p \<in> snd ` set (servers sg)" and "holders_ok (sg_chunks sg) (sg_holds sg)"
proof -
  note mem = map_of_SomeD [OF assms(2)]
  show "p < length (objs sg)" "Phy (objs sg ! p) = a" "ids_ok (int (length (sg_chunks sg))) (heldChunks (objs sg ! p))"
    by (rule sg_server [OF assms(1) mem])+
  show "p \<in> snd ` set (servers sg)" using mem by force
  show "holders_ok (sg_chunks sg) (sg_holds sg)" using assms(1) by (simp add: sg_inv_def)
qed

text \<open>A server appears under one address only.\<close>

lemma sg_inv_unique:
  assumes "sg_inv sg" and "(a, p) \<in> set (servers sg)" and "(b, p) \<in> set (servers sg)"
  shows "a = b"
  using sg_server(2) [OF assms(1,2)] sg_server(2) [OF assms(1,3)] by simp

lemma sg_inv_frame:
  assumes inv: "sg_inv sg" and eq: "servers sg' = servers sg" "numChunks sg' = numChunks sg" "sg_chunks sg' = sg_chunks sg"
    "length (objs sg') = length (objs sg)"
    and obj: "\<And>p. p < length (objs sg) \<Longrightarrow> Phy (objs sg' ! p) = Phy (objs sg ! p) \<and> heldChunks (objs sg' ! p) = heldChunks (objs sg ! p)"
  shows "sg_inv sg'"
proof -
  have same: "Phy (objs sg' ! p) = Phy (objs sg ! p)" "heldChunks (objs sg' ! p) = heldChunks (objs sg ! p)"
    if "(a, p) \<in> set (servers sg)" for a p
    using obj [OF sg_server(1) [OF inv that]] by simp_all
  have "sg_holds sg' i p = sg_holds sg i p" for i p
    using same(2) by (auto simp: sg_holds_def eq)
  then have "sg_holds sg' = sg_holds sg" by (simp add: fun_eq_iff)
  then show ?thesis using inv same by (auto simp: sg_inv_def eq)
qed

lemma on_server_inv:
  assumes "sg_inv sg" and "\<And>s. Phy (f s) = Phy s \<and> heldChunks (f s) = heldChunks s"
  shows "sg_inv (on_server f p sg)"
proof (rule sg_inv_frame [OF assms(1)])
  fix q assume "q < length (objs sg)"
  then show "Phy (objs (on_server f p sg) ! q) = Phy (objs sg ! q) \<and> heldChunks (objs (on_server f p sg) ! q) = heldChunks (objs sg ! q)"
    using assms(2) by (cases "q = p") (simp_all add: on_server_def)
qed simp_all

lemma on_servers_inv:
  assumes "\<And>s. Phy (f s) = Phy s \<and> heldChunks (f s) = heldChunks s"
  shows "sg_inv sg \<Longrightarrow> sg_inv (fold (\<lambda>(a, p). on_server f p) xs sg)"
proof (induction xs arbitrary: sg)
  case (Cons x xs)
  have "sg_inv (on_server f (snd x) sg)" by (rule on_server_inv [OF Cons.prems assms])
  then show ?case using Cons.IH by (cases x) simp
qed simp

text \<open>Replacing the holders of one server in both views.\<close>

lemma sg_inv_replace:
  assumes inv: "sg_inv sg" and p: "map_of (servers sg) a = Some p" and len: "length ks = length (sg_chunks sg)"
    and f: "Phy (f (objs sg ! p)) = a" "ids_ok (int (length ks)) (heldChunks (f (objs sg ! p)))"
    and ks: "holders_ok ks (\<lambda>j q. if q = p then j \<in> chunk_ID ` set (heldChunks (f (objs sg ! p))) else sg_holds sg j q)"
  shows "sg_inv (on_server f p (sg\<lparr>sg_chunks := ks\<rparr>))"
proof -
  let ?sg = "on_server f p (sg\<lparr>sg_chunks := ks\<rparr>)"
  note D = sg_invD [OF inv p]
  have o: "objs ?sg ! q = (if q = p then f (objs sg ! p) else objs sg ! q)" for q
    using on_server_obj [of p "sg\<lparr>sg_chunks := ks\<rparr>" f q] D(1) by simp
  have "sg_holds ?sg j q = (if q = p then j \<in> chunk_ID ` set (heldChunks (f (objs sg ! p))) else sg_holds sg j q)" for j q
    using D(4) by (simp add: sg_holds_def o)
  then have "holders_ok ks (sg_holds ?sg)" using ks by (simp add: holders_ok_def)
  moreover have "b = a" if "(b, p) \<in> set (servers sg)" for b
    using sg_inv_unique [OF inv that map_of_SomeD [OF p]] .
  ultimately show ?thesis using inv len f D(1) by (auto simp: sg_inv_def o)
qed

lemma SetServerChunks_inv:
  assumes inv: "sg_inv sg" and ids: "ids_ok (numChunks sg) cids"
  shows "\<exists>sg'. SetServerChunks sg a cids now = Ret sg' \<and> sg_inv sg' \<and> numChunks sg' = numChunks sg"
proof (cases "map_of (servers sg) a")
  case None
  then show ?thesis using inv by (simp add: SetServerChunks_def)
next
  case (Some p)
  note D = sg_invD [OF inv Some]
  let ?held = "heldChunks (objs sg ! p)" and ?P = "\<lambda>c. \<not> list_ex (\<lambda>d. chunk_ID d = chunk_ID c) cids"
  have "ids_ok (int (length (sg_chunks sg))) (filter ?P ?held)" using D(3) by (auto simp: ids_ok_def list_all_iff)
  from drops_ok [OF D(5) this, of p] obtain ks1 where
    ks1: "foldG (\<lambda>c ks. if \<not> ?P c then Ret ks else drop_holder p (chunk_ID c) ks) ?held (sg_chunks sg) = Ret ks1"
    "length ks1 = length (sg_chunks sg)"
    "holders_ok ks1 (\<lambda>j q. sg_holds sg j q \<and> (q = p \<longrightarrow> j \<notin> chunk_ID ` set (filter ?P ?held)))" by blast
  have ids': "ids_ok (int (length ks1)) cids" using ids inv ks1(2) by (simp add: sg_inv_def)
  from ensures_ok [OF ks1(3) this, of p] obtain ks2 where
    ks2: "foldG (\<lambda>d ks. ensure_holder p (chunk_ID d) ks) cids ks1 = Ret ks2" "length ks2 = length ks1"
    "holders_ok ks2 (\<lambda>j q. (sg_holds sg j q \<and> (q = p \<longrightarrow> j \<notin> chunk_ID ` set (filter ?P ?held)))
       \<or> q = p \<and> j \<in> chunk_ID ` set cids)" by blast
  let ?f = "\<lambda>s. s\<lparr>dead := False, heldChunks := cids, lastHeartbeat := now\<rparr>"
  have "(\<lambda>j q. (sg_holds sg j q \<and> (q = p \<longrightarrow> j \<notin> chunk_ID ` set (filter ?P ?held))) \<or> q = p \<and> j \<in> chunk_ID ` set cids)
    = (\<lambda>j q. if q = p then j \<in> chunk_ID ` set (heldChunks (?f (objs sg ! p))) else sg_holds sg j q)"
    using D(4) by (intro ext) (auto simp: sg_holds_def list_ex_iff image_iff, metis)
  then have "sg_inv (on_server ?f p (sg\<lparr>sg_chunks := ks2\<rparr>))"
    using ks1(2) ks2(2,3) ids' D(2) by (intro sg_inv_replace [OF inv Some]) simp_all
  then show ?thesis using Some ks1(1) ks2(1) by (simp add: SetServerChunks_def)
qed

text \<open>What \<open>RemoveServer\<close> and \<open>DeadServer\<close> do to the holders.\<close>

lemma forget_holder:
  assumes inv: "sg_inv sg" and p: "map_of (servers sg) a = Some p"
  obtains ks where "foldG (\<lambda>c ks. drop_holder p (chunk_ID c) ks) (heldChunks (objs sg ! p)) (sg_chunks sg) = Ret ks"
    and "length ks = length (sg_chunks sg)" and "holders_ok ks (\<lambda>j q. q \<noteq> p \<and> sg_holds sg j q)"
proof -
  note D = sg_invD [OF inv p]
  have "(\<lambda>j q. sg_holds sg j q \<and> (q = p \<longrightarrow> j \<notin> chunk_ID ` set (heldChunks (objs sg ! p)))) = (\<lambda>j q. q \<noteq> p \<and> sg_holds sg j q)"
    by (auto simp: fun_eq_iff sg_holds_def)
  then show thesis using drops_ok [OF D(5), of "\<lambda>_. True" "heldChunks (objs sg ! p)" p] D(3) that by auto
qed

lemma DeadServer_inv:
  assumes inv: "sg_inv sg"
  shows "\<exists>e sg'. DeadServer sg a = Ret (e, sg') \<and> sg_inv sg' \<and> numChunks sg' = numChunks sg"
proof (cases "map_of (servers sg) a")
  case None
  then show ?thesis using inv by (simp add: DeadServer_def)
next
  case (Some p)
  let ?f = "\<lambda>s. freeConn (s\<lparr>dead := True, heldChunks := []\<rparr>)"
  obtain ks where ks: "foldG (\<lambda>c ks. drop_holder p (chunk_ID c) ks) (heldChunks (objs sg ! p)) (sg_chunks sg) = Ret ks"
    "length ks = length (sg_chunks sg)" "holders_ok ks (\<lambda>j q. q \<noteq> p \<and> sg_holds sg j q)"
    using inv Some by (rule forget_holder)
  have "(\<lambda>j q. q \<noteq> p \<and> sg_holds sg j q)
    = (\<lambda>j q. if q = p then j \<in> chunk_ID ` set (heldChunks (?f (objs sg ! p))) else sg_holds sg j q)" by (auto simp: fun_eq_iff)
  then have "sg_inv (on_server ?f p (sg\<lparr>sg_chunks := ks\<rparr>))"
    using ks sg_invD(2) [OF inv Some] by (intro sg_inv_replace [OF inv Some]) (simp_all add: ids_ok_def)
  then show ?thesis using Some ks(1) by (simp add: DeadServer_def)
qed

lemma RemoveServer_inv:
  assumes inv: "sg_inv sg"
  shows "\<exists>e sg'. RemoveServer sg a = Ret (e, sg') \<and> sg_inv sg' \<and> numChunks sg' = numChunks sg"
proof (cases "map_of (servers sg) a")
  case None
  then show ?thesis using inv by (simp add: RemoveServer_def)
next
  case (Some p)
  obtain ks where ks: "foldG (\<lambda>c ks. drop_holder p (chunk_ID c) ks) (heldChunks (objs sg ! p)) (sg_chunks sg) = Ret ks"
    "length ks = length (sg_chunks sg)" "holders_ok ks (\<lambda>j q. q \<noteq> p \<and> sg_holds sg j q)"
    using inv Some by (rule forget_holder)
  let ?sv = "filter (\<lambda>e. fst e \<noteq> a) (servers sg)" and ?sg = "sg\<lparr>servers := filter (\<lambda>e. fst e \<noteq> a) (servers sg), sg_chunks := ks\<rparr>"
  have d: "distinct (map fst (servers sg))" using inv by (simp add: sg_inv_def)
  have "e \<in> set ?sv \<longleftrightarrow> e \<in> set (servers sg) \<and> snd e \<noteq> p" for e
  proof (cases "e \<in> set (servers sg)")
    case True
    then have "fst e = a \<longleftrightarrow> snd e = p"
      using sg_inv_unique [OF inv _ map_of_SomeD [OF Some], of "fst e"] map_of_is_SomeI [OF d, of "fst e" "snd e"] Some
      by (metis option.inject prod.collapse)
    then show ?thesis using True by simp
  qed simp
  then have "set ?sv = {e \<in> set (servers sg). snd e \<noteq> p}" by blast
  then have "snd ` set ?sv = snd ` set (servers sg) - {p}" by (simp only:) auto
  then have "sg_holds ?sg j q = (q \<noteq> p \<and> sg_holds sg j q)" for j q unfolding sg_holds_def by auto
  then have "sg_holds ?sg = (\<lambda>j q. q \<noteq> p \<and> sg_holds sg j q)" by (intro ext)
  then have "sg_inv ?sg" using inv ks(2,3) unfolding sg_inv_def by (simp add: distinct_map_filter)
  then have "sg_inv (on_server freeConn p ?sg)" by (rule on_server_inv) simp
  then show ?thesis using Some ks(1) by (simp add: RemoveServer_def)
qed

lemma AddServerToGroup_inv:
  assumes inv: "sg_inv sg"
  shows "sg_inv (snd (AddServerToGroup sg a))"
proof (cases "map_of (servers sg) a")
  case None
  let ?n = "length (objs sg)" and ?sg = "snd (AddServerToGroup sg a)"
  have b: "p < ?n" if "p \<in> snd ` set (servers sg)" for p using inv that by (auto simp: sg_inv_def)
  have sg: "?sg = sg\<lparr>servers := servers sg @ [(a, ?n)], objs := objs sg @ [new_VirtualServer a (sg_noDelay sg)]\<rparr>"
    using None by (simp add: AddServerToGroup_def Let_def)
  have o: "objs ?sg ! q = (if q < ?n then objs sg ! q else new_VirtualServer a (sg_noDelay sg))" if "q \<le> ?n" for q
    using that by (simp add: sg nth_append)
  have "sg_holds ?sg = sg_holds sg"
    using b by (auto simp: sg_holds_def fun_eq_iff sg nth_append new_VirtualServer_def)
  moreover have "a \<notin> fst ` set (servers sg)" using None by (simp add: map_of_eq_None_iff)
  moreover have "?n \<notin> snd ` set (servers sg)" using b by blast
  ultimately show ?thesis
    using inv by (auto simp: sg_inv_def sg nth_append new_VirtualServer_def ids_ok_def)
qed (use inv in \<open>simp add: AddServerToGroup_def\<close>)

lemma vs_set_frame:
  "Phy (snd (vs_SetNoDelay dial s)) = Phy s \<and> heldChunks (snd (vs_SetNoDelay dial s)) = heldChunks s"
  "Phy (snd (vs_SetBuffered dial s)) = Phy s \<and> heldChunks (snd (vs_SetBuffered dial s)) = heldChunks s"
  by (auto simp: vs_SetNoDelay_def vs_SetBuffered_def split: prod.splits option.splits dest: needConnection_frame)

lemma on_servers_numChunks [simp]:
  "numChunks (fold (\<lambda>(a, p). on_server f p) xs sg) = numChunks sg"
  by (induction xs arbitrary: sg) auto

lemma do_sg_inv:
  assumes inv: "sg_inv sg" and ok: "sg_op_ok (numChunks sg) x"
  shows "\<exists>sg'. do_sg dial x sg = Ret sg' \<and> sg_inv sg' \<and> numChunks sg' = numChunks sg"
proof (cases x)
  case (GSetChunks a cids now)
  then show ?thesis using SetServerChunks_inv [OF inv, of cids a now] ok by (simp add: do_sg_def)
next
  case (GAlive a now)
  have "sg_inv (on_server (\<lambda>s. s\<lparr>dead := False, lastHeartbeat := now\<rparr>) p sg)" for p
    by (rule on_server_inv [OF inv]) simp
  then show ?thesis using GAlive inv by (simp add: do_sg_def ServerAlive_def split: option.splits)
next
  case (GAdd a)
  then show ?thesis using AddServerToGroup_inv [OF inv, of a]
    by (simp add: do_sg_def AddServerToGroup_def Let_def split: option.splits)
next
  case (GRemove a)
  then show ?thesis using RemoveServer_inv [OF inv, of a] by (auto simp: do_sg_def)
next
  case (GDead a)
  then show ?thesis using DeadServer_inv [OF inv, of a] by (auto simp: do_sg_def)
next
  case GNoDelay
  have "sg_inv (sg\<lparr>sg_noDelay := True\<rparr>)" by (rule sg_inv_frame [OF inv]) simp_all
  then show ?thesis using GNoDelay vs_set_frame
    by (simp add: do_sg_def sg_SetNoDelay_def on_servers_inv)
next
  case GBuffered
  have "sg_inv (sg\<lparr>sg_noDelay := False\<rparr>)" by (rule sg_inv_frame [OF inv]) simp_all
  then show ?thesis using GBuffered vs_set_frame
    by (simp add: do_sg_def sg_SetBuffered_def on_servers_inv)
next
  case GStop
  then show ?thesis using inv by (simp add: do_sg_def sg_Stop_def on_servers_inv)
qed

lemma CreateServerGroup_inv:
  "0 \<le> n \<Longrightarrow> \<exists>sg. CreateServerGroup n r a = Ret sg \<and> sg_inv sg \<and> numChunks sg = n"
  by (simp add: CreateServerGroup_def new_chunks_def sg_inv_def holders_ok_def sg_holds_def)

lemma do_sgs_inv:
  assumes "sg_inv sg" and "list_all (sg_op_ok (numChunks sg)) xs"
  shows "\<exists>sg'. foldG (do_sg dial) xs sg = Ret sg' \<and> sg_inv sg' \<and> numChunks sg' = numChunks sg"
  by (rule foldG_inv [where P = "\<lambda>s. sg_inv s \<and> numChunks s = numChunks sg"])
    (use assms do_sg_inv in \<open>auto simp: list_all_iff\<close>, metis)

section \<open>Lemmas: synchronization\<close>

lemma same_sums_eq:
  assumes "\<And>h. h \<in> set hs \<Longrightarrow> holder_sum sg cid h = Ret (f h)"
  shows "same_sums sg cid s0 hs = Ret (\<forall>h\<in>set hs. f h = s0)"
  using assms by (induction hs) auto

lemma holder_sum_Ret:
  assumes "sg_inv sg" and "0 \<le> cid" and "cid < numChunks sg" and "h \<in> set (holders (sg_chunks sg ! nat cid))"
  shows "\<exists>c. getChunk (objs sg ! h) cid = Some c \<and> holder_sum sg cid h = Ret (chunk_Checksum c)"
proof -
  have n: "nat cid < length (sg_chunks sg)" "int (nat cid) = cid" using assms(1-3) by (auto simp: sg_inv_def)
  then have "sg_holds sg cid h" using assms(1,4) by (auto simp: sg_inv_def holders_ok_def)
  then have "getChunk (objs sg ! h) cid \<noteq> None" by (simp add: getChunk_None sg_holds_def)
  then show ?thesis by (auto simp: holder_sum_def)
qed

text \<open>The checksum that a holder announced for a chunk.\<close>

definition sum_of :: "serverGroup \<Rightarrow> int \<Rightarrow> nat \<Rightarrow> u64" where
  "sum_of sg cid h = (case getChunk (objs sg ! h) cid of None \<Rightarrow> 0 | Some c \<Rightarrow> chunk_Checksum c)"

lemma IsSynched_eq:
  assumes inv: "sg_inv sg" and cid: "0 \<le> cid" "cid < numChunks sg"
  shows "IsSynched sg cid = Ret (\<forall>h\<in>set (holders (sg_chunks sg ! nat cid)). \<forall>h'\<in>set (holders (sg_chunks sg ! nat cid)).
    sum_of sg cid h = sum_of sg cid h')"
proof -
  have s: "holder_sum sg cid h = Ret (sum_of sg cid h)" if "h \<in> set (holders (sg_chunks sg ! nat cid))" for h
    using holder_sum_Ret [OF inv cid that] by (auto simp: sum_of_def)
  have i: "index_int (sg_chunks sg) cid = Ret (sg_chunks sg ! nat cid)" using inv cid by (simp add: sg_inv_def)
  show ?thesis
  proof (cases "holders (sg_chunks sg ! nat cid)" rule: remdups_adj.cases)
    case (3 h h2 hs)
    have "same_sums sg cid (sum_of sg cid h) (h2 # hs) = Ret (\<forall>x\<in>set (h2 # hs). sum_of sg cid x = sum_of sg cid h)"
      by (rule same_sums_eq) (use s 3 in simp)
    moreover have "holder_sum sg cid h = Ret (sum_of sg cid h)" using s 3 by simp
    moreover have "(\<forall>x\<in>set (h2 # hs). sum_of sg cid x = sum_of sg cid h)
      \<longleftrightarrow> (\<forall>x\<in>set (h # h2 # hs). \<forall>y\<in>set (h # h2 # hs). sum_of sg cid x = sum_of sg cid y)"
      by (metis list.set_intros(1) set_ConsD list.set_intros(2))
    ultimately show ?thesis using i 3 by (simp add: IsSynched_def)
  qed (use i in \<open>simp_all add: IsSynched_def\<close>)
qed

lemma UnSynchedChunks_eq:
  assumes inv: "sg_inv sg"
  shows "UnSynchedChunks sg = Ret [i \<leftarrow> [0..<nat (numChunks sg)]. IsSynched sg (int i) = Ret False]"
proof -
  have n: "nat (numChunks sg) = length (sg_chunks sg)" using inv by (auto simp: sg_inv_def)
  have "foldG (\<lambda>i l. bindG (IsSynched sg (int i)) (\<lambda>ok. Ret (if \<not> ok then l @ [i] else l))) is l
      = Ret (l @ [i \<leftarrow> is. IsSynched sg (int i) = Ret False])" if "\<forall>i\<in>set is. int i < numChunks sg" for "is" l
    using that
  proof (induction "is" arbitrary: l)
    case (Cons i "is")
    have "\<exists>b. IsSynched sg (int i) = Ret b" using IsSynched_eq [OF inv, of "int i"] Cons.prems by auto
    then show ?case using Cons by auto
  qed simp
  moreover have "\<forall>i\<in>set [0..<length (sg_chunks sg)]. int i < numChunks sg" using n by auto
  ultimately show ?thesis unfolding UnSynchedChunks_def n by simp
qed

section \<open>Properties\<close>

text \<open>
  C33: The two views of a server group agree. After any sequence of additions and removals of
  servers, heartbeats that announce existing chunks, deaths and changes of the connection
  mode, none of which panics, the holders of a chunk are exactly the known servers whose
  announced list has the chunk, each once. So \<open>IsSynched\<close> finds the checksum of every
  holder, and is true exactly when all of them are equal, and \<open>UnSynchedChunks\<close> lists the chunks
  for which it is false.
\<close>

theorem group_views_agree:
  assumes "0 \<le> n" and "list_all (sg_op_ok n) xs"
  shows "\<exists>sg0 sg. CreateServerGroup n r a = Ret sg0 \<and> foldG (do_sg dial) xs sg0 = Ret sg
    \<and> UnSynchedChunks sg = Ret [i \<leftarrow> [0..<nat n]. IsSynched sg (int i) = Ret False]
    \<and> (\<forall>i<nat n. distinct (holders (sg_chunks sg ! i))
        \<and> set (holders (sg_chunks sg ! i)) = {p. \<exists>addr. (addr, p) \<in> set (servers sg) \<and> int i \<in> chunk_ID ` set (heldChunks (objs sg ! p))}
        \<and> IsSynched sg (int i) = Ret (\<forall>h\<in>set (holders (sg_chunks sg ! i)). \<forall>h'\<in>set (holders (sg_chunks sg ! i)).
              sum_of sg (int i) h = sum_of sg (int i) h'))"
proof -
  obtain sg0 where sg0: "CreateServerGroup n r a = Ret sg0" "sg_inv sg0" "numChunks sg0 = n"
    using CreateServerGroup_inv [OF assms(1)] by blast
  obtain sg where sg: "foldG (do_sg dial) xs sg0 = Ret sg" "sg_inv sg" "numChunks sg = n"
    using do_sgs_inv [OF sg0(2)] assms(2) sg0(3) by auto
  have len: "length (sg_chunks sg) = nat n" using sg(2,3) by (auto simp: sg_inv_def)
  have "distinct (holders (sg_chunks sg ! i)) \<and> set (holders (sg_chunks sg ! i)) = {p. sg_holds sg (int i) p}" if "i < nat n" for i
    using sg(2) that len by (auto simp: sg_inv_def holders_ok_def)
  moreover have "sg_holds sg (int i) p \<longleftrightarrow> (\<exists>addr. (addr, p) \<in> set (servers sg) \<and> int i \<in> chunk_ID ` set (heldChunks (objs sg ! p)))" for i p
    by (force simp: sg_holds_def)
  moreover note UnSynchedChunks_eq [OF sg(2)]
  moreover have "IsSynched sg (int i) = Ret (\<forall>h\<in>set (holders (sg_chunks sg ! i)). \<forall>h'\<in>set (holders (sg_chunks sg ! i)).
              sum_of sg (int i) h = sum_of sg (int i) h')" if "i < nat n" for i
    using IsSynched_eq [OF sg(2), of "int i"] that sg(3) by simp
  ultimately show ?thesis using sg0(1) sg(1,3) by (intro exI [of _ sg0] exI [of _ sg]) simp
qed

definition ex_reports :: "sg_op list" where
  "ex_reports = [GAdd ''a'', GAdd ''b'', GSetChunks ''a'' [\<lparr>chunk_ID = 0, chunk_Checksum = 7\<rparr>] 1,
     GSetChunks ''b'' [\<lparr>chunk_ID = 0, chunk_Checksum = 8\<rparr>, \<lparr>chunk_ID = 1, chunk_Checksum = 9\<rparr>] 2, GRemove ''c'']"

theorem group_views_agree_witness:
  "\<exists>sg0 sg. CreateServerGroup 2 1 [] = Ret sg0 \<and> foldG (do_sg (\<lambda>_. None)) ex_reports sg0 = Ret sg
     \<and> (\<forall>i<2. distinct (holders (sg_chunks sg ! i)))"
proof -
  have "list_all (sg_op_ok 2) ex_reports" by (simp add: ex_reports_def ids_ok_def)
  from group_views_agree [OF _ this, of 1 "[]" "\<lambda>_. None"] show ?thesis by auto
qed

text \<open>
  A server that is declared dead is out of the way: it stays in the group and is marked as dead,
  without a connection and without chunks, no chunk has it as a holder any more, and every other
  server keeps what it holds. An unknown address is an error and changes nothing.
\<close>

lemma dead_server_released:
  assumes "sg_inv sg"
  shows "case map_of (servers sg) addr of
     None \<Rightarrow> DeadServer sg addr = Ret (Some ''Server not known'', sg)
   | Some p \<Rightarrow> \<exists>sg'. DeadServer sg addr = Ret (None, sg') \<and> servers sg' = servers sg
       \<and> dead (objs sg' ! p) \<and> link (objs sg' ! p) = None \<and> heldChunks (objs sg' ! p) = []
       \<and> (\<forall>i<length (sg_chunks sg). set (holders (sg_chunks sg' ! i)) = set (holders (sg_chunks sg ! i)) - {p})
       \<and> (\<forall>q. q \<noteq> p \<longrightarrow> objs sg' ! q = objs sg ! q)"
proof (cases "map_of (servers sg) addr")
  case None
  then show ?thesis by (simp add: DeadServer_def)
next
  case (Some p)
  note D = sg_invD [OF assms Some]
  obtain ks where ks: "foldG (\<lambda>c ks. drop_holder p (chunk_ID c) ks) (heldChunks (objs sg ! p)) (sg_chunks sg) = Ret ks"
    "length ks = length (sg_chunks sg)" "holders_ok ks (\<lambda>j q. q \<noteq> p \<and> sg_holds sg j q)"
    using assms Some by (rule forget_holder)
  have "set (holders (ks ! i)) = set (holders (sg_chunks sg ! i)) - {p}" if "i < length (sg_chunks sg)" for i
    using ks(2,3) D(5) that by (auto simp: holders_ok_def)
  then show ?thesis using Some ks(1) D(1) by (simp add: DeadServer_def on_server_def freeConn_def)
qed

lemma fill_holders_eq:
  "fill_holders hs i arr = (if hs = [] \<or> i + length hs \<le> length arr
     then Ret (take i arr @ map Some hs @ drop (i + length hs) arr) else Panic OutOfRange)"
proof (induction hs arbitrary: i arr)
  case (Cons h hs)
  show ?case
  proof (cases "i < length arr")
    case True
    then have "take (Suc i) (arr[i := Some h]) = take i arr @ [Some h]" by (simp add: take_Suc_conv_app_nth)
    then show ?thesis using True by (simp add: store_at_def Cons.IH)
  qed (simp add: store_at_def)
qed simp

text \<open>\<open>GetChunkHolders\<close> panics when a chunk has more than eight holders.\<close>

lemma holders_at_most_eight:
  assumes "sg_inv sg" and "0 \<le> cid" and "cid < numChunks sg" and "holders (sg_chunks sg ! nat cid) = hs"
  shows "GetChunkHolders sg cid = (if length hs \<le> 8 then Ret (map Some hs @ replicate (8 - length hs) None) else Panic OutOfRange)"
  using assms by (auto simp: GetChunkHolders_def fill_holders_eq sg_inv_def)

end
