(* ===== verification/Heartbeat.thy ===== *)
theory Heartbeat
  imports Server_Group "HOL-Library.Stream"
begin

text \<open>
  The heartbeater (src/dist/heartbeat/heartbeat.go): it asks every known server for its chunks
  over UDP, declares a server dead after three unanswered requests, and follows the
  news about servers that the others added or lost. The network is the list of its
  machines and the endless stream of the outcomes of the requests to come.
\<close>

section \<open>State\<close>

text \<open>
  \<open>hb_net\<close> is what the network does with the requests to come, for ever: the instant at which the
  outcome of each is known, and the answer, if there is one. The addresses are those of the machines
  of the network, of which there are finitely many. \<open>hb_now\<close> is the clock.
\<close>

type_synonym udp_net = "string list \<times> (time \<times> amAlive option) stream"

record heartbeater =
  hb_stop :: bool
  hb_timeouts :: "string \<rightharpoonup> nat"
  hb_sg :: serverGroup
  recentlyAdded :: "(string \<times> time) list"
  recentlyDead :: "(string \<times> time) list"
  hb_now :: time
  hb_net :: udp_net

definition hb_new :: "serverGroup \<Rightarrow> time \<Rightarrow> udp_net \<Rightarrow> heartbeater" where
  "hb_new sg now net = \<lparr>hb_stop = False, hb_timeouts = Map.empty, hb_sg = sg, recentlyAdded = [], recentlyDead = [],
     hb_now = now, hb_net = net\<rparr>"

definition hb_Stop :: "heartbeater \<Rightarrow> heartbeater" where
  "hb_Stop h = h\<lparr>hb_stop := True\<rparr>"

section \<open>News\<close>

definition GossipNewsExpirationTime :: time where
  "GossipNewsExpirationTime = 10 * second"

definition cleanNews :: "heartbeater \<Rightarrow> heartbeater" where
  "cleanNews h = (let keep = (\<lambda>(k, v). \<not> v + GossipNewsExpirationTime < hb_now h) in
     h\<lparr>recentlyAdded := filter keep (recentlyAdded h), recentlyDead := filter keep (recentlyDead h)\<rparr>)"

definition news_set :: "string \<Rightarrow> time \<Rightarrow> (string \<times> time) list \<Rightarrow> (string \<times> time) list" where
  "news_set a t l = filter (\<lambda>e. fst e \<noteq> a) l @ [(a, t)]"

definition GossipAdded :: "string \<Rightarrow> heartbeater \<Rightarrow> heartbeater" where
  "GossipAdded addr h = (let h1 = cleanNews h in h1\<lparr>recentlyAdded := news_set addr (hb_now h1) (recentlyAdded h1)\<rparr>)"

definition GossipDead :: "string \<Rightarrow> heartbeater \<Rightarrow> heartbeater" where
  "GossipDead addr h = (let h1 = cleanNews h in h1\<lparr>recentlyDead := news_set addr (hb_now h1) (recentlyDead h1)\<rparr>)"

section \<open>Requests\<close>

text \<open>\<open>com.UDPRequest\<close>: the answer of the server, or nothing before the deadline.\<close>

definition UDPRequest :: "heartbeater \<Rightarrow> amAlive option \<times> heartbeater" where
  "UDPRequest h = (case hb_net h of (names, net) \<Rightarrow>
     case shd net of (t, r) \<Rightarrow> (r, h\<lparr>hb_now := t, hb_net := (names, stl net)\<rparr>))"

definition retries :: "heartbeater \<Rightarrow> string \<Rightarrow> nat" where
  "retries h addr = (case hb_timeouts h addr of None \<Rightarrow> 0 | Some k \<Rightarrow> k)"

definition set_retries :: "string \<Rightarrow> nat option \<Rightarrow> heartbeater \<Rightarrow> heartbeater" where
  "set_retries addr k h = h\<lparr>hb_timeouts := (hb_timeouts h)(addr := k)\<rparr>"

text \<open>A server that answers is added to the group, if it is not there.\<close>

definition hb_learn :: "string \<Rightarrow> heartbeater \<Rightarrow> heartbeater" where
  "hb_learn addr h = (if \<not> IsServerOnGroup (hb_sg h) addr
     then GossipAdded addr (h\<lparr>hb_sg := snd (AddServerToGroup (hb_sg h) addr)\<rparr>) else h)"

text \<open>
  The request calls itself, to retry and to follow news. The fuel is the depth of that recursion; four
  more than the machines of the network are always enough for answers that name only these
  and no dead ones, whatever the number of the answers.
\<close>

fun hb_request :: "nat \<Rightarrow> heartbeater \<Rightarrow> string \<Rightarrow> (bool \<times> heartbeater) go" where
  "hb_request 0 h addr = Loop"
| "hb_request (Suc n) h addr =
     (if addr = LocalhostIPPort (hb_sg h) then Ret (True, h)
      else case UDPRequest h of
        (None, h1) \<Rightarrow>
          (if IsServerOnGroup (hb_sg h1) addr then
             let h2 = set_retries addr (Some (retries h1 addr + 1)) h1 in
             if retries h2 addr \<ge> 3 then
               bindG (DeadServer (hb_sg h2) addr) (\<lambda>(e, sg).
               Ret (False, GossipDead addr ((set_retries addr None h2)\<lparr>hb_sg := sg\<rparr>)))
             else hb_request n h2 addr
           else Ret (False, set_retries addr None h1))
      | (Some aa, h1) \<Rightarrow>
          let h3 = hb_learn addr (set_retries addr None h1) in
          bindG (SetServerChunks (hb_sg h3) addr (KnownChunks aa) (hb_now h3)) (\<lambda>sg.
          bindG (foldG (\<lambda>new h. if IsServerOnGroup (hb_sg h) new then Ret h
                                 else bindG (hb_request n h new) (\<lambda>(ok, h'). Ret h'))
                   (RecentlyAddedServers aa) (h3\<lparr>hb_sg := sg\<rparr>)) (\<lambda>h4.
          bindG (foldG (\<lambda>new h. if \<not> IsServerOnGroup (hb_sg h) new then Ret h
                                 else bindG (hb_request n h new) (\<lambda>(ok, h'). Ret h'))
                   (RecentlyDeadServers aa) h4) (\<lambda>h5.
          Ret (True, h5)))))"

definition hb_fuel :: "heartbeater \<Rightarrow> nat" where
  "hb_fuel h = length (fst (hb_net h)) + 4"

definition request_all :: "string list \<Rightarrow> heartbeater \<Rightarrow> heartbeater go" where
  "request_all as h = foldG (\<lambda>a h. bindG (hb_request (hb_fuel h) h a) (\<lambda>(ok, h'). Ret h')) as h"

text \<open>\<open>Start\<close> asks every server once; then each turn of the background loop asks those known at its beginning.\<close>

definition hb_Start :: "serverGroup \<Rightarrow> time \<Rightarrow> udp_net \<Rightarrow> heartbeater go" where
  "hb_Start sg now net = request_all (map (\<lambda>p. Phy (objs sg ! p)) (Servers sg)) (hb_new sg now net)"

definition hb_round :: "heartbeater \<Rightarrow> heartbeater go" where
  "hb_round h = (if hb_stop h then Ret h
     else request_all (map (\<lambda>p. Phy (objs (hb_sg h) ! p)) (Servers (hb_sg h))) h)"

text \<open>The answer to a heartbeat, with the list of the chunks present.\<close>

definition ListenReply :: "amAliveChunk list \<Rightarrow> heartbeater \<Rightarrow> amAlive \<times> heartbeater" where
  "ListenReply present h = (let h1 = cleanNews (cleanNews h) in
     (\<lparr>KnownChunks = present, RecentlyAddedServers = map fst (recentlyAdded h1),
       RecentlyDeadServers = map fst (recentlyDead h1)\<rparr>, h1))"

section \<open>Lemmas\<close>

text \<open>
  An answer that a request can get from the network: it names chunks of the database and machines of the
  network, and no dead server, since the decoder never finds one in a packet (\<open>dead_servers_lost\<close>).
\<close>

definition answer_ok :: "int \<Rightarrow> string list \<Rightarrow> amAlive \<Rightarrow> bool" where
  "answer_ok n names aa \<longleftrightarrow> ids_ok n (KnownChunks aa) \<and> set (RecentlyAddedServers aa) \<subseteq> set names \<and> RecentlyDeadServers aa = []"

text \<open>What a request keeps: the two views of the group agree, and no known server is forgotten.\<close>

definition hb_ok :: "heartbeater \<Rightarrow> bool" where
  "hb_ok h \<longleftrightarrow> sg_inv (hb_sg h)
     \<and> (\<forall>t aa. (t, Some aa) \<in> sset (snd (hb_net h)) \<longrightarrow> answer_ok (numChunks (hb_sg h)) (fst (hb_net h)) aa)"

definition hb_le :: "heartbeater \<Rightarrow> heartbeater \<Rightarrow> bool" where
  "hb_le h h' \<longleftrightarrow> numChunks (hb_sg h') = numChunks (hb_sg h) \<and> LocalhostIPPort (hb_sg h') = LocalhostIPPort (hb_sg h)
     \<and> fst (hb_net h') = fst (hb_net h) \<and> set (KnownServers (hb_sg h)) \<subseteq> set (KnownServers (hb_sg h'))"

lemma hb_le_refl [simp]: "hb_le h h"
  by (simp add: hb_le_def)

lemma hb_le_trans: "hb_le a b \<Longrightarrow> hb_le b c \<Longrightarrow> hb_le a c"
  by (auto simp: hb_le_def)

lemma IsServerOnGroup_iff: "IsServerOnGroup sg a \<longleftrightarrow> a \<in> set (KnownServers sg)"
  by (simp add: IsServerOnGroup_def KnownServers_def map_of_eq_None_iff)

lemma news_frame [simp]:
  "hb_sg (GossipAdded a h) = hb_sg h" "hb_sg (GossipDead a h) = hb_sg h" "hb_sg (cleanNews h) = hb_sg h"
  "hb_net (GossipAdded a h) = hb_net h" "hb_net (GossipDead a h) = hb_net h" "hb_net (cleanNews h) = hb_net h"
  "hb_timeouts (GossipAdded a h) = hb_timeouts h" "hb_timeouts (GossipDead a h) = hb_timeouts h"
  "hb_timeouts (cleanNews h) = hb_timeouts h"
  by (simp_all add: GossipAdded_def GossipDead_def cleanNews_def Let_def)

lemma retries_frame [simp]:
  "hb_sg (set_retries a k h) = hb_sg h" "hb_net (set_retries a k h) = hb_net h"
  "retries (set_retries a k h) a = (case k of None \<Rightarrow> 0 | Some j \<Rightarrow> j)"
  by (simp_all add: set_retries_def retries_def)

lemma SetServerChunks_frame:
  assumes "SetServerChunks sg a cids now = Ret sg'"
  shows "servers sg' = servers sg" and "LocalhostIPPort sg' = LocalhostIPPort sg"
  using assms by (auto simp: SetServerChunks_def bindG_eq_Ret split: option.splits)

lemma DeadServer_frame:
  assumes "DeadServer sg a = Ret (e, sg')"
  shows "servers sg' = servers sg" and "LocalhostIPPort sg' = LocalhostIPPort sg"
  using assms by (auto simp: DeadServer_def bindG_eq_Ret split: option.splits)

lemma AddServerToGroup_frame:
  "numChunks (snd (AddServerToGroup sg a)) = numChunks sg"
  "LocalhostIPPort (snd (AddServerToGroup sg a)) = LocalhostIPPort sg"
  "set (KnownServers (snd (AddServerToGroup sg a))) = insert a (set (KnownServers sg))"
  by (auto simp: AddServerToGroup_def Let_def KnownServers_def split: option.splits dest!: map_of_SomeD) force

text \<open>The three ways in which a step changes the heartbeater.\<close>

lemma hb_ok_wait:
  assumes "hb_ok h" and "UDPRequest h = (r, h1)"
  shows "hb_ok h1" and "hb_le h h1" and "hb_sg h1 = hb_sg h" and "hb_timeouts h1 = hb_timeouts h"
    and "r = Some aa \<Longrightarrow> answer_ok (numChunks (hb_sg h)) (fst (hb_net h)) aa"
proof -
  obtain names net t where h1: "hb_net h = (names, net)" "shd net = (t, r)" "h1 = h\<lparr>hb_now := t, hb_net := (names, stl net)\<rparr>"
    using assms(2) by (auto simp: UDPRequest_def split: prod.splits)
  then have "(t, r) \<in> sset net" "sset (stl net) \<subseteq> sset net" by (metis shd_sset) (auto intro: stl_sset)
  then show "hb_ok h1" "r = Some aa \<Longrightarrow> answer_ok (numChunks (hb_sg h)) (fst (hb_net h)) aa"
    using assms(1) h1 by (auto simp: hb_ok_def)
  show "hb_le h h1" "hb_sg h1 = hb_sg h" "hb_timeouts h1 = hb_timeouts h" using h1 by (simp_all add: hb_le_def)
qed

lemma hb_ok_dead:
  assumes "hb_ok h"
  obtains e sg where "DeadServer (hb_sg h) a = Ret (e, sg)" and "hb_ok (GossipDead b ((set_retries c k h)\<lparr>hb_sg := sg\<rparr>))"
    and "hb_le h (GossipDead b ((set_retries c k h)\<lparr>hb_sg := sg\<rparr>))"
proof -
  obtain e sg where d: "DeadServer (hb_sg h) a = Ret (e, sg)" "sg_inv sg" "numChunks sg = numChunks (hb_sg h)"
    using DeadServer_inv [of "hb_sg h" a] assms by (auto simp: hb_ok_def)
  then show thesis using assms DeadServer_frame [OF d(1)]
    by (intro that [OF d(1)]) (auto simp: hb_ok_def hb_le_def KnownServers_def)
qed

text \<open>An answer: the server is known from now on, with the chunks it announced.\<close>

lemma hb_ok_answer:
  assumes ok: "hb_ok h" and ids: "ids_ok (numChunks (hb_sg h)) cids"
    and h3: "h3 = hb_learn a h"
  obtains sg where "SetServerChunks (hb_sg h3) a cids (hb_now h3) = Ret sg" and "hb_ok (h3\<lparr>hb_sg := sg\<rparr>)"
    and "hb_le h (h3\<lparr>hb_sg := sg\<rparr>)" and "a \<in> set (KnownServers sg)"
proof -
  have h3': "hb_ok h3" "hb_le h h3" "a \<in> set (KnownServers (hb_sg h3))" "numChunks (hb_sg h3) = numChunks (hb_sg h)"
    using ok by (auto simp: h3 hb_learn_def hb_ok_def hb_le_def AddServerToGroup_frame AddServerToGroup_inv IsServerOnGroup_iff)
  obtain sg where sg: "SetServerChunks (hb_sg h3) a cids (hb_now h3) = Ret sg" "sg_inv sg" "numChunks sg = numChunks (hb_sg h3)"
    using SetServerChunks_inv [of "hb_sg h3" cids a "hb_now h3"] h3'(1,4) ids by (auto simp: hb_ok_def)
  then show thesis using h3' SetServerChunks_frame [OF sg(1)]
    by (intro that [OF sg(1)]) (auto simp: hb_ok_def hb_le_def KnownServers_def)
qed

text \<open>What a call of the request achieves.\<close>

definition served_by :: "nat \<Rightarrow> heartbeater \<Rightarrow> string \<Rightarrow> bool" where
  "served_by n h addr \<longleftrightarrow> (\<exists>ok h'. hb_request n h addr = Ret (ok, h') \<and> hb_ok h' \<and> hb_le h h'
     \<and> (ok \<longrightarrow> addr = LocalhostIPPort (hb_sg h) \<or> addr \<in> set (KnownServers (hb_sg h'))))"

lemma served_byI:
  assumes "hb_request n h addr = Ret (ok, h')" and "hb_ok h'" and "hb_le h h'"
    and "ok \<Longrightarrow> addr = LocalhostIPPort (hb_sg h) \<or> addr \<in> set (KnownServers (hb_sg h'))"
  shows "served_by n h addr"
  using assms by (auto simp: served_by_def)

text \<open>
  How deep a request calls itself: the machines that are not yet known and not asked by this call may
  each be asked in a chain, and a known server is asked up to three times.
\<close>

definition unknown :: "heartbeater \<Rightarrow> string set" where
  "unknown h = set (fst (hb_net h)) - set (KnownServers (hb_sg h))"

definition need :: "heartbeater \<Rightarrow> string \<Rightarrow> nat" where
  "need h addr = card (unknown h - {addr}) + (if IsServerOnGroup (hb_sg h) addr then max 1 (3 - retries h addr) else 1)"

lemma need_fuel: "need h addr \<le> hb_fuel h"
proof -
  have "card (unknown h - {addr}) \<le> card (set (fst (hb_net h)))" by (rule card_mono) (auto simp: unknown_def)
  also have "\<dots> \<le> length (fst (hb_net h))" by (rule card_length)
  finally show ?thesis by (auto simp: need_def hb_fuel_def)
qed

lemma unknown_le: "hb_le h h' \<Longrightarrow> unknown h' \<subseteq> unknown h"
  by (auto simp: unknown_def hb_le_def)

text \<open>A machine that is asked because of news is unknown, and asking it needs no more than the number of the unknown ones.\<close>

lemma need_news:
  assumes "\<not> IsServerOnGroup (hb_sg h) new" and "new \<in> set (fst (hb_net h))"
  shows "need h new = card (unknown h)"
proof -
  have "new \<in> unknown h" "finite (unknown h)" using assms by (auto simp: unknown_def IsServerOnGroup_iff)
  then show ?thesis using assms(1) card_gt_0_iff [of "unknown h"] by (auto simp: need_def card_Diff_singleton)
qed

text \<open>Following news: a loop of requests, each of which has enough fuel.\<close>

lemma gossip_ok:
  assumes req: "\<And>g a. hb_ok g \<Longrightarrow> need g a \<le> n \<Longrightarrow> served_by n g a"
    and h: "hb_ok h" "card (unknown h) \<le> n" and as: "set as \<subseteq> set (fst (hb_net h))"
  shows "\<exists>h'. foldG (\<lambda>new h. if IsServerOnGroup (hb_sg h) new then Ret h else bindG (hb_request n h new) (\<lambda>(ok, h'). Ret h')) as h = Ret h'
    \<and> hb_ok h' \<and> hb_le h h'"
  using h as
proof (induction as arbitrary: h)
  case (Cons a as)
  show ?case
  proof (cases "IsServerOnGroup (hb_sg h) a")
    case True
    then show ?thesis using Cons by simp
  next
    case False
    then have "need h a \<le> n" using need_news [OF False] Cons.prems(2,3) by simp
    then obtain ok g where g: "hb_request n h a = Ret (ok, g)" "hb_ok g" "hb_le h g"
      using req [OF Cons.prems(1)] unfolding served_by_def by blast
    have "card (unknown g) \<le> card (unknown h)" by (rule card_mono [OF _ unknown_le [OF g(3)]]) (simp add: unknown_def)
    then have "\<exists>h'. foldG (\<lambda>new h. if IsServerOnGroup (hb_sg h) new then Ret h else bindG (hb_request n h new) (\<lambda>(ok, h'). Ret h')) as g = Ret h'
      \<and> hb_ok h' \<and> hb_le g h'"
      using Cons.prems(2,3) g(2,3) by (intro Cons.IH) (simp_all add: hb_le_def)
    then show ?thesis using False g(1,3) hb_le_trans by auto
  qed
qed simp

lemma request_miss:
  assumes ok: "hb_ok h" and remote: "addr \<noteq> LocalhostIPPort (hb_sg h)" and u: "UDPRequest h = (None, h1)"
    and IH: "\<And>g a. hb_ok g \<Longrightarrow> need g a \<le> n \<Longrightarrow> served_by n g a" and fuel: "need h addr \<le> Suc n"
  shows "served_by (Suc n) h addr"
proof -
  note w = hb_ok_wait [OF ok u]
  define h2 where "h2 = set_retries addr (Some (retries h1 addr + 1)) h1"
  have h2: "hb_ok h2" "hb_le h h2" "retries h2 addr = retries h addr + 1" "hb_sg h2 = hb_sg h"
    using w by (simp_all add: h2_def hb_ok_def hb_le_def retries_def set_retries_def)
  note run = remote u h2_def [symmetric]
  consider "\<not> IsServerOnGroup (hb_sg h1) addr" | "IsServerOnGroup (hb_sg h1) addr" "retries h2 addr \<ge> 3"
    | "IsServerOnGroup (hb_sg h1) addr" "retries h2 addr < 3" by fastforce
  then show ?thesis
  proof cases
    case 1
    have "hb_ok (set_retries addr None h1)" "hb_le h (set_retries addr None h1)" using w by (simp_all add: hb_ok_def hb_le_def)
    then show ?thesis using 1 run by (intro served_byI [of _ _ _ False "set_retries addr None h1"]) simp_all
  next
    case 2
    let ?h = "\<lambda>sg. GossipDead addr ((set_retries addr None h2)\<lparr>hb_sg := sg\<rparr>)"
    obtain e sg where d: "DeadServer (hb_sg h2) addr = Ret (e, sg)" "hb_ok (?h sg)" "hb_le h2 (?h sg)"
      using h2(1) by (rule hb_ok_dead)
    have "hb_request (Suc n) h addr = Ret (False, ?h sg)" using 2 run d(1) by simp
    then show ?thesis by (rule served_byI) (use d hb_le_trans [OF h2(2)] in simp_all)
  next
    case 3
    have "unknown h2 = unknown h" using h2(2,4) by (simp add: unknown_def hb_le_def)
    then have "need h2 addr \<le> n" using fuel h2(3,4) w(3) 3 by (auto simp: need_def max_def split: if_splits)
    then obtain ok' h' where h': "hb_request n h2 addr = Ret (ok', h')" "hb_ok h'" "hb_le h2 h'"
      "ok' \<longrightarrow> addr = LocalhostIPPort (hb_sg h2) \<or> addr \<in> set (KnownServers (hb_sg h'))"
      using IH [OF h2(1)] unfolding served_by_def by blast
    have "hb_request (Suc n) h addr = Ret (ok', h')" using 3 run h'(1) by simp
    then show ?thesis by (rule served_byI) (use h' h2(4) hb_le_trans [OF h2(2)] in simp_all)
  qed
qed

lemma request_answer:
  assumes ok: "hb_ok h" and remote: "addr \<noteq> LocalhostIPPort (hb_sg h)" and u: "UDPRequest h = (Some aa, h1)"
    and IH: "\<And>g a. hb_ok g \<Longrightarrow> need g a \<le> n \<Longrightarrow> served_by n g a" and fuel: "need h addr \<le> Suc n"
  shows "served_by (Suc n) h addr"
proof -
  note w = hb_ok_wait [OF ok u]
  define h2 where "h2 = set_retries addr None h1"
  define h3 where "h3 = hb_learn addr h2"
  have h2: "hb_ok h2" "hb_le h h2" "hb_sg h2 = hb_sg h" using w by (simp_all add: h2_def hb_ok_def hb_le_def)
  have aa: "ids_ok (numChunks (hb_sg h2)) (KnownChunks aa)" "set (RecentlyAddedServers aa) \<subseteq> set (fst (hb_net h))" "RecentlyDeadServers aa = []"
    using w(5) h2(3) by (simp_all add: answer_ok_def)
  obtain sg where sg: "SetServerChunks (hb_sg h3) addr (KnownChunks aa) (hb_now h3) = Ret sg" "hb_ok (h3\<lparr>hb_sg := sg\<rparr>)"
    "hb_le h2 (h3\<lparr>hb_sg := sg\<rparr>)" "addr \<in> set (KnownServers sg)"
    using h2(1) aa(1) h3_def by (rule hb_ok_answer)
  define g where "g = h3\<lparr>hb_sg := sg\<rparr>"
  have g: "hb_le h g" using hb_le_trans [OF h2(2) sg(3)] by (simp add: g_def)
  have "unknown g \<subseteq> unknown h - {addr}" using unknown_le [OF g] sg(4) by (auto simp: unknown_def g_def)
  then have "card (unknown g) \<le> card (unknown h - {addr})" by (rule card_mono [rotated]) (simp add: unknown_def)
  then have c: "card (unknown g) \<le> n" using fuel by (auto simp: need_def split: if_splits)
  have "set (RecentlyAddedServers aa) \<subseteq> set (fst (hb_net g))" using aa(2) g by (simp add: hb_le_def)
  from gossip_ok [OF IH sg(2) [folded g_def] c this] obtain h4 where h4: "hb_ok h4" "hb_le g h4"
    "foldG (\<lambda>new h. if IsServerOnGroup (hb_sg h) new then Ret h else bindG (hb_request n h new) (\<lambda>(ok, h'). Ret h'))
       (RecentlyAddedServers aa) g = Ret h4" by blast
  have "hb_request (Suc n) h addr = Ret (True, h4)"
    using remote u sg(1) h4(3) aa(3) by (simp add: h2_def [symmetric] h3_def [symmetric] g_def [symmetric] Let_def)
  moreover have "hb_le h h4" using g h4(2) by (rule hb_le_trans)
  moreover have "addr \<in> set (KnownServers (hb_sg h4))" using sg(4) h4(2) by (auto simp: hb_le_def g_def)
  ultimately show ?thesis using h4(1) by (intro served_byI) auto
qed

lemma request_ok: "hb_ok h \<Longrightarrow> need h addr \<le> n \<Longrightarrow> served_by n h addr"
proof (induction n arbitrary: h addr)
  case 0
  then show ?case by (simp add: need_def split: if_splits)
next
  case (Suc n)
  obtain r h1 where u: "UDPRequest h = (r, h1)" by fastforce
  show ?case
  proof (cases "addr = LocalhostIPPort (hb_sg h)")
    case True
    then show ?thesis using Suc.prems(1) by (intro served_byI [of _ _ _ True h]) simp_all
  next
    case remote: False
    show ?thesis
    proof (cases r)
      case None
      then show ?thesis using request_miss [OF Suc.prems(1) remote _ Suc.IH Suc.prems(2)] u by blast
    next
      case (Some aa)
      then show ?thesis using request_answer [OF Suc.prems(1) remote _ Suc.IH Suc.prems(2)] u by blast
    qed
  qed
qed

lemma request_all_ok:
  assumes "hb_ok h"
  shows "\<exists>h'. request_all as h = Ret h' \<and> hb_ok h' \<and> hb_le h h'"
  unfolding request_all_def
proof (rule foldG_inv [where P = "\<lambda>g. hb_ok g \<and> hb_le h g"])
  fix a g assume g: "hb_ok g \<and> hb_le h g"
  then have "served_by (hb_fuel g) g a" by (intro request_ok need_fuel) simp_all
  then show "\<exists>s'. bindG (hb_request (hb_fuel g) g a) (\<lambda>(ok, h'). Ret h') = Ret s' \<and> hb_ok s' \<and> hb_le h s'"
    using g hb_le_trans by (auto simp: served_by_def)
qed (use assms in simp)

section \<open>Properties\<close>

text \<open>
  C31: The heartbeat always comes back. On a network of finitely many machines, when the answers name
  existing chunks and only machines of the network, and carry no news of dead servers, as the decoder has
  it, a request returns whatever the network does, for endless sequences of lost and answered
  requests, with retries and chains of news: the recursion is never deeper than the number of
  the machines plus four. It keeps the two views of the group in agreement, forgets no server, and when it
  reports success the server is known. So does every round of requests to all the servers.
\<close>

theorem heartbeat_returns:
  assumes "hb_ok h"
  shows "(\<exists>ok h'. hb_request (hb_fuel h) h addr = Ret (ok, h') \<and> sg_inv (hb_sg h')
      \<and> set (KnownServers (hb_sg h)) \<subseteq> set (KnownServers (hb_sg h'))
      \<and> (ok \<longrightarrow> addr = LocalhostIPPort (hb_sg h) \<or> IsServerOnGroup (hb_sg h') addr))
    \<and> (\<exists>h'. hb_round h = Ret h' \<and> sg_inv (hb_sg h') \<and> set (KnownServers (hb_sg h)) \<subseteq> set (KnownServers (hb_sg h')))"
proof -
  have "served_by (hb_fuel h) h addr" using assms need_fuel by (rule request_ok)
  moreover have "\<exists>h'. hb_round h = Ret h' \<and> hb_ok h' \<and> hb_le h h'"
    using request_all_ok [OF assms] assms by (simp add: hb_round_def)
  ultimately show ?thesis by (auto simp: served_by_def hb_ok_def hb_le_def IsServerOnGroup_iff)
qed

definition ex_hb :: heartbeater where
  "ex_hb = hb_new \<lparr>LocalhostIPPort = ''l'', numChunks = 1, redundancy = 1, servers = [(''a'', 0)],
     sg_chunks = [\<lparr>vc_id = 0, holders = [0]\<rparr>], sg_noDelay = False,
     objs = [(new_VirtualServer ''a'' False)\<lparr>heldChunks := [\<lparr>chunk_ID = 0, chunk_Checksum = 3\<rparr>]\<rparr>]\<rparr> 5
     ([''a'', ''b''], (6, None) ## (7, None) ## sconst (8, None))"

lemma ex_hb_ok: "hb_ok ex_hb"
  by (simp add: ex_hb_def hb_new_def hb_ok_def sg_inv_def new_VirtualServer_def ids_ok_def holders_ok_def sg_holds_def) auto

theorem heartbeat_returns_witness:
  "hb_ok ex_hb \<and> (\<exists>ok h'. hb_request (hb_fuel ex_hb) ex_hb ''a'' = Ret (ok, h') \<and> sg_inv (hb_sg h'))"
  using ex_hb_ok heartbeat_returns [OF ex_hb_ok, of "''a''"] by blast

lemma request_silent:
  assumes "snd (shd (snd (hb_net h))) = None" and "addr \<noteq> LocalhostIPPort (hb_sg h)"
    and "IsServerOnGroup (hb_sg h) addr" and "UDPRequest h = (r, h1)" and "h2 = set_retries addr (Some (retries h addr + 1)) h1"
  shows "hb_request (Suc n) h addr = (if retries h addr + 1 \<ge> 3
     then bindG (DeadServer (hb_sg h) addr) (\<lambda>(e, sg). Ret (False, GossipDead addr ((set_retries addr None h2)\<lparr>hb_sg := sg\<rparr>)))
     else hb_request n h2 addr)"
    and "hb_sg h2 = hb_sg h" and "retries h2 addr = retries h addr + 1" and "snd (hb_net h2) = stl (snd (hb_net h))"
  using assms by (auto simp: UDPRequest_def retries_def set_retries_def Let_def split: prod.splits)

lemma silent_run:
  assumes "retries h addr + Suc k = 3" and "list_all (\<lambda>e. snd e = None) (stake (Suc k) (snd (hb_net h)))"
    and "addr \<noteq> LocalhostIPPort (hb_sg h)" and "IsServerOnGroup (hb_sg h) addr" and "Suc k \<le> n"
  shows "\<exists>h2. hb_request n h addr
    = bindG (DeadServer (hb_sg h) addr) (\<lambda>(e, sg). Ret (False, GossipDead addr ((set_retries addr None h2)\<lparr>hb_sg := sg\<rparr>)))"
  using assms
proof (induction k arbitrary: h n)
  case (Suc k)
  obtain m where n: "n = Suc m" using Suc.prems(5) by (cases n) auto
  obtain r h1 where u: "UDPRequest h = (r, h1)" by fastforce
  define h2 where "h2 = set_retries addr (Some (retries h addr + 1)) h1"
  have net: "snd (shd (snd (hb_net h))) = None" using Suc.prems(2) by simp
  note rs = request_silent [OF net Suc.prems(3,4) u h2_def]
  have "\<exists>h3. hb_request m h2 addr
    = bindG (DeadServer (hb_sg h2) addr) (\<lambda>(e, sg). Ret (False, GossipDead addr ((set_retries addr None h3)\<lparr>hb_sg := sg\<rparr>)))"
    using Suc.prems n rs(2-4) by (intro Suc.IH) simp_all
  then show ?case using rs(1,2) n Suc.prems(1) by simp
next
  case 0
  obtain m where n: "n = Suc m" using 0 by (cases n) auto
  obtain r h1 where u: "UDPRequest h = (r, h1)" by fastforce
  have net: "snd (shd (snd (hb_net h))) = None" using 0 by simp
  show ?case using request_silent(1) [OF net 0(3,4) u refl] 0(1) n by auto
qed

text \<open>
  The decoder's loss of the news of dead servers is what keeps the heartbeat from an endless recursion: a
  server that is asked because it was announced dead, and answers with that same news, is asked again.
\<close>

lemma dead_news_loop:
  assumes "sg_inv (hb_sg h)" and "snd (hb_net h) = sconst (t, Some \<lparr>KnownChunks = [], RecentlyAddedServers = [], RecentlyDeadServers = [addr]\<rparr>)"
    and "addr \<noteq> LocalhostIPPort (hb_sg h)" and "IsServerOnGroup (hb_sg h) addr"
  shows "hb_request n h addr = Loop"
  using assms
proof (induction n arbitrary: h)
  case (Suc n)
  let ?aa = "\<lparr>KnownChunks = [], RecentlyAddedServers = [], RecentlyDeadServers = [addr]\<rparr>"
  define h1 where "h1 = set_retries addr None (h\<lparr>hb_now := t, hb_net := (fst (hb_net h), sconst (t, Some ?aa))\<rparr>)"
  have u: "UDPRequest h = (Some ?aa, h\<lparr>hb_now := t, hb_net := (fst (hb_net h), sconst (t, Some ?aa))\<rparr>)"
    using Suc.prems(2) by (auto simp: UDPRequest_def id_def split: prod.splits)
  have h1: "hb_sg h1 = hb_sg h" "hb_learn addr h1 = h1" "snd (hb_net h1) = sconst (t, Some ?aa)"
    using Suc.prems(4) by (simp_all add: h1_def hb_learn_def)
  obtain sg where sg: "SetServerChunks (hb_sg h1) addr [] (hb_now h1) = Ret sg" "sg_inv sg"
    using SetServerChunks_inv [of "hb_sg h1" "[]" addr "hb_now h1"] Suc.prems(1) h1(1) by (auto simp: ids_ok_def)
  note f = SetServerChunks_frame [OF sg(1)]
  have on: "IsServerOnGroup sg addr" using Suc.prems(4) f(1) h1(1) by (simp add: IsServerOnGroup_def)
  have "hb_request n (h1\<lparr>hb_sg := sg\<rparr>) addr = Loop"
    using Suc.prems(3) on sg(2) f(2) h1 by (intro Suc.IH) (simp_all add: id_def)
  then show ?case using u Suc.prems(3) sg(1) on h1(2) by (simp add: h1_def [symmetric] Let_def)
qed simp

text \<open>
  C32: A silent server is declared dead. When three requests to a known server in a row stay without
  an answer, one call of the request marks it as dead, takes it
  out of the holders of every chunk and spreads the news.
\<close>

theorem silent_server_dies:
  assumes "hb_ok h" and "map_of (servers (hb_sg h)) addr = Some p" and "addr \<noteq> LocalhostIPPort (hb_sg h)"
    and "hb_timeouts h addr = None" and "list_all (\<lambda>e. snd e = None) (stake 3 (snd (hb_net h)))"
  shows "\<exists>h'. hb_request (hb_fuel h) h addr = Ret (False, h') \<and> dead (objs (hb_sg h') ! p)
    \<and> heldChunks (objs (hb_sg h') ! p) = [] \<and> (\<forall>i<length (sg_chunks (hb_sg h')). p \<notin> set (holders (sg_chunks (hb_sg h') ! i)))
    \<and> addr \<in> fst ` set (recentlyDead h') \<and> hb_timeouts h' addr = None"
proof -
  have "IsServerOnGroup (hb_sg h) addr" "retries h addr + Suc 2 = 3" "Suc 2 \<le> hb_fuel h"
    using assms(2,4) by (simp_all add: IsServerOnGroup_def retries_def hb_fuel_def)
  then obtain h3 where run: "hb_request (hb_fuel h) h addr
    = bindG (DeadServer (hb_sg h) addr) (\<lambda>(e, sg). Ret (False, GossipDead addr ((set_retries addr None h3)\<lparr>hb_sg := sg\<rparr>)))"
    using silent_run [of h addr 2] assms(3,5) by auto
  obtain ks where ks: "foldG (\<lambda>c ks. drop_holder p (chunk_ID c) ks) (heldChunks (objs (hb_sg h) ! p)) (sg_chunks (hb_sg h)) = Ret ks"
    "holders_ok ks (\<lambda>j q. q \<noteq> p \<and> sg_holds (hb_sg h) j q)"
    using forget_holder [of "hb_sg h"] assms(1,2) by (metis hb_ok_def)
  have "p < length (objs (hb_sg h))" using sg_invD(1) [OF _ assms(2)] assms(1) by (simp add: hb_ok_def)
  then show ?thesis using run ks assms(2)
    by (simp add: DeadServer_def GossipDead_def cleanNews_def news_set_def on_server_def freeConn_def holders_ok_def set_retries_def Let_def)
qed

theorem silent_server_dies_witness:
  "\<exists>h'. hb_request (hb_fuel ex_hb) ex_hb ''a'' = Ret (False, h') \<and> dead (objs (hb_sg h') ! 0)"
proof -
  have "map_of (servers (hb_sg ex_hb)) ''a'' = Some 0" "''a'' \<noteq> LocalhostIPPort (hb_sg ex_hb)" "hb_timeouts ex_hb ''a'' = None"
    "list_all (\<lambda>e. snd e = None) (stake 3 (snd (hb_net ex_hb)))"
    by (simp_all add: ex_hb_def hb_new_def numeral_3_eq_3)
  from silent_server_dies [OF ex_hb_ok this] show ?thesis by blast
qed

end
