(* ===== verification/Com_Server.thy ===== *)
theory Com_Server
  imports Udp_Heartbeat
begin

text \<open>
  The listening side of a server (src/com/comserver.go) and the choice of its address
  (src/com/utils.go): opening the two sockets, the loops that accept connections and answer
  heartbeats, and stopping them. What a heartbeat says comes from a callback; the locale
  \<open>udp_callback\<close> is what the loop relies on. The loop that serves a connection is in
  \<open>DB_Server\<close>, with the callback that it calls.
\<close>

section \<open>The local address\<close>

text \<open>
  An address of a network interface: an IP network, with the answers of \<open>IsLoopback\<close>, \<open>To4\<close> and
  \<open>String\<close> on its IP, or something else.
\<close>

datatype net_addr = IPNet bool bool string | OtherAddr

fun first_ip :: "net_addr list \<Rightarrow> string" where
  "first_ip [] = []"
| "first_ip (IPNet loopback to4 ip # as) = (if \<not> loopback \<and> to4 then ip else first_ip as)"
| "first_ip (OtherAddr # as) = first_ip as"

definition GetLocalIP :: "string + net_addr list \<Rightarrow> string" where
  "GetLocalIP x = (case x of Inl e \<Rightarrow> [] | Inr as \<Rightarrow> first_ip as)"

section \<open>State\<close>

text \<open>For each listener, whether it is open.\<close>

record comServer =
  cs_localIP :: string
  tcpListener :: bool
  udpListener :: bool
  cs_stopped :: bool

definition IsStopped :: "comServer \<Rightarrow> bool" where
  "IsStopped cs = cs_stopped cs"

definition local_addr :: "string \<Rightarrow> int \<Rightarrow> string" where
  "local_addr ip port = ip @ '':'' @ dec_int port"

text \<open>What the system answers to the calls of package \<open>net\<close> that open the sockets.\<close>

record net_env =
  ne_ListenUDP :: "int \<Rightarrow> err"
  ne_ResolveTCPAddr :: "string \<Rightarrow> err"
  ne_ListenTCP :: "string \<Rightarrow> err"

definition panic_on :: "err \<Rightarrow> unit go" where
  "panic_on e = (case e of None \<Rightarrow> Ret () | Some t \<Rightarrow> Panic (Raised t))"

definition listenUDP :: "net_env \<Rightarrow> int \<Rightarrow> comServer \<Rightarrow> comServer go" where
  "listenUDP ne port cs = bindG (panic_on (ne_ListenUDP ne port)) (\<lambda>_. Ret (cs\<lparr>udpListener := True\<rparr>))"

definition listenTCP :: "net_env \<Rightarrow> int \<Rightarrow> comServer \<Rightarrow> comServer go" where
  "listenTCP ne port cs =
     bindG (panic_on (ne_ResolveTCPAddr ne (local_addr (cs_localIP cs) port))) (\<lambda>_.
     bindG (panic_on (ne_ListenTCP ne (local_addr (cs_localIP cs) port))) (\<lambda>_.
     Ret (cs\<lparr>tcpListener := True\<rparr>)))"

definition com_Start :: "net_env \<Rightarrow> string \<Rightarrow> int \<Rightarrow> comServer go" where
  "com_Start ne ip port =
     bindG (listenUDP ne port \<lparr>cs_localIP = ip, tcpListener = False, udpListener = False, cs_stopped = False\<rparr>)
       (listenTCP ne port)"

text \<open>\<open>Stop\<close> is three statements, between which the loops may run.\<close>

fun stop_stmt :: "nat \<Rightarrow> comServer \<Rightarrow> comServer" where
  "stop_stmt 0 cs = cs\<lparr>cs_stopped := True\<rparr>"
| "stop_stmt (Suc 0) cs = cs\<lparr>tcpListener := False\<rparr>"
| "stop_stmt (Suc (Suc n)) cs = cs\<lparr>udpListener := False\<rparr>"

definition com_Stop :: "comServer \<Rightarrow> comServer" where
  "com_Stop cs = fold stop_stmt [0, 1, 2] cs"

section \<open>The loops\<close>

text \<open>
  A turn of the loop of \<open>listenTCP\<close>: \<open>x\<close> is what \<open>AcceptTCP\<close> returns. A connection is its number and
  whether it is open; the first result says whether the loop goes on.
\<close>

definition accept_turn :: "comServer \<Rightarrow> string + nat \<Rightarrow> (nat \<times> bool) list \<Rightarrow> (bool \<times> (nat \<times> bool) list) go" where
  "accept_turn cs x conns = (case x of
     Inl e \<Rightarrow> (let conns' = map (\<lambda>(c, open). (c, False)) conns in
       if IsStopped cs then Ret (False, conns') else Panic (Raised e))
   | Inr c \<Rightarrow> Ret (True, conns @ [(c, True)]))"

text \<open>
  A turn of the loop of \<open>listenUDP\<close>: \<open>x\<close> is what \<open>ReadFromUDP\<close> returns, an error or the address that
  asks. The last result is the packet that is sent, and where; an error of the sending is
  only logged.
\<close>

definition udp_turn ::
  "('s \<Rightarrow> (amAlive \<times> 's) go) \<Rightarrow> comServer \<Rightarrow> string + string \<Rightarrow> 's \<Rightarrow> (bool \<times> comServer \<times> 's \<times> (string \<times> bytes) list) go" where
  "udp_turn callback cs x s = (case x of
     Inl e \<Rightarrow> (let cs' = cs\<lparr>udpListener := False\<rparr> in
       if IsStopped cs' then Ret (False, cs', s, []) else Panic (Raised e))
   | Inr addr \<Rightarrow> bindG (callback s) (\<lambda>(saa, s').
       bindG (AmAlive_Marshal saa) (\<lambda>p. Ret (True, cs, s', [(addr, p)]))))"

section \<open>Interleaving\<close>

text \<open>
  The goroutines of the two loops, the one that calls \<open>Stop\<close> and the others, which change the state
  \<open>'s\<close> of the callback as \<open>other\<close> allows. \<open>ls_pc\<close> is the next statement of \<open>Stop\<close>. A call on an open
  listener waits until a client comes; it fails once the listener is closed.
\<close>

record 's listening =
  ls_com :: comServer
  ls_state :: 's
  ls_tcp :: bool
  ls_udp :: bool
  ls_conns :: "(nat \<times> bool) list"
  ls_pc :: nat
  ls_sent :: "(string \<times> bytes) list"

definition listen_start :: "comServer \<Rightarrow> 's \<Rightarrow> 's listening" where
  "listen_start cs s = \<lparr>ls_com = cs, ls_state = s, ls_tcp = True, ls_udp = True, ls_conns = [], ls_pc = 0, ls_sent = []\<rparr>"

definition tcp_step :: "string + nat \<Rightarrow> 's listening \<Rightarrow> 's listening go" where
  "tcp_step x l = bindG (accept_turn (ls_com l) x (ls_conns l)) (\<lambda>(more, conns). Ret (l\<lparr>ls_tcp := more, ls_conns := conns\<rparr>))"

definition udp_step :: "('s \<Rightarrow> (amAlive \<times> 's) go) \<Rightarrow> string + string \<Rightarrow> 's listening \<Rightarrow> 's listening go" where
  "udp_step callback x l = bindG (udp_turn callback (ls_com l) x (ls_state l)) (\<lambda>(more, cs, s, ps).
     Ret (l\<lparr>ls_com := cs, ls_state := s, ls_udp := more, ls_sent := ls_sent l @ ps\<rparr>))"

inductive listen_step :: "('s \<Rightarrow> (amAlive \<times> 's) go) \<Rightarrow> ('s \<Rightarrow> 's \<Rightarrow> bool) \<Rightarrow> 's listening \<Rightarrow> 's listening go \<Rightarrow> bool"
  for callback other where
  step_stop: "ls_pc l < 3 \<Longrightarrow>
    listen_step callback other l (Ret (l\<lparr>ls_com := stop_stmt (ls_pc l) (ls_com l), ls_pc := Suc (ls_pc l)\<rparr>))"
| step_accept: "ls_tcp l \<Longrightarrow> tcpListener (ls_com l) \<Longrightarrow> listen_step callback other l (tcp_step (Inr c) l)"
| step_no_accept: "ls_tcp l \<Longrightarrow> \<not> tcpListener (ls_com l) \<Longrightarrow> listen_step callback other l (tcp_step (Inl e) l)"
| step_ping: "ls_udp l \<Longrightarrow> udpListener (ls_com l) \<Longrightarrow> listen_step callback other l (udp_step callback (Inr a) l)"
| step_no_ping: "ls_udp l \<Longrightarrow> \<not> udpListener (ls_com l) \<Longrightarrow> listen_step callback other l (udp_step callback (Inl e) l)"
| step_other: "other (ls_state l) s' \<Longrightarrow> listen_step callback other l (Ret (l\<lparr>ls_state := s'\<rparr>))"

inductive listen_run :: "('s \<Rightarrow> (amAlive \<times> 's) go) \<Rightarrow> ('s \<Rightarrow> 's \<Rightarrow> bool) \<Rightarrow> 's listening \<Rightarrow> 's listening go \<Rightarrow> bool"
  for callback other l0 where
  run_none: "listen_run callback other l0 (Ret l0)"
| run_more: "listen_run callback other l0 (Ret l) \<Longrightarrow> listen_step callback other l x \<Longrightarrow> listen_run callback other l0 x"

section \<open>Invariant\<close>

text \<open>
  A listener that is closed belongs to a server that is stopped; the connections of a loop that has
  ended are closed.
\<close>

definition listening_ok :: "'s listening \<Rightarrow> bool" where
  "listening_ok l \<longleftrightarrow> (\<not> tcpListener (ls_com l) \<or> \<not> udpListener (ls_com l) \<longrightarrow> cs_stopped (ls_com l))
     \<and> (1 \<le> ls_pc l \<longrightarrow> cs_stopped (ls_com l)) \<and> (2 \<le> ls_pc l \<longrightarrow> \<not> tcpListener (ls_com l))
     \<and> (3 \<le> ls_pc l \<longrightarrow> \<not> udpListener (ls_com l))
     \<and> (\<not> ls_tcp l \<longrightarrow> (\<forall>(c, open) \<in> set (ls_conns l). \<not> open))"

lemma start_ok: "com_Start ne ip port = Ret cs \<Longrightarrow> listening_ok (listen_start cs s)"
  by (auto simp: com_Start_def listenUDP_def listenTCP_def bindG_eq_Ret listening_ok_def listen_start_def)

lemma stop_ok: "listening_ok l \<Longrightarrow> ls_pc l < 3 \<Longrightarrow>
  listening_ok (l\<lparr>ls_com := stop_stmt (ls_pc l) (ls_com l), ls_pc := Suc (ls_pc l)\<rparr>)"
  by (cases "(ls_pc l, ls_com l)" rule: stop_stmt.cases) (auto simp: listening_ok_def)

lemma tcp_ok:
  assumes "listening_ok l" and "ls_tcp l" and "case x of Inl e \<Rightarrow> \<not> tcpListener (ls_com l) | Inr c \<Rightarrow> True"
  shows "\<exists>l'. tcp_step x l = Ret l' \<and> listening_ok l' \<and> ls_state l' = ls_state l"
  using assms by (cases x) (auto simp: tcp_step_def accept_turn_def IsStopped_def listening_ok_def)

section \<open>The callback\<close>

text \<open>
  The callback returns on every state that satisfies \<open>ok\<close>, which it keeps, as the other
  goroutines do, and the heartbeat has no more chunks than fit into a packet.
\<close>

locale udp_callback =
  fixes callback :: "'s \<Rightarrow> (amAlive \<times> 's) go" and other :: "'s \<Rightarrow> 's \<Rightarrow> bool" and ok :: "'s \<Rightarrow> bool"
  assumes callback_ok: "ok s \<Longrightarrow> \<exists>aa s'. callback s = Ret (aa, s') \<and> ok s' \<and> length (KnownChunks aa) \<le> 116"
    and other_ok: "ok s \<Longrightarrow> other s s' \<Longrightarrow> ok s'"
begin

lemma udp_ok:
  assumes "listening_ok l" and "ls_udp l" and "ok (ls_state l)"
    and "case x of Inl e \<Rightarrow> \<not> udpListener (ls_com l) | Inr a \<Rightarrow> True"
  shows "\<exists>l'. udp_step callback x l = Ret l' \<and> listening_ok l' \<and> ok (ls_state l')"
proof (cases x)
  case (Inl e)
  then show ?thesis using assms by (auto simp: udp_step_def udp_turn_def IsStopped_def listening_ok_def)
next
  case (Inr a)
  obtain aa s' where s': "callback (ls_state l) = Ret (aa, s')" "ok s'" "length (KnownChunks aa) \<le> 116"
    using callback_ok assms(3) by blast
  obtain p where "AmAlive_Marshal aa = Ret p" using marshal_run [OF refl s'(3) refl] by metis
  then show ?thesis using Inr s' assms(1) by (simp add: udp_step_def udp_turn_def listening_ok_def)
qed

lemma step_ok:
  assumes "listen_step callback other l x" and "listening_ok l" and "ok (ls_state l)"
  shows "\<exists>l'. x = Ret l' \<and> listening_ok l' \<and> ok (ls_state l')"
  using assms(1)
proof cases
  case step_stop
  then show ?thesis using stop_ok assms(2,3) by simp
next
  case (step_accept c)
  then show ?thesis using tcp_ok [of l "Inr c"] assms(2,3) by auto
next
  case (step_no_accept e)
  then show ?thesis using tcp_ok [of l "Inl e"] assms(2,3) by auto
next
  case (step_ping a)
  then show ?thesis using udp_ok [of l "Inr a"] assms(2,3) by auto
next
  case (step_no_ping e)
  then show ?thesis using udp_ok [of l "Inl e"] assms(2,3) by auto
next
  case (step_other s')
  then show ?thesis using other_ok assms(2,3) by (simp add: listening_ok_def)
qed

lemma run_ok:
  assumes "listen_run callback other l0 x" and "listening_ok l0" and "ok (ls_state l0)"
  shows "\<exists>l. x = Ret l \<and> listening_ok l \<and> ok (ls_state l)"
  using assms(1)
proof induction
  case run_none
  then show ?case using assms(2,3) by simp
next
  case (run_more l x)
  then show ?case using step_ok by blast
qed

end

end
