(* ===== verification/DB_Server.thy ===== *)
theory DB_Server
  imports Core_State Core_Defrag Heartbeat Com_Server
begin

text \<open>
  The server (src/server/server.go): it puts the core, the server group and the heartbeater
  together and answers every message of the protocol, and it copies its chunks to the servers
  that ask for them. The turn of the loop that serves a connection
  (src/com/comserver.go) is here too. A server runs on a sequence of events: a message is processed, a
  transfer that a message has started is made, or the defragmenter takes the next chunk of its channel.
\<close>

section \<open>State\<close>

text \<open>
  The server group is the one of the heartbeater. \<open>srv_tasks\<close> are the transfers that were started in
  the background, with their destination and chunk.
\<close>

record dbServer =
  srv_core :: core
  srv_disk :: fs
  srv_hb :: heartbeater
  srv_stopped :: bool
  srv_tasks :: "(string \<times> int) list"
  srv_com :: comServer

abbreviation srv_sg :: "dbServer \<Rightarrow> serverGroup" where
  "srv_sg s \<equiv> hb_sg (srv_hb s)"

definition with_core :: "dbServer \<Rightarrow> core \<Rightarrow> dbServer" where
  "with_core s c = s\<lparr>srv_core := c\<rparr>"

section \<open>Messages\<close>

definition no_message :: message where
  "no_message = \<lparr>msg_Type = 0, msg_ID = 0, msg_Key = [], msg_Value = []\<rparr>"

definition reply :: "message \<Rightarrow> operation \<Rightarrow> bytes \<Rightarrow> message" where
  "reply m t val = \<lparr>msg_Type = t, msg_ID = msg_ID m, msg_Key = [], msg_Value = val\<rparr>"

text \<open>The answer to an operation that may fail.\<close>

definition reply_err :: "message \<Rightarrow> err \<Rightarrow> message" where
  "reply_err m e = (case e of None \<Rightarrow> reply m OpOK [] | Some t \<Rightarrow> reply m OpErr (bytes_of t))"

text \<open>\<open>core.CAS\<close> with the test \<open>sg.IsSynched\<close>, which it makes only for a present chunk.\<close>

definition cas_synched :: "core \<Rightarrow> serverGroup \<Rightarrow> bytes \<Rightarrow> bool go" where
  "cas_synched c sg key = bindG (key_chunk c key) (\<lambda>i. bindG (get_chunk c i) (\<lambda>mc.
     if \<not> present mc then Ret True else IsSynched sg i))"

definition protect_chunk :: "dbServer \<Rightarrow> time \<Rightarrow> int \<Rightarrow> (err \<times> dbServer) go" where
  "protect_chunk s now cid = bindG (NumHolders (srv_sg s) cid) (\<lambda>n.
     if int n > redundancy (srv_sg s)
     then bindG (ChunkSetProtected (srv_core s) cid now) (\<lambda>(e, c). Ret (e, with_core s c))
     else Ret (Some [], s))"

text \<open>
  \<open>je\<close> encodes the configuration, \<open>now\<close> is the time. Type 0 is for a response that is not sent.
\<close>

definition processMessage :: "(serializableServerGroup \<Rightarrow> bytes) \<Rightarrow> time \<Rightarrow> dbServer \<Rightarrow> message \<Rightarrow> (message \<times> dbServer) go" where
  "processMessage je now s m =
     (let t = msg_Type m; c = srv_core s in
      if srv_stopped s then Ret (no_message, s)
      else if t = OpGet then
        bindG (core_Get c (msg_Key m)) (\<lambda>(v, e). Ret (reply m OpResponse (case v of None \<Rightarrow> [] | Some x \<Rightarrow> x), s))
      else if t = OpSet then
        bindG (core_Set c (msg_Key m) (msg_Value m)) (\<lambda>(e, c'). Ret (reply_err m e, with_core s c'))
      else if t = OpAsyncSet then
        bindG (core_Set c (msg_Key m) (msg_Value m)) (\<lambda>(e, c'). Ret (reply m 0 [], with_core s c'))
      else if t = OpCAS then
        bindG (cas_synched c (srv_sg s) (msg_Key m)) (\<lambda>ok.
        bindG (core_CAS c (msg_Key m) (msg_Value m) (\<lambda>_. ok)) (\<lambda>(e, c'). Ret (reply_err m e, with_core s c')))
      else if t = OpDel then
        bindG (core_Delete c (msg_Key m) (msg_Value m)) (\<lambda>(e, c'). Ret (reply_err m e, with_core s c'))
      else if t = OpTransfer then
        bindG (Uint32 (msg_Key m)) (\<lambda>cid.
        Ret (reply m OpOK [], s\<lparr>srv_tasks := srv_tasks s @ [(string_of (msg_Value m), uint cid)]\<rparr>))
      else if t = OpGetConf then Ret (reply m OpResponse (sg_Marshal je (srv_sg s)), s)
      else if t = OpAddServerToGroup then
        let addr = string_of (msg_Key m); h = srv_hb s in
        Ret (reply m OpOK [], s\<lparr>srv_hb := GossipAdded addr (h\<lparr>hb_sg := snd (AddServerToGroup (hb_sg h) addr), hb_now := now\<rparr>)\<rparr>)
      else if t = OpGetChunkInfo then
        bindG (Uint32 (msg_Key m)) (\<lambda>cid.
        bindG (LengthOfChunk c (uint cid)) (\<lambda>n. Ret (reply m OpResponse (le64 n), s)))
      else if t = OpProtect then
        bindG (Uint32 (msg_Key m)) (\<lambda>cid.
        bindG (protect_chunk s now (uint cid)) (\<lambda>(e, s'). Ret (reply_err m e, s')))
      else if t = OpSetBuffered then Ret (reply m OpSetBuffered [], s)
      else if t = OpSetNoDelay then Ret (reply m OpSetNoDelay [], s)
      else Ret (reply m OpErr (bytes_of ''Operation not supported''), s))"

text \<open>
  A turn of the loop that serves a connection: read a message, process it, write the response
  unless its type is 0. The second result says whether the loop goes on.
\<close>

definition serve_turn :: "(serializableServerGroup \<Rightarrow> bytes) \<Rightarrow> time \<Rightarrow> dbServer \<times> conn \<Rightarrow> (bool \<times> dbServer \<times> conn) go" where
  "serve_turn je now x = (case x of (s, c) \<Rightarrow>
     bindG (conn_Read c) (\<lambda>(r, c1). case r of
       Inl e \<Rightarrow> Ret (False, s, conn_Close c1)
     | Inr m \<Rightarrow> bindG (processMessage je now s m) (\<lambda>(resp, s').
         if msg_Type resp > 0 then bindG (conn_Write c1 resp) (\<lambda>(e, c2). Ret (True, s', c2))
         else Ret (True, s', c1))))"

section \<open>Heartbeats\<close>

text \<open>\<open>core.PresentChunksList()\<close> in the form of a heartbeat.\<close>

definition report :: "(nat \<Rightarrow> time) \<Rightarrow> core \<Rightarrow> (amAliveChunk list \<times> core) go" where
  "report clock c = bindG (PresentChunksList c clock) (\<lambda>(ids, c').
     Ret (map (\<lambda>(i, x). \<lparr>chunk_ID = int i, chunk_Checksum = x\<rparr>) ids, c'))"

section \<open>Transfers\<close>

text \<open>
  The goroutine of a transfer sends every pair of the chunk to the destination; it waits for
  the answer to one request in a hundred. The result is the list of the requests. The deferred \<open>c.Close()\<close>
  is called on a nil pointer when there is no connection.
\<close>

definition transfer_pair :: "bytes \<Rightarrow> bytes \<Rightarrow> nat \<times> brokerMsg list \<Rightarrow> (bool \<times> nat \<times> brokerMsg list) go" where
  "transfer_pair key val x = (case x of (i, ms) \<Rightarrow>
     Ret (True, i + 1, ms @ [client_Set key val (if i mod 100 = 0 then halfSecond else 0) i]))"

definition transfer :: "dialer \<Rightarrow> core \<Rightarrow> string \<Rightarrow> int \<Rightarrow> brokerMsg list go" where
  "transfer dial c addr cid = (case dial addr of
     Some e \<Rightarrow> Panic NilPointer
   | None \<Rightarrow> bindG (core_Iterate c cid transfer_pair (0, [])) (\<lambda>(e, i, ms). Ret ms))"

section \<open>Starting and stopping\<close>

definition start_server :: "core \<Rightarrow> fs \<Rightarrow> heartbeater \<Rightarrow> comServer \<Rightarrow> dbServer" where
  "start_server c d h cs = \<lparr>srv_core = c, srv_disk = d, srv_hb = h, srv_stopped = False, srv_tasks = [], srv_com = cs\<rparr>"

definition all_present :: "os_env \<Rightarrow> nat list \<Rightarrow> core \<times> fs \<Rightarrow> (core \<times> fs) go" where
  "all_present os ids x = foldG (\<lambda>i (c, d). ChunkSetPresent os d c (int i)) ids x"

text \<open>
  \<open>Create\<close>: \<open>files\<close> are the files of the directory of the database, \<open>net\<close> is what the network answers to
  the first heartbeats, \<open>ne\<close> says whether the sockets can be opened. The loops that it starts in the
  background are in their own theories.
\<close>

definition server_Create ::
  "net_env \<Rightarrow> os_env \<Rightarrow> fs \<Rightarrow> string list \<Rightarrow> time \<Rightarrow> udp_net \<Rightarrow> string \<Rightarrow> int \<Rightarrow> string \<Rightarrow> u64 \<Rightarrow> bool \<Rightarrow> int \<Rightarrow> int \<Rightarrow> dbServer go" where
  "server_Create ne os d files now net ip port path sz openDB n red =
     bindG (core_New path sz n) (\<lambda>c0.
     bindG (if openDB then bindG (core_Open os d files c0) (\<lambda>c. Ret (c, d)) else all_present os [0..<nat n] (c0, d)) (\<lambda>(c, d1).
     bindG (CreateServerGroup n red (local_addr ip port)) (\<lambda>sg0.
     let sg1 = snd (AddServerToGroup sg0 (local_addr ip port));
         l = map (\<lambda>i. \<lparr>chunk_ID = int i, chunk_Checksum = 0\<rparr>) [0..<nat n] in
     bindG (SetServerChunks sg1 (local_addr ip port) l now) (\<lambda>sg2.
     bindG (hb_Start sg2 now net) (\<lambda>h.
     bindG (com_Start ne ip port) (\<lambda>cs. Ret (start_server c d1 h cs)))))))"

text \<open>The requests to all the servers to add this one: which of them answered, and the group.\<close>

fun announce :: "dialer \<Rightarrow> (nat \<Rightarrow> result) \<Rightarrow> nat list \<Rightarrow> serverGroup \<Rightarrow> bool \<times> serverGroup" where
  "announce dial ans [] sg = (False, sg)"
| "announce dial ans (p # ps) sg =
     (let (e, s) = vs_AddServerToGroup dial (objs sg ! p) (LocalhostIPPort sg) p (ans p);
          (ok, sg') = announce dial ans ps (on_server (\<lambda>_. s) p sg) in
      (e = None \<or> ok, sg'))"

definition server_Assoc ::
  "net_env \<Rightarrow> os_env \<Rightarrow> fs \<Rightarrow> string list \<Rightarrow> time \<Rightarrow> udp_net \<Rightarrow> dialer \<Rightarrow> (bytes \<Rightarrow> string + serializableServerGroup) \<Rightarrow>
   result \<Rightarrow> (nat \<Rightarrow> result) \<Rightarrow> string \<Rightarrow> int \<Rightarrow> string \<Rightarrow> u64 \<Rightarrow> bool \<Rightarrow> string \<Rightarrow> dbServer go" where
  "server_Assoc ne os d files now net dial jd conf ans ip port path sz openDB addr =
     bindG (sg_Assoc dial jd conf addr (local_addr ip port)) (\<lambda>x. case x of
       Inl e \<Rightarrow> Panic (Raised e)
     | Inr sg0 \<Rightarrow>
         bindG (core_New path sz (numChunks sg0)) (\<lambda>c0.
         bindG (if openDB then core_Open os d files c0 else Ret c0) (\<lambda>c.
         let (ok, sg1) = announce dial ans (Servers sg0) sg0 in
         if \<not> ok then Panic (Raised ''None add server to group ACK recieved'')
         else bindG (hb_Start (snd (AddServerToGroup sg1 (local_addr ip port))) now net) (\<lambda>h.
           bindG (com_Start ne ip port) (\<lambda>cs. Ret (start_server c d h cs))))))"

definition server_Stop :: "os_env \<Rightarrow> dbServer \<Rightarrow> dbServer go" where
  "server_Stop os s =
     (let h = hb_Stop (srv_hb s) in
      bindG (core_Close os (srv_disk s) (srv_core s)) (\<lambda>(c, d).
      Ret (s\<lparr>srv_stopped := True, srv_hb := h\<lparr>hb_sg := sg_Stop (hb_sg h)\<rparr>, srv_com := com_Stop (srv_com s),
              srv_core := c, srv_disk := d\<rparr>)))"

section \<open>Invariant\<close>

definition server_inv :: "dbServer \<Rightarrow> bool" where
  "server_inv s \<longleftrightarrow> core_inv (srv_core s) \<and> sg_inv (srv_sg s) \<and> numChunks (srv_sg s) = int (length (chunks (srv_core s)))"

text \<open>
  The messages a server survives: a deletion has a time stamp and finds room in the channel of the
  defragmenter, and a chunk number is complete and, where it is used at once, within the chunks.
\<close>

definition names_chunk :: "dbServer \<Rightarrow> message \<Rightarrow> bool" where
  "names_chunk s m \<longleftrightarrow> 4 \<le> length (msg_Key m) \<and> uint (le_word (take 4 (msg_Key m)) :: u32) < numChunks (srv_sg s)"

definition msg_ok :: "dbServer \<Rightarrow> message \<Rightarrow> bool" where
  "msg_ok s m \<longleftrightarrow> small (msg_Key m) (msg_Value m) \<and>
     (if msg_Type m = OpGet then readable (msg_Key m)
      else if msg_Type m = OpDel then 8 \<le> length (msg_Value m) \<and> defrag_room (srv_core s)
      else if msg_Type m = OpTransfer then 4 \<le> length (msg_Key m)
      else if msg_Type m = OpGetChunkInfo \<or> msg_Type m = OpProtect then names_chunk s m
      else True)"

text \<open>
  What the other side relies on in a response: it carries the number of its request; nothing is sent
  back for an asynchronous write, the mode of the connection is echoed, questions are answered by
  a value, the start of a transfer and a new server are confirmed, a change is confirmed
  or refused, and an unknown request is refused.
\<close>

definition resp_ok :: "message \<Rightarrow> message \<Rightarrow> bool" where
  "resp_ok m r \<longleftrightarrow> msg_ID r = msg_ID m \<and> msg_Key r = [] \<and>
     (if msg_Type m = OpAsyncSet then msg_Type r = 0
      else if msg_Type m = OpSetBuffered \<or> msg_Type m = OpSetNoDelay then msg_Type r = msg_Type m
      else if msg_Type m = OpGet \<or> msg_Type m = OpGetConf then msg_Type r = OpResponse
      else if msg_Type m = OpGetChunkInfo then msg_Type r = OpResponse \<and> length (msg_Value r) = 8
      else if msg_Type m = OpTransfer \<or> msg_Type m = OpAddServerToGroup then msg_Type r = OpOK
      else if msg_Type m \<in> {OpSet, OpCAS, OpDel, OpProtect} then msg_Type r = OpOK \<and> msg_Value r = [] \<or> msg_Type r = OpErr
      else msg_Type r = OpErr)"

fun process_all :: "(serializableServerGroup \<Rightarrow> bytes) \<Rightarrow> (time \<times> message) list \<Rightarrow> dbServer \<Rightarrow> (message list \<times> dbServer) go" where
  "process_all je [] s = Ret ([], s)"
| "process_all je ((now, m) # ms) s = bindG (processMessage je now s m) (\<lambda>(r, s1).
     bindG (process_all je ms s1) (\<lambda>(rs, s2). Ret (r # rs, s2)))"

section \<open>Runs\<close>

text \<open>
  What happens on a server: it gets a message; one of the transfers in the background runs; the
  defragmenter takes the next operation from its channel. A panic in one of the goroutines is the end of the process.
\<close>

datatype srv_event = EMsg time message | ETransfer nat | EDefrag

definition run_transfer :: "dialer \<Rightarrow> nat \<Rightarrow> dbServer \<Rightarrow> dbServer go" where
  "run_transfer dial k s = (if k < length (srv_tasks s)
     then case srv_tasks s ! k of (addr, cid) \<Rightarrow> bindG (transfer dial (srv_core s) addr cid) (\<lambda>ms.
       Ret (s\<lparr>srv_tasks := take k (srv_tasks s) @ drop (Suc k) (srv_tasks s)\<rparr>))
     else Ret s)"

definition run_defrag :: "dbServer \<Rightarrow> dbServer go" where
  "run_defrag s = (case defragChannel (srv_core s) of
     [] \<Rightarrow> Ret s
   | i # q \<Rightarrow> bindG (defrag os_fine (srv_disk s) ((srv_core s)\<lparr>defragChannel := q\<rparr>) i) (\<lambda>(c, d).
       Ret ((with_core s c)\<lparr>srv_disk := d\<rparr>)))"

fun serve_event :: "(serializableServerGroup \<Rightarrow> bytes) \<Rightarrow> dialer \<Rightarrow> srv_event \<Rightarrow> dbServer \<Rightarrow> ((message \<times> message) list \<times> dbServer) go" where
  "serve_event je dial (EMsg now m) s = bindG (processMessage je now s m) (\<lambda>(r, s'). Ret ([(m, r)], s'))"
| "serve_event je dial (ETransfer k) s = bindG (run_transfer dial k s) (\<lambda>s'. Ret ([], s'))"
| "serve_event je dial EDefrag s = bindG (run_defrag s) (\<lambda>s'. Ret ([], s'))"

fun serve_events :: "(serializableServerGroup \<Rightarrow> bytes) \<Rightarrow> dialer \<Rightarrow> srv_event list \<Rightarrow> dbServer \<Rightarrow> ((message \<times> message) list \<times> dbServer) go" where
  "serve_events je dial [] s = Ret ([], s)"
| "serve_events je dial (e # es) s = bindG (serve_event je dial e s) (\<lambda>(rs, s1).
     bindG (serve_events je dial es s1) (\<lambda>(rs', s2). Ret (rs @ rs', s2)))"

text \<open>
  The events a server survives, each in the state in which it happens: a transfer of a chunk of the
  database, which is not present or can be iterated, to an address that can be reached; and the
  defragmentation of a chunk with a map that can be iterated.
\<close>

definition has_iterable :: "core \<Rightarrow> int \<Rightarrow> bool" where
  "has_iterable c i \<longleftrightarrow> (\<exists>old l. mc_pm (chunks c ! nat i) = Some old \<and> iterable old l
     \<and> st_size (pm_st old) = chunkSize c \<and> unat (sizeLimit (pm_hm old)) \<le> 2 ^ 26)"

fun event_ok :: "dialer \<Rightarrow> dbServer \<Rightarrow> srv_event \<Rightarrow> bool" where
  "event_ok dial s (EMsg now m) = msg_ok s m"
| "event_ok dial s (ETransfer k) = (k < length (srv_tasks s) \<longrightarrow> (case srv_tasks s ! k of (addr, cid) \<Rightarrow>
     dial addr = None \<and> 0 \<le> cid \<and> nat cid < length (chunks (srv_core s))
     \<and> (present (chunks (srv_core s) ! nat cid) \<longrightarrow> has_iterable (srv_core s) cid)))"
| "event_ok dial s EDefrag = (\<forall>i q. defragChannel (srv_core s) = i # q \<longrightarrow>
     0 \<le> i \<and> nat i < length (chunks (srv_core s)) \<and> has_iterable (srv_core s) i)"

fun events_ok :: "(serializableServerGroup \<Rightarrow> bytes) \<Rightarrow> dialer \<Rightarrow> srv_event list \<Rightarrow> dbServer \<Rightarrow> bool" where
  "events_ok je dial [] s = True"
| "events_ok je dial (e # es) s = (event_ok dial s e \<and> (\<forall>rs s'. serve_event je dial e s = Ret (rs, s') \<longrightarrow> events_ok je dial es s'))"

definition event_messages :: "srv_event list \<Rightarrow> message list" where
  "event_messages es = List.map_filter (\<lambda>e. case e of EMsg t m \<Rightarrow> Some m | _ \<Rightarrow> None) es"

section \<open>Lemmas\<close>

lemma core_lengths:
  "core_Set c k v = Ret (e, c') \<Longrightarrow> length (chunks c') = length (chunks c)"
  "core_CAS c k v f = Ret (e, c') \<Longrightarrow> length (chunks c') = length (chunks c)"
  "ChunkSetProtected c i t = Ret (e, c') \<Longrightarrow> length (chunks c') = length (chunks c)"
  by (auto simp: core_Set_def core_CAS_def ChunkSetProtected_def bindG_eq_Ret split: if_splits option.splits)

lemma with_core_sel [simp]:
  "srv_core (with_core s c) = c" "srv_hb (with_core s c) = srv_hb s" "srv_stopped (with_core s c) = srv_stopped s"
  by (simp_all add: with_core_def)

lemma with_core_inv:
  "server_inv s \<Longrightarrow> core_inv c \<Longrightarrow> length (chunks c) = length (chunks (srv_core s)) \<Longrightarrow> server_inv (with_core s c)"
  by (simp add: server_inv_def)

lemma reply_sel [simp]:
  "msg_Type (reply m t v) = t" "msg_ID (reply m t v) = msg_ID m" "msg_Key (reply m t v) = []" "msg_Value (reply m t v) = v"
  by (simp_all add: reply_def)

lemma reply_err_ok: "msg_Type m \<in> {OpSet, OpCAS, OpDel, OpProtect} \<Longrightarrow> resp_ok m (reply_err m e)"
  by (auto simp: resp_ok_def reply_err_def op_codes split: option.splits)

text \<open>A message is handled well: a response of the right form, and the server goes on.\<close>

definition handled :: "dbServer \<Rightarrow> message \<Rightarrow> (message \<times> dbServer) go \<Rightarrow> bool" where
  "handled s m x \<longleftrightarrow> (\<exists>r s'. x = Ret (r, s') \<and> resp_ok m r \<and> server_inv s'
     \<and> numChunks (srv_sg s') = numChunks (srv_sg s) \<and> srv_stopped s' = srv_stopped s)"

lemma handled_core:
  assumes "server_inv s" and "core_inv c" and "length (chunks c) = length (chunks (srv_core s))" and "resp_ok m r"
  shows "handled s m (Ret (r, with_core s c))"
  using assms with_core_inv by (simp add: handled_def)

lemma handled_same: "server_inv s \<Longrightarrow> resp_ok m r \<Longrightarrow> handled s m (Ret (r, s))"
  by (simp add: handled_def)

lemma cas_synched_Ret:
  assumes "server_inv s"
  shows "\<exists>b. cas_synched (srv_core s) (srv_sg s) key = Ret b"
proof -
  have inv: "core_inv (srv_core s)" "sg_inv (srv_sg s)" "numChunks (srv_sg s) = int (length (chunks (srv_core s)))"
    using assms by (simp_all add: server_inv_def)
  have "int (slot (srv_core s) key) < numChunks (srv_sg s)" using slot_less [OF inv(1)] inv(3) by simp
  then show ?thesis using IsSynched_eq [OF inv(2), of "int (slot (srv_core s) key)"] slot_less [OF inv(1)]
    by (auto simp: cas_synched_def key_chunk_slot [OF inv(1)] get_chunk_Ret)
qed

lemma protect_ok:
  assumes inv: "server_inv s" and cid: "0 \<le> cid" "cid < numChunks (srv_sg s)"
  shows "\<exists>e s'. protect_chunk s now cid = Ret (e, s') \<and> server_inv s' \<and> srv_sg s' = srv_sg s \<and> srv_stopped s' = srv_stopped s"
proof -
  have i: "core_inv (srv_core s)" "int (length (sg_chunks (srv_sg s))) = numChunks (srv_sg s)" "nat cid < length (chunks (srv_core s))"
    using inv cid by (auto simp: server_inv_def sg_inv_def)
  obtain e c where c: "ChunkSetProtected (srv_core s) cid now = Ret (e, c)" "core_inv c"
    using chunk_steps(3) [OF i(1) cid(1) i(3)] by blast
  then have "server_inv (with_core s c)" using inv core_lengths(3) by (intro with_core_inv) simp_all
  then show ?thesis using c(1) inv cid i(2) by (simp add: protect_chunk_def NumHolders_def)
qed

lemma process_set:
  assumes inv: "server_inv s" and sm: "small (msg_Key m) (msg_Value m)" and r: "\<And>e. resp_ok m (f e)"
  shows "handled s m (bindG (core_Set (srv_core s) (msg_Key m) (msg_Value m)) (\<lambda>(e, c'). Ret (f e, with_core s c')))"
proof -
  have "core_inv (srv_core s)" using inv by (simp add: server_inv_def)
  then obtain e c' where "core_Set (srv_core s) (msg_Key m) (msg_Value m) = Ret (e, c')" "core_inv c'"
    using sm by (rule core_Set_step)
  then show ?thesis using handled_core [OF inv _ core_lengths(1) r] by simp
qed

lemma process_cas:
  assumes inv: "server_inv s" and sm: "small (msg_Key m) (msg_Value m)" and r: "\<And>e. resp_ok m (f e)"
  shows "handled s m (bindG (cas_synched (srv_core s) (srv_sg s) (msg_Key m)) (\<lambda>ok.
        bindG (core_CAS (srv_core s) (msg_Key m) (msg_Value m) (\<lambda>_. ok)) (\<lambda>(e, c'). Ret (f e, with_core s c'))))"
proof -
  have ci: "core_inv (srv_core s)" using inv by (simp add: server_inv_def)
  obtain b where b: "cas_synched (srv_core s) (srv_sg s) (msg_Key m) = Ret b" using cas_synched_Ret [OF inv] by blast
  obtain e c' where "core_CAS (srv_core s) (msg_Key m) (msg_Value m) (\<lambda>_. b) = Ret (e, c')" "core_inv c'"
    using ci sm by (rule core_CAS_step)
  then show ?thesis using b handled_core [OF inv _ core_lengths(2) r] by simp
qed

lemma process_del:
  assumes inv: "server_inv s" and sm: "small (msg_Key m) []" and v: "8 \<le> length (msg_Value m)"
    and room: "defrag_room (srv_core s)" and r: "\<And>e. resp_ok m (f e)"
  shows "handled s m (bindG (core_Delete (srv_core s) (msg_Key m) (msg_Value m)) (\<lambda>(e, c'). Ret (f e, with_core s c')))"
proof -
  have ci: "core_inv (srv_core s)" using inv by (simp add: server_inv_def)
  obtain e c' where "core_Delete (srv_core s) (msg_Key m) (msg_Value m) = Ret (e, c')" "core_inv c'"
    "length (chunks c') = length (chunks (srv_core s))"
    using ci v sm core_Delete_room [OF ci v sm room] by (rule core_Delete_step)
  then show ?thesis using handled_core [OF inv _ _ r] by simp
qed

lemma process_chunk:
  assumes inv: "server_inv s" and nc: "names_chunk s m"
  shows "msg_Type m = OpGetChunkInfo \<Longrightarrow> handled s m (bindG (Uint32 (msg_Key m)) (\<lambda>cid. bindG (LengthOfChunk (srv_core s) (uint cid)) (\<lambda>n.
        Ret (reply m OpResponse (le64 n), s))))"
    and "msg_Type m = OpProtect \<Longrightarrow> handled s m (bindG (Uint32 (msg_Key m)) (\<lambda>cid.
        bindG (protect_chunk s now (uint cid)) (\<lambda>(e, s'). Ret (reply_err m e, s'))))"
proof -
  define cid where "cid = uint (le_word (take 4 (msg_Key m)) :: u32)"
  have u: "Uint32 (msg_Key m) = Ret (le_word (take 4 (msg_Key m)))" using nc by (simp add: names_chunk_def Uint32_def)
  have c: "0 \<le> cid" "cid < numChunks (srv_sg s)" using nc by (simp_all add: cid_def names_chunk_def)
  have i: "nat cid < length (chunks (srv_core s))" "core_inv (srv_core s)" using inv c by (auto simp: server_inv_def)
  have g: "get_chunk (srv_core s) cid = Ret (chunks (srv_core s) ! nat cid)" using c(1) i(1) by (simp add: get_chunk_eq)
  have "chunk_ok (chunks (srv_core s) ! nat cid)" using i(2,1) by (rule core_chunk)
  then have "\<exists>n. LengthOfChunk (srv_core s) cid = Ret n" using g by (auto simp: LengthOfChunk_def chunk_ok_def split: option.splits)
  then show "handled s m (bindG (Uint32 (msg_Key m)) (\<lambda>cid. bindG (LengthOfChunk (srv_core s) (uint cid)) (\<lambda>n.
        Ret (reply m OpResponse (le64 n), s))))" if t: "msg_Type m = OpGetChunkInfo"
    using u inv t by (auto simp: cid_def handled_def resp_ok_def op_codes)
  have "resp_ok m (reply_err m e)" if "msg_Type m = OpProtect" for e using that by (intro reply_err_ok) simp
  then show "handled s m (bindG (Uint32 (msg_Key m)) (\<lambda>cid.
        bindG (protect_chunk s now (uint cid)) (\<lambda>(e, s'). Ret (reply_err m e, s'))))" if "msg_Type m = OpProtect"
    using that u protect_ok [OF inv c, of now] by (auto simp: cid_def handled_def)
qed

lemma process_add:
  assumes inv: "server_inv s" and t: "msg_Type m = OpAddServerToGroup"
  shows "handled s m (Ret (reply m OpOK [],
    s\<lparr>srv_hb := GossipAdded a (h\<lparr>hb_sg := snd (AddServerToGroup (srv_sg s) a), hb_now := now\<rparr>)\<rparr>))"
  using inv t AddServerToGroup_inv by (simp add: handled_def server_inv_def resp_ok_def AddServerToGroup_frame op_codes)

lemma process_ok:
  assumes inv: "server_inv s" and ok: "msg_ok s m" and run: "\<not> srv_stopped s"
  shows "handled s m (processMessage je now s m)"
proof -
  have sm: "small (msg_Key m) (msg_Value m)" using ok by (simp add: msg_ok_def)
  then have sm': "small (msg_Key m) []" by (simp add: small_def)
  let ?t = "msg_Type m"
  note d = processMessage_def Let_def
  consider "?t = OpGet" | "?t = OpSet" | "?t = OpAsyncSet" | "?t = OpCAS" | "?t = OpDel" | "?t = OpTransfer"
    | "?t = OpAddServerToGroup" | "?t = OpGetChunkInfo" | "?t = OpProtect"
    | "?t \<notin> {OpGet, OpSet, OpAsyncSet, OpCAS, OpDel, OpTransfer, OpAddServerToGroup, OpGetChunkInfo, OpProtect}" by blast
  then show ?thesis
  proof cases
    case 1
    then have "core_Get (srv_core s) (msg_Key m) = Ret (core_abs (srv_core s) (msg_Key m), if holds (srv_core s) (msg_Key m) then None else Some not_present)"
      using inv ok by (intro core_Get_abs) (simp_all add: server_inv_def msg_ok_def)
    then show ?thesis using 1 run inv unfolding d by (auto simp: handled_def resp_ok_def op_codes)
  next
    case 2
    then show ?thesis using process_set [OF inv sm reply_err_ok] run unfolding d by (simp add: op_codes)
  next
    case 3
    then have "resp_ok m (reply m 0 [])" by (simp add: resp_ok_def)
    from process_set [OF inv sm this] show ?thesis using 3 run unfolding d by (simp add: op_codes)
  next
    case 4
    then show ?thesis using process_cas [OF inv sm reply_err_ok] run unfolding d by (simp add: op_codes)
  next
    case 5
    then have v: "8 \<le> length (msg_Value m)" "defrag_room (srv_core s)" using ok by (simp_all add: msg_ok_def op_codes)
    show ?thesis using 5 process_del [OF inv sm' v reply_err_ok] run unfolding d by (simp add: op_codes)
  next
    case 6
    then show ?thesis using inv ok run unfolding d
      by (simp add: op_codes handled_def server_inv_def resp_ok_def msg_ok_def Uint32_def)
  next
    case 7
    then show ?thesis using process_add [OF inv 7] run unfolding d by (simp add: op_codes)
  next
    case 8
    then have "names_chunk s m" using ok by (simp add: msg_ok_def op_codes)
    from process_chunk(1) [OF inv this] show ?thesis using 8 run unfolding d by (simp add: op_codes)
  next
    case 9
    then have "names_chunk s m" using ok by (simp add: msg_ok_def op_codes)
    from process_chunk(2) [OF inv this] show ?thesis using 9 run unfolding d by (simp add: op_codes)
  next
    case 10
    then show ?thesis using inv run unfolding d by (auto simp: handled_def resp_ok_def op_codes)
  qed
qed

text \<open>What a transfer sends.\<close>

lemma transfer_run:
  "\<exists>ms'. run_each transfer_pair ps (i, ms) = Ret (i + length ps, ms @ ms')
    \<and> map (\<lambda>b. (msg_Key (mess b), msg_Value (mess b))) ms' = ps
    \<and> (\<forall>b\<in>set ms'. msg_Type (mess b) \<in> {OpSet, OpAsyncSet})"
proof (induction ps arbitrary: i ms)
  case (Cons p ps)
  obtain k v where p: "p = (k, v)" by fastforce
  define b where "b = client_Set k v (if i mod 100 = 0 then halfSecond else 0) i"
  have b: "msg_Key (mess b) = k" "msg_Value (mess b) = v" "msg_Type (mess b) \<in> {OpSet, OpAsyncSet}"
    by (auto simp: b_def client_Set_def conn_send_msg_def Let_def)
  have t: "transfer_pair k v (i, ms) = Ret (True, i + 1, ms @ [b])" by (simp add: transfer_pair_def b_def)
  obtain ms' where ms': "run_each transfer_pair ps (i + 1, ms @ [b]) = Ret (i + 1 + length ps, (ms @ [b]) @ ms')"
    "map (\<lambda>b. (msg_Key (mess b), msg_Value (mess b))) ms' = ps" "\<forall>b\<in>set ms'. msg_Type (mess b) \<in> {OpSet, OpAsyncSet}"
    using Cons.IH [of "i + 1" "ms @ [b]"] by blast
  then show ?case using b t by (intro exI [of _ "b # ms'"]) (simp add: p)
qed simp

lemma transfer_sends:
  assumes "dial addr = None" and "i < length (chunks c)" and "present (chunks c ! i)" and "mc_pm (chunks c ! i) = Some old"
    and "iterable old l"
  obtains ms where "transfer dial c addr (int i) = Ret ms"
    and "map (\<lambda>b. (msg_Key (mess b), msg_Value (mess b))) ms = survivors l"
    and "\<forall>b\<in>set ms. msg_Type (mess b) \<in> {OpSet, OpAsyncSet}"
proof -
  obtain ms where "run_each transfer_pair (survivors l) (0, []) = Ret (0 + length (survivors l), [] @ ms)"
    "map (\<lambda>b. (msg_Key (mess b), msg_Value (mess b))) ms = survivors l" "\<forall>b\<in>set ms. msg_Type (mess b) \<in> {OpSet, OpAsyncSet}"
    using transfer_run by blast
  then show thesis using assms
    by (intro that [of ms]) (simp_all add: transfer_def core_Iterate_def get_chunk_Ret Iterate_run)
qed

text \<open>What the destination does with it, when its chunk has the map \<open>pm\<close>.\<close>

lemma defrag_pair_Ret: "defrag_pair k v pm = Ret (b, pm') \<longleftrightarrow> b \<and> pm_Set pm (FNV1a64 k) k v = Ret (None, pm')"
  by (auto simp: defrag_pair_def bindG_eq_Ret split: option.splits)

lemma process_write:
  assumes inv: "core_inv (srv_core t)" and run: "\<not> srv_stopped t" and slot: "slot (srv_core t) (msg_Key m) = i"
    and ty: "msg_Type m \<in> {OpSet, OpAsyncSet}" and pr: "present (chunks (srv_core t) ! i)"
    and pm: "mc_pm (chunks (srv_core t) ! i) = Some pm" and def: "defrag_pair (msg_Key m) (msg_Value m) pm = Ret (True, pm')"
  shows "\<exists>r. processMessage je now t m = Ret (r, with_core t (set_chunk (srv_core t) (int i) ((chunks (srv_core t) ! i)\<lparr>mc_pm := Some pm'\<rparr>)))
    \<and> msg_Type r \<in> {OpOK, 0}"
proof -
  have "pm_Set pm (FNV1a64 (msg_Key m)) (msg_Key m) (msg_Value m) = Ret (None, pm')"
    using def by (simp add: defrag_pair_Ret)
  moreover have "i < length (chunks (srv_core t))" using slot_less [OF inv] slot by blast
  ultimately have "core_Set (srv_core t) (msg_Key m) (msg_Value m)
      = Ret (None, set_chunk (srv_core t) (int i) ((chunks (srv_core t) ! i)\<lparr>mc_pm := Some pm'\<rparr>))"
    using pr pm by (simp add: core_Set_def key_chunk_slot [OF inv] slot get_chunk_Ret)
  then show ?thesis using ty run by (auto simp: processMessage_def Let_def reply_err_def op_codes)
qed

lemma process_writes:
  assumes "core_inv (srv_core t)" and "\<not> srv_stopped t" and "present (chunks (srv_core t) ! i)"
    and "mc_pm (chunks (srv_core t) ! i) = Some pm" and "pm_inv pm"
    and "\<forall>m\<in>set ms. slot (srv_core t) (msg_Key m) = i \<and> msg_Type m \<in> {OpSet, OpAsyncSet} \<and> small (msg_Key m) (msg_Value m)"
    and "run_each defrag_pair (map (\<lambda>m. (msg_Key m, msg_Value m)) ms) pm = Ret pm'"
    and "i < length (chunks (srv_core t))"
  shows "\<exists>rs t'. process_all je (map (\<lambda>m. (now, m)) ms) t = Ret (rs, t') \<and> (\<forall>r\<in>set rs. msg_Type r \<in> {OpOK, 0})
    \<and> mc_pm (chunks (srv_core t') ! i) = Some pm' \<and> present (chunks (srv_core t') ! i)
    \<and> length (chunks (srv_core t')) = length (chunks (srv_core t))"
  using assms
proof (induction ms arbitrary: t pm)
  case (Cons m ms)
  let ?c = "srv_core t"
  obtain pm1 where pm1: "defrag_pair (msg_Key m) (msg_Value m) pm = Ret (True, pm1)"
    "run_each defrag_pair (map (\<lambda>m. (msg_Key m, msg_Value m)) ms) pm1 = Ret pm'"
    using Cons.prems(7) by (auto simp: bindG_eq_Ret defrag_pair_Ret split: if_splits)
  have m: "slot ?c (msg_Key m) = i" "msg_Type m \<in> {OpSet, OpAsyncSet}" "small (msg_Key m) (msg_Value m)" using Cons.prems(6) by simp_all
  define t1 where "t1 = with_core t (set_chunk ?c (int i) ((chunks ?c ! i)\<lparr>mc_pm := Some pm1\<rparr>))"
  obtain r where r: "processMessage je now t m = Ret (r, t1)" "msg_Type r \<in> {OpOK, 0}"
    using process_write [OF Cons.prems(1,2) m(1,2) Cons.prems(3,4) pm1(1)] unfolding t1_def by blast
  have "pm_Set pm (FNV1a64 (msg_Key m)) (msg_Key m) (msg_Value m) = Ret (None, pm1)"
    using pm1(1) by (simp add: defrag_pair_Ret)
  then have inv1: "pm_inv pm1" using Cons.prems(5) set_step [OF _ m(3)] by (fastforce simp: pm_inv_def step_to_def)
  have "chunk_ok (chunks ?c ! i)" using Cons.prems(1,8) by (rule core_chunk)
  then have "core_inv (srv_core t1)"
    unfolding t1_def with_core_sel using Cons.prems(3,8) inv1
    by (intro set_chunk_same [OF Cons.prems(1)]) (auto simp: chunk_ok_def)
  moreover have "slot (srv_core t1) k = slot ?c k" for k by (simp add: t1_def slot_def)
  ultimately obtain rs t' where "process_all je (map (\<lambda>m. (now, m)) ms) t1 = Ret (rs, t')" "\<forall>r\<in>set rs. msg_Type r \<in> {OpOK, 0}"
    "mc_pm (chunks (srv_core t') ! i) = Some pm'" "present (chunks (srv_core t') ! i)"
    "length (chunks (srv_core t')) = length (chunks (srv_core t1))"
    using Cons.IH [of t1 pm1] Cons.prems inv1 pm1(2) by (auto simp: t1_def set_chunk_def)
  then show ?case using r by (auto simp: t1_def)
qed simp

lemma log_member_size: "(k, v) \<in> set l \<Longrightarrow> length k + length v \<le> log_size l"
  by (induction l) (auto simp: rec_size_def)

lemma survivors_small:
  assumes "pm_rep pm l" and "(k, v) \<in> set (survivors l)"
  shows "small k v"
proof -
  have st: "store_inv (pm_st pm) l" using assms(1) by (simp add: pm_rep_def)
  have "length k + length v \<le> log_size l" using assms(2) survivors_subset log_member_size by blast
  also have "\<dots> \<le> unat (st_length (pm_st pm))" using store_inv_mapped(4) [OF st] by simp
  also have "\<dots> \<le> 2 ^ 32" using st by (auto simp: store_inv_def)
  finally show ?thesis by (simp add: small_def)
qed

text \<open>What a server does keeps it well formed.\<close>

lemma run_transfer_ok:
  assumes inv: "server_inv s" and ok: "event_ok dial s (ETransfer k)"
  shows "\<exists>ts. run_transfer dial k s = Ret (s\<lparr>srv_tasks := ts\<rparr>)"
proof (cases "k < length (srv_tasks s)")
  case True
  obtain addr cid where t: "srv_tasks s ! k = (addr, cid)" by fastforce
  define i where "i = nat cid"
  have i: "cid = int i" "i < length (chunks (srv_core s))" "dial addr = None"
    "present (chunks (srv_core s) ! i) \<longrightarrow> has_iterable (srv_core s) (int i)"
    using ok True t by (simp_all add: i_def)
  have "\<exists>ms. transfer dial (srv_core s) addr cid = Ret ms"
  proof (cases "present (chunks (srv_core s) ! i)")
    case True
    then obtain old l where o: "mc_pm (chunks (srv_core s) ! i) = Some old" "iterable old l"
      using i(4) by (auto simp: has_iterable_def)
    show ?thesis using transfer_sends [where dial = dial, OF i(3,2) True o] i(1) by metis
  next
    case False
    then show ?thesis using i by (simp add: transfer_def core_Iterate_def get_chunk_Ret)
  qed
  then show ?thesis using True t by (auto simp: run_transfer_def)
next
  case False
  then show ?thesis by (auto simp: run_transfer_def intro: exI [of _ "srv_tasks s"])
qed

lemma run_defrag_ok:
  assumes inv: "server_inv s" and ok: "event_ok dial s EDefrag"
  shows "\<exists>s'. run_defrag s = Ret s' \<and> server_inv s' \<and> srv_stopped s' = srv_stopped s"
proof (cases "defragChannel (srv_core s)")
  case Nil
  then show ?thesis using inv by (simp add: run_defrag_def)
next
  case (Cons j q)
  let ?c = "(srv_core s)\<lparr>defragChannel := q\<rparr>"
  define i where "i = nat j"
  have i: "j = int i" "i < length (chunks ?c)" using ok Cons by (simp_all add: i_def)
  obtain old l where o: "mc_pm (chunks ?c ! i) = Some old" "iterable old l" "st_size (pm_st old) = chunkSize ?c"
    "unat (sizeLimit (pm_hm old)) \<le> 2 ^ 26"
    using ok Cons by (auto simp: has_iterable_def i_def)
  have "core_inv ?c" using inv by (simp add: server_inv_def)
  from defrag_run [OF this i(2) o, of "srv_disk s"] obtain c d where
    c: "defrag os_fine (srv_disk s) ?c (int i) = Ret (c, d)" "core_inv c" "length (chunks c) = length (chunks ?c)"
    by (elim exE conjE that)
  then have "server_inv ((with_core s c)\<lparr>srv_disk := d\<rparr>)" using inv by (simp add: server_inv_def with_core_def)
  then show ?thesis using Cons c(1) i(1) by (simp add: run_defrag_def with_core_def)
qed

lemma serve_event_ok:
  assumes inv: "server_inv s" and run: "\<not> srv_stopped s" and ok: "event_ok dial s e"
  shows "\<exists>rs s'. serve_event je dial e s = Ret (rs, s') \<and> server_inv s' \<and> \<not> srv_stopped s'
    \<and> map fst rs = event_messages [e] \<and> (\<forall>(m, r) \<in> set rs. resp_ok m r)"
proof (cases e)
  case (EMsg now m)
  then have "handled s m (processMessage je now s m)" using inv ok run by (intro process_ok) simp_all
  then show ?thesis using EMsg run by (auto simp: handled_def event_messages_def List.map_filter_def)
next
  case (ETransfer k)
  then obtain ts where "run_transfer dial k s = Ret (s\<lparr>srv_tasks := ts\<rparr>)" using run_transfer_ok inv ok by blast
  then show ?thesis using ETransfer inv run by (simp add: event_messages_def List.map_filter_def server_inv_def)
next
  case EDefrag
  then obtain s' where "run_defrag s = Ret s'" "server_inv s'" "srv_stopped s' = srv_stopped s" using run_defrag_ok inv ok by blast
  then show ?thesis using EDefrag run by (simp add: event_messages_def List.map_filter_def)
qed

lemma serve_events_ok:
  assumes "server_inv s" and "\<not> srv_stopped s" and "events_ok je dial es s"
  shows "\<exists>rs s'. serve_events je dial es s = Ret (rs, s') \<and> server_inv s' \<and> map fst rs = event_messages es
    \<and> (\<forall>(m, r) \<in> set rs. resp_ok m r)"
  using assms
proof (induction es arbitrary: s)
  case Nil
  then show ?case by (simp add: event_messages_def List.map_filter_def)
next
  case (Cons e es)
  have "event_ok dial s e" using Cons.prems(3) by simp
  from serve_event_ok [OF Cons.prems(1,2) this, of je] obtain rs s1 where s1: "serve_event je dial e s = Ret (rs, s1)"
    "server_inv s1" "\<not> srv_stopped s1" "map fst rs = event_messages [e]" "\<forall>(m, r) \<in> set rs. resp_ok m r" by blast
  then have "events_ok je dial es s1" using Cons.prems(3) by simp
  from Cons.IH [OF s1(2,3) this] obtain rs' s2 where s2: "serve_events je dial es s1 = Ret (rs', s2)" "server_inv s2"
    "map fst rs' = event_messages es" "\<forall>(m, r) \<in> set rs'. resp_ok m r" by blast
  have "event_messages (e # es) = event_messages [e] @ event_messages es"
    by (simp add: event_messages_def List.map_filter_def)
  then show ?case using s1 s2 by auto
qed

text \<open>
  A transfer to an address that cannot be reached ends the process: the connection is closed whether or
  not there is one. The message that asks for it is confirmed before.
\<close>

lemma transfer_kills:
  assumes "\<not> srv_stopped s" and "msg_Type m = OpTransfer" and "4 \<le> length (msg_Key m)" and "dial (string_of (msg_Value m)) \<noteq> None"
    and "srv_tasks s = []"
  shows "serve_events je dial [EMsg now m, ETransfer 0] s = Panic NilPointer"
  using assms by (auto simp: processMessage_def Let_def op_codes Uint32_def run_transfer_def transfer_def)

text \<open>The announced list does not change which chunks are present.\<close>

lemma present_list_present: "present_list clock i mcs = Ret (ids, mcs') \<Longrightarrow> map present mcs' = map present mcs"
proof (induction mcs arbitrary: i ids mcs')
  case (Cons mc mcs)
  then show ?case
    by (auto simp: bindG_eq_Ret Let_def split: if_splits option.splits prod.splits)
qed simp

lemma report_ok:
  assumes inv: "core_inv c"
  shows "\<exists>l c'. report clock c = Ret (l, c') \<and> core_inv c' \<and> map present (chunks c') = map present (chunks c)
    \<and> ids_ok (int (length (chunks c))) l \<and> map chunk_ID l = map int (filter (\<lambda>j. present (chunks c ! j)) [0..<length (chunks c)])"
proof -
  obtain ids c' where c': "PresentChunksList c clock = Ret (ids, c')" "core_inv c'"
    "map fst ids = filter (\<lambda>j. present (chunks c ! j)) [0..<length (chunks c)]"
    using PresentChunksList_Ret [OF inv] by blast
  let ?l = "map (\<lambda>(i, x). \<lparr>chunk_ID = int i, chunk_Checksum = x\<rparr>) ids"
  have ids: "map chunk_ID ?l = map int (map fst ids)" by (induction ids) auto
  have "map present (chunks c') = map present (chunks c)"
    using c'(1) by (auto simp: PresentChunksList_def bindG_eq_Ret dest!: present_list_present split: if_splits)
  moreover have "j < length (chunks c)" if "(j, x) \<in> set ids" for j x
  proof -
    have "j \<in> set (map fst ids)" using that by force
    then show ?thesis unfolding c'(3) by simp
  qed
  then have "ids_ok (int (length (chunks c))) ?l" by (auto simp: ids_ok_def list_all_iff)
  ultimately show ?thesis using c' ids by (simp add: report_def)
qed

text \<open>A chunk that was just made present has a new map.\<close>

lemma fresh_chunk:
  assumes "ChunkSetPresent os d c0 (int i) = Ret (c1, d1)" and "i < length (chunks c0)" and "\<not> present (chunks c0 ! i)"
  obtains pm where "pm_New os d (chunkPath c0 (int i) 0) (chunkSize c0) = Ret (pm, d1)"
    and "mc_pm (chunks c1 ! i) = Some pm" and "present (chunks c1 ! i)" and "length (chunks c1) = length (chunks c0)"
proof -
  from assms obtain pm where "pm_New os d (chunkPath c0 (int i) 0) (chunkSize c0) = Ret (pm, d1)"
    "c1 = (set_chunk c0 (int i) ((chunks c0 ! i)\<lparr>mc_pm := Some pm, present := True\<rparr>))\<lparr>knownChunks := knownChunks c0 + 1\<rparr>"
    by (auto simp: ChunkSetPresent_def get_chunk_Ret bindG_eq_Ret)
  then show thesis using assms(2) by (intro that) (simp_all add: set_chunk_def)
qed

section \<open>Properties\<close>


definition ex_com :: comServer where
  "ex_com = \<lparr>cs_localIP = ''a'', tcpListener = True, udpListener = True, cs_stopped = False\<rparr>"

definition ex_server :: "pmap \<Rightarrow> dbServer" where
  "ex_server pm = start_server (ex_core pm) Map.empty ex_hb ex_com"

lemma ex_server_inv: "pm_inv pm \<Longrightarrow> server_inv (ex_server pm)"
  using ex_core_inv ex_hb_ok
  by (simp add: server_inv_def ex_server_def start_server_def hb_ok_def) (simp add: ex_hb_def hb_new_def ex_core_def)

lemma events_ok_Cons:
  "event_ok dial s e \<Longrightarrow> serve_event je dial e s = Ret (rs, s') \<Longrightarrow> events_ok je dial es s' \<Longrightarrow> events_ok je dial (e # es) s"
  by simp

definition ex_events :: "srv_event list" where
  "ex_events = [EMsg 1 \<lparr>msg_Type = OpProtect, msg_ID = 8, msg_Key = [0, 0, 0, 0], msg_Value = []\<rparr>,
     EMsg 2 \<lparr>msg_Type = OpTransfer, msg_ID = 9, msg_Key = [0, 0, 0, 0], msg_Value = []\<rparr>, ETransfer 0, EDefrag,
     EMsg 3 \<lparr>msg_Type = OpSet, msg_ID = 7, msg_Key = ex_key, msg_Value = ex_val 6\<rparr>]"




end
