(* ===== verification/DB_Client.thy ===== *)
theory DB_Client
  imports DB_Server
begin

text \<open>
  The client (src/client/client.go): it sends each operation to all the holders of the chunk of the
  key. A read returns the newest answer and repairs the older ones; a compare-and-swap goes to the
  holder with the highest rank first.
\<close>

section \<open>State\<close>

text \<open>The server group is the one of the heartbeater.\<close>

record dbClient =
  cl_hb :: heartbeater
  GetTimeout :: int
  SetTimeout :: int
  DelTimeout :: int
  CASTimeout :: int

abbreviation cl_sg :: "dbClient \<Rightarrow> serverGroup" where
  "cl_sg c \<equiv> hb_sg (cl_hb c)"

definition with_cl_sg :: "dbClient \<Rightarrow> serverGroup \<Rightarrow> dbClient" where
  "with_cl_sg c sg = c\<lparr>cl_hb := (cl_hb c)\<lparr>hb_sg := sg\<rparr>\<rparr>"

definition client_Connect ::
  "dialer \<Rightarrow> (bytes \<Rightarrow> string + serializableServerGroup) \<Rightarrow> result \<Rightarrow> time \<Rightarrow> udp_net \<Rightarrow> string \<Rightarrow> (string + dbClient) go" where
  "client_Connect dial jd conf now net addr = bindG (sg_Assoc dial jd conf addr []) (\<lambda>x. case x of
     Inl e \<Rightarrow> Ret (Inl e)
   | Inr sg \<Rightarrow> bindG (hb_Start sg now net) (\<lambda>h.
       Ret (Inr \<lparr>cl_hb = h, GetTimeout = halfSecond, SetTimeout = halfSecond, DelTimeout = halfSecond, CASTimeout = halfSecond\<rparr>)))"

section \<open>Sending to the holders\<close>

text \<open>
  The array of holders is walked once; for each holder the request \<open>f\<close> is sent. The outcome of a slot
  is \<open>None\<close> for no holder, \<open>Some None\<close> when the request is on its way, and an error otherwise.
\<close>

fun send_each :: "(nat \<Rightarrow> virtualServer \<Rightarrow> (err \<times> virtualServer) go) \<Rightarrow> nat option list \<Rightarrow> serverGroup \<Rightarrow> (err option list \<times> serverGroup) go" where
  "send_each f [] sg = Ret ([], sg)"
| "send_each f (h # ps) sg = (case h of
     None \<Rightarrow> bindG (send_each f ps sg) (\<lambda>(xs, sg'). Ret (None # xs, sg'))
   | Some p \<Rightarrow> bindG (f p (objs sg ! p)) (\<lambda>(e, v).
       bindG (send_each f ps (on_server (\<lambda>_. v) p sg)) (\<lambda>(xs, sg'). Ret (Some e # xs, sg'))))"

definition chunk_holders :: "serverGroup \<Rightarrow> bytes \<Rightarrow> nat option list go" where
  "chunk_holders sg key = bindG (GetChunkID key (numChunks sg)) (\<lambda>cid. GetChunkHolders sg cid)"

section \<open>Get\<close>

text \<open>
  The loop over the answers: \<open>(valid, r)\<close> says whether the request was sent and what came back. The
  state is the newest value so far, its time, and whether there was an answer; the list is the time
  of each slot.
\<close>

fun gather :: "(bool \<times> result) list \<Rightarrow> bytes option \<Rightarrow> time \<Rightarrow> bool \<Rightarrow> time list \<times> bytes option \<times> time \<times> bool" where
  "gather [] v lt rd = ([], v, lt, rd)"
| "gather ((valid, r) # xs) v lt rd =
     (if \<not> valid \<or> r_Err r \<noteq> None then (case gather xs v lt rd of (ts, y) \<Rightarrow> (zero_time # ts, y))
      else if length (r_Value r) \<ge> 8 then
        let t = stamp (r_Value r) in
        (case (if lt < t then gather xs (Some (r_Value r)) t True else gather xs v lt True) of (ts, y) \<Rightarrow> (t # ts, y))
      else (case gather xs v lt True of (ts, y) \<Rightarrow> (zero_time # ts, y)))"

text \<open>Read repair: every holder whose time is older gets the newest value.\<close>

fun read_repair :: "dialer \<Rightarrow> bytes \<Rightarrow> bytes \<Rightarrow> time \<Rightarrow> (nat option \<times> time) list \<Rightarrow> serverGroup \<Rightarrow> serverGroup" where
  "read_repair dial key val lt [] sg = sg"
| "read_repair dial key val lt ((h, t) # xs) sg = read_repair dial key val lt xs (case h of
     None \<Rightarrow> sg
   | Some p \<Rightarrow> if lt > t then on_server (\<lambda>s. snd (vs_Set dial s key val 0 p)) p sg else sg)"

text \<open>\<open>ans i\<close> is the answer for slot \<open>i\<close>, if the request was sent.\<close>

definition slots :: "err option list \<Rightarrow> (nat \<Rightarrow> result) \<Rightarrow> (bool \<times> result) list" where
  "slots xs ans = map (\<lambda>i. (xs ! i = Some None, ans i)) [0..<length xs]"

definition dbc_Get :: "dialer \<Rightarrow> (nat \<Rightarrow> result) \<Rightarrow> dbClient \<Rightarrow> bytes \<Rightarrow> (bytes option \<times> time \<times> bool \<times> dbClient) go" where
  "dbc_Get dial ans c key =
     bindG (chunk_holders (cl_sg c) key) (\<lambda>ps.
     bindG (send_each (\<lambda>p s. vs_Get dial s key (GetTimeout c) p) ps (cl_sg c)) (\<lambda>(xs, sg).
     case gather (slots xs ans) None zero_time False of (ts, v, lt, rd) \<Rightarrow>
       (case v of
          None \<Rightarrow> Ret (None, lt, rd, with_cl_sg c sg)
        | Some x \<Rightarrow> bindG (slice_from x 8) (\<lambda>y.
            Ret (Some y, lt, rd, with_cl_sg c (read_repair dial key x lt (zip ps ts) sg))))))"

section \<open>Set and Del\<close>

text \<open>The last error, of a request or of an answer, and whether one answer was good.\<close>

definition send_err :: "err option list \<Rightarrow> err" where
  "send_err xs = fold (\<lambda>x e. case x of Some (Some m) \<Rightarrow> Some m | _ \<Rightarrow> e) xs None"

definition wait_all :: "(bool \<times> result) list \<Rightarrow> bool \<times> err \<Rightarrow> bool \<times> err" where
  "wait_all rs x = fold (\<lambda>(valid, r) (w, e).
     if \<not> valid then (w, e) else case r_Err r of Some m \<Rightarrow> (w, Some m) | None \<Rightarrow> (True, e)) rs x"

definition stamped :: "time \<Rightarrow> bytes \<Rightarrow> bytes" where
  "stamped now val = le64 (word_of_int now) @ val"

definition dbc_set :: "dialer \<Rightarrow> (nat \<Rightarrow> result) \<Rightarrow> time \<Rightarrow> dbClient \<Rightarrow> bytes \<Rightarrow> bytes \<Rightarrow> int \<Rightarrow> (bool \<times> err \<times> dbClient) go" where
  "dbc_set dial ans now c key val t =
     bindG (chunk_holders (cl_sg c) key) (\<lambda>ps.
     bindG (send_each (\<lambda>p s. Ret (vs_Set dial s key (stamped now val) t p)) ps (cl_sg c)) (\<lambda>(xs, sg).
     case (if t > 0 then wait_all (slots xs ans) (False, send_err xs) else (False, send_err xs)) of
       (written, e) \<Rightarrow> Ret (written, e, with_cl_sg c sg)))"

definition dbc_Set :: "dialer \<Rightarrow> (nat \<Rightarrow> result) \<Rightarrow> time \<Rightarrow> dbClient \<Rightarrow> bytes \<Rightarrow> bytes \<Rightarrow> (bool \<times> err \<times> dbClient) go" where
  "dbc_Set dial ans now c key val = dbc_set dial ans now c key val (SetTimeout c)"

definition dbc_AsyncSet :: "dialer \<Rightarrow> (nat \<Rightarrow> result) \<Rightarrow> time \<Rightarrow> dbClient \<Rightarrow> bytes \<Rightarrow> bytes \<Rightarrow> (err \<times> dbClient) go" where
  "dbc_AsyncSet dial ans now c key val = bindG (dbc_set dial ans now c key val 0) (\<lambda>(w, e, c'). Ret (e, c'))"

definition dbc_Del :: "dialer \<Rightarrow> (nat \<Rightarrow> result) \<Rightarrow> time \<Rightarrow> dbClient \<Rightarrow> bytes \<Rightarrow> (err \<times> dbClient) go" where
  "dbc_Del dial ans now c key =
     bindG (chunk_holders (cl_sg c) key) (\<lambda>ps.
     bindG (send_each (\<lambda>p s. Ret (vs_Del dial s key (stamped now []) (DelTimeout c) p)) ps (cl_sg c)) (\<lambda>(xs, sg).
     Ret (if DelTimeout c > 0 then snd (wait_all (slots xs ans) (False, send_err xs)) else send_err xs, with_cl_sg c sg)))"

section \<open>Compare and swap\<close>

definition rank :: "bytes \<Rightarrow> string \<Rightarrow> u64" where
  "rank key phy = FNV1a64 (key @ bytes_of phy)"

text \<open>The first slot with the highest rank; slot 0 when no rank is positive.\<close>

fun pick_master :: "u64 list \<Rightarrow> nat \<Rightarrow> nat \<Rightarrow> u64 \<Rightarrow> nat" where
  "pick_master [] i master mr = master"
| "pick_master (r # rs) i master mr = (if r > mr then pick_master rs (i + 1) i r else pick_master rs (i + 1) master mr)"

definition ranks :: "serverGroup \<Rightarrow> bytes \<Rightarrow> nat option list \<Rightarrow> u64 list" where
  "ranks sg key ps = map (\<lambda>h. case h of None \<Rightarrow> 0 | Some p \<Rightarrow> rank key (Phy (objs sg ! p))) ps"

definition cas_value :: "time \<Rightarrow> time \<Rightarrow> bytes \<Rightarrow> bytes \<Rightarrow> bytes" where
  "cas_value timestamp now oldValue val = le64 (word_of_int timestamp) @ le64 (FNV1a64 oldValue) @ le64 (word_of_int now) @ val"

text \<open>The slots of the slaves: all but the one of the master.\<close>

definition slaves :: "nat \<Rightarrow> nat option list \<Rightarrow> nat option list" where
  "slaves master ps = ps[master := None]"

definition dbc_CAS :: "dialer \<Rightarrow> (nat \<Rightarrow> result) \<Rightarrow> time \<Rightarrow> dbClient \<Rightarrow> bytes \<Rightarrow> bytes \<Rightarrow> time \<Rightarrow> bytes \<Rightarrow> (bool \<times> err \<times> dbClient) go" where
  "dbc_CAS dial ans now c key val timestamp oldValue =
     bindG (chunk_holders (cl_sg c) key) (\<lambda>ps.
     let v = cas_value timestamp now oldValue val; master = pick_master (ranks (cl_sg c) key ps) 0 0 0 in
     bindG (index_of ps master) (\<lambda>h. case h of
       None \<Rightarrow> Ret (False, Some ''No servers'', c)
     | Some p \<Rightarrow> bindG (vs_CAS dial (objs (cl_sg c) ! p) key v (CASTimeout c) p) (\<lambda>(e, s).
         let sg = on_server (\<lambda>_. s) p (cl_sg c) in
         if e \<noteq> None then Ret (False, e, with_cl_sg c sg)
         else if r_Err (ans master) \<noteq> None then Ret (False, r_Err (ans master), with_cl_sg c sg)
         else bindG (slice_from v 16) (\<lambda>w.
           bindG (send_each (\<lambda>q s. Ret (vs_Set dial s key w 0 q)) (slaves master ps) sg) (\<lambda>(xs, sg').
           Ret (True, send_err xs, with_cl_sg c sg'))))))"

section \<open>Connections\<close>

definition dbc_SetBuffered :: "dialer \<Rightarrow> dbClient \<Rightarrow> dbClient" where
  "dbc_SetBuffered dial c = with_cl_sg c (sg_SetBuffered dial (cl_sg c))"

definition dbc_SetNoDelay :: "dialer \<Rightarrow> dbClient \<Rightarrow> dbClient" where
  "dbc_SetNoDelay dial c = with_cl_sg c (sg_SetNoDelay dial (cl_sg c))"

definition dbc_Close :: "dbClient \<Rightarrow> dbClient" where
  "dbc_Close c = c\<lparr>cl_hb := (hb_Stop (cl_hb c))\<lparr>hb_sg := sg_Stop (cl_sg c)\<rparr>\<rparr>"

section \<open>Lemmas: reading\<close>

text \<open>The answers that count: those without error, and of these the ones with a stamped value.\<close>

definition answered :: "(bool \<times> result) list \<Rightarrow> result set" where
  "answered xs = {r. (True, r) \<in> set xs \<and> r_Err r = None}"

definition vals_of :: "(bool \<times> result) list \<Rightarrow> bytes set" where
  "vals_of xs = {r_Value r | r. r \<in> answered xs \<and> 8 \<le> length (r_Value r)}"

definition slot_time :: "bool \<times> result \<Rightarrow> time" where
  "slot_time x = (if fst x \<and> r_Err (snd x) = None \<and> 8 \<le> length (r_Value (snd x)) then stamp (r_Value (snd x)) else zero_time)"

lemma answered_Cons: "answered ((b, r) # xs) = (if b \<and> r_Err r = None then insert r (answered xs) else answered xs)"
  by (auto simp: answered_def)

lemma vals_of_Cons:
  "vals_of ((b, r) # xs) = (if b \<and> r_Err r = None \<and> 8 \<le> length (r_Value r) then insert (r_Value r) (vals_of xs) else vals_of xs)"
  by (auto simp: vals_of_def answered_Cons)

text \<open>The result of the loop: the value it had, or the newest one that came.\<close>

definition newest_of :: "bytes set \<Rightarrow> bytes option \<Rightarrow> time \<Rightarrow> bytes option \<Rightarrow> time \<Rightarrow> bool" where
  "newest_of V v lt v' lt' \<longleftrightarrow> (\<forall>x\<in>V. stamp x \<le> lt') \<and> lt \<le> lt'
     \<and> (v' = v \<and> lt' = lt \<or> (\<exists>x\<in>V. v' = Some x \<and> lt' = stamp x \<and> lt < stamp x))"

lemma gather_Cons:
  assumes "gather ((b, r) # xs) v lt rd = (ts, v', lt', rd')"
  obtains ts2 v2 lt2 where "gather xs v2 lt2 (rd \<or> b \<and> r_Err r = None) = (ts2, v', lt', rd')" and "ts = slot_time (b, r) # ts2"
    and "(v2, lt2) = (if b \<and> r_Err r = None \<and> 8 \<le> length (r_Value r) \<and> lt < stamp (r_Value r)
      then (Some (r_Value r), stamp (r_Value r)) else (v, lt))"
  using assms by (auto simp: slot_time_def Let_def split: if_splits prod.splits)

lemma newest_Cons:
  assumes "newest_of V v2 lt2 v' lt'" and "(v2, lt2) = (if P \<and> lt < stamp x then (Some x, stamp x) else (v, lt))"
  shows "newest_of (if P then insert x V else V) v lt v' lt'"
  using assms by (auto simp: newest_of_def split: if_splits)

lemma gather_spec:
  assumes "gather xs v lt rd = (ts, v', lt', rd')"
  shows "ts = map slot_time xs \<and> (rd' \<longleftrightarrow> rd \<or> answered xs \<noteq> {}) \<and> newest_of (vals_of xs) v lt v' lt'"
  using assms
proof (induction xs arbitrary: v lt rd ts)
  case Nil
  then show ?case by (simp add: answered_def vals_of_def newest_of_def)
next
  case (Cons x xs)
  obtain b r where x: "x = (b, r)" by fastforce
  obtain ts2 v2 lt2 where g: "gather xs v2 lt2 (rd \<or> b \<and> r_Err r = None) = (ts2, v', lt', rd')" "ts = slot_time (b, r) # ts2"
    "(v2, lt2) = (if b \<and> r_Err r = None \<and> 8 \<le> length (r_Value r) \<and> lt < stamp (r_Value r)
      then (Some (r_Value r), stamp (r_Value r)) else (v, lt))"
    using Cons.prems unfolding x by (rule gather_Cons)
  note IH = Cons.IH [OF g(1)]
  have "(v2, lt2) = (if (b \<and> r_Err r = None \<and> 8 \<le> length (r_Value r)) \<and> lt < stamp (r_Value r)
      then (Some (r_Value r), stamp (r_Value r)) else (v, lt))" using g(3) by simp
  from newest_Cons [OF _ this, of "vals_of xs"] have "newest_of (vals_of (x # xs)) v lt v' lt'"
    using IH unfolding x vals_of_Cons by simp
  then show ?case using IH g(2) by (auto simp: x answered_Cons)
qed

lemma stamp_late: "zero_time < stamp v"
proof -
  have "- (2 ^ 63) \<le> sint (stamp_word v)" using sint_ge [of "stamp_word v"] by simp
  then show ?thesis by (simp add: stamp_def unix_nano_def zero_time_def)
qed

lemma on_server_other [simp]: "q \<noteq> p \<Longrightarrow> objs (on_server f p sg) ! q = objs sg ! q"
  by (simp add: on_server_def)

lemma read_repair_other:
  "Some p \<notin> fst ` set zs \<Longrightarrow> objs (read_repair dial key val lt zs sg) ! p = objs sg ! p"
proof (induction zs arbitrary: sg)
  case (Cons z zs)
  then show ?case by (cases z) (auto split: option.splits)
qed simp

lemma read_repair_obj:
  assumes "distinct (filter (\<lambda>h. h \<noteq> None) (map fst zs))" and "p < length (objs sg)" and "(Some p, t) \<in> set zs"
  shows "objs (read_repair dial key val lt zs sg) ! p = (if lt > t then snd (vs_Set dial (objs sg ! p) key val 0 p) else objs sg ! p)"
  using assms
proof (induction zs arbitrary: sg)
  case (Cons z zs)
  obtain h t' where z: "z = (h, t')" by fastforce
  let ?sg = "case h of None \<Rightarrow> sg | Some p \<Rightarrow> if lt > t' then on_server (\<lambda>s. snd (vs_Set dial s key val 0 p)) p sg else sg"
  have len: "length (objs ?sg) = length (objs sg)" by (simp split: option.splits)
  show ?case
  proof (cases "h = Some p")
    case True
    then have "Some p \<notin> fst ` set zs" "t' = t" using Cons.prems(1,3) z by (force simp: image_iff)+
    then show ?thesis using True Cons.prems(2) z by (simp add: read_repair_other on_server_obj)
  next
    case False
    then have "objs ?sg ! p = objs sg ! p" by (cases h) simp_all
    moreover have "objs (read_repair dial key val lt zs ?sg) ! p
        = (if lt > t then snd (vs_Set dial (objs ?sg ! p) key val 0 p) else objs ?sg ! p)"
      using False Cons.prems z len by (intro Cons.IH) (auto split: if_splits)
    ultimately show ?thesis by (simp add: z)
  qed
qed simp

lemma send_each_frame:
  "send_each f ps sg = Ret (xs, sg') \<Longrightarrow> length xs = length ps \<and> length (objs sg') = length (objs sg)"
proof (induction ps arbitrary: sg xs sg')
  case (Cons h ps)
  then show ?case by (cases h) (fastforce simp: bindG_eq_Ret)+
qed simp

lemma chunk_holders_ok:
  assumes inv: "sg_inv sg" and ps: "chunk_holders sg key = Ret ps"
  shows "distinct (filter (\<lambda>h. h \<noteq> None) ps)" and "Some p \<in> set ps \<Longrightarrow> p < length (objs sg)"
proof -
  obtain cid where g: "GetChunkHolders sg cid = Ret ps" using ps by (auto simp: chunk_holders_def bindG_eq_Ret)
  then have cid: "0 \<le> cid" "nat cid < length (sg_chunks sg)"
    by (auto simp: GetChunkHolders_def bindG_eq_Ret index_int_def split: if_splits)
  then have lt: "cid < numChunks sg" using inv by (auto simp: sg_inv_def)
  define hs where "hs = holders (sg_chunks sg ! nat cid)"
  have d: "distinct hs" "set hs = {p. sg_holds sg cid p}" using inv cid by (auto simp: sg_inv_def holders_ok_def hs_def)
  have "ps = map Some hs @ replicate (8 - length hs) None"
    using holders_at_most_eight [OF inv cid(1) lt hs_def [symmetric]] g by (simp split: if_splits)
  then show "distinct (filter (\<lambda>h. h \<noteq> None) ps)" "Some p \<in> set ps \<Longrightarrow> p < length (objs sg)"
    using d sg_server(1) [OF inv] by (auto simp: filter_map comp_def distinct_map sg_holds_def)
qed

section \<open>Lemmas: ranks\<close>

lemma pick_master_max:
  "pick_master rs i master mr = master \<and> (\<forall>r\<in>set rs. r \<le> mr)
   \<or> (\<exists>j<length rs. pick_master rs i master mr = i + j \<and> mr < rs ! j \<and> (\<forall>r\<in>set rs. r \<le> rs ! j))"
proof (induction rs arbitrary: i master mr)
  case (Cons r rs)
  show ?case
  proof (cases "r > mr")
    case True
    from Cons.IH [where i = "i + 1" and master = i and mr = r] show ?thesis
    proof (elim disjE exE conjE)
      assume "pick_master rs (i + 1) i r = i" "\<forall>x\<in>set rs. x \<le> r"
      then show ?thesis using True by (intro disjI2 exI [of _ 0]) simp
    next
      fix j assume "j < length rs" "pick_master rs (i + 1) i r = i + 1 + j" "r < rs ! j" "\<forall>x\<in>set rs. x \<le> rs ! j"
      then show ?thesis using True by (intro disjI2 exI [of _ "Suc j"]) auto
    qed
  next
    case False
    from Cons.IH [where i = "i + 1" and master = master and mr = mr] show ?thesis
    proof (elim disjE exE conjE)
      assume "pick_master rs (i + 1) master mr = master" "\<forall>x\<in>set rs. x \<le> mr"
      then show ?thesis using False by (intro disjI1) auto
    next
      fix j assume "j < length rs" "pick_master rs (i + 1) master mr = i + 1 + j" "mr < rs ! j" "\<forall>x\<in>set rs. x \<le> rs ! j"
      then show ?thesis using False by (intro disjI2 exI [of _ "Suc j"]) auto
    qed
  qed
qed simp

text \<open>The addresses in an array of holders, and the one that is asked first.\<close>

definition addrs_of :: "serverGroup \<Rightarrow> nat option list \<Rightarrow> string set" where
  "addrs_of sg ps = {Phy (objs sg ! p) | p. Some p \<in> set ps}"

lemma master_of:
  assumes "a \<in> addrs_of sg ps" and "rank key a > 0"
  obtains p where "ps ! pick_master (ranks sg key ps) 0 0 0 = Some p" and "Phy (objs sg ! p) \<in> addrs_of sg ps"
    and "\<forall>b\<in>addrs_of sg ps. rank key b \<le> rank key (Phy (objs sg ! p))"
    and "pick_master (ranks sg key ps) 0 0 0 < length ps"
proof -
  let ?rs = "ranks sg key ps"
  have mem: "rank key b \<in> set ?rs" if b: "b \<in> addrs_of sg ps" for b
  proof -
    obtain q where "Some q \<in> set ps" "b = Phy (objs sg ! q)" using b by (auto simp: addrs_of_def)
    then show ?thesis unfolding ranks_def by force
  qed
  then have "\<not> (\<forall>r\<in>set ?rs. r \<le> 0)" using assms by fastforce
  then obtain j where j: "j < length ?rs" "pick_master ?rs 0 0 0 = j" "0 < ?rs ! j" "\<forall>r\<in>set ?rs. r \<le> ?rs ! j"
    using pick_master_max [of ?rs 0 0 0] by auto
  have len: "j < length ps" using j(1) by (simp add: ranks_def)
  then obtain p where p: "ps ! j = Some p" using j(3) by (cases "ps ! j") (simp_all add: ranks_def)
  then have "?rs ! j = rank key (Phy (objs sg ! p))" using len by (simp add: ranks_def)
  moreover have "Some p \<in> set ps" using len p by (metis nth_mem)
  ultimately show thesis using j(2,4) p len mem by (intro that [of p]) (auto simp: addrs_of_def)
qed

section \<open>Properties\<close>

text \<open>
  C25: A read returns the newest answer. \<open>Get\<close> reports that it has read exactly when a holder answered
  without error. It returns no value when no answer has one, and otherwise the value, without its
  stamp, and the time of an answer that no other one is newer than. The holders whose answer
  was older, empty or missing are sent that value, and only they.
\<close>

theorem get_returns_newest:
  assumes "sg_inv (cl_sg c)" and "chunk_holders (cl_sg c) key = Ret ps"
    and "send_each (\<lambda>p s. vs_Get dial s key (GetTimeout c) p) ps (cl_sg c) = Ret (xs, sg)"
  shows "\<exists>v t rd c'. dbc_Get dial ans c key = Ret (v, t, rd, c') \<and> (rd \<longleftrightarrow> answered (slots xs ans) \<noteq> {}) \<and> (case v of
      None \<Rightarrow> vals_of (slots xs ans) = {}
    | Some y \<Rightarrow> \<exists>x\<in>vals_of (slots xs ans). y = drop 8 x \<and> t = stamp x \<and> (\<forall>x'\<in>vals_of (slots xs ans). stamp x' \<le> t)
        \<and> (\<forall>i<length ps. \<forall>p. ps ! i = Some p \<longrightarrow> objs (cl_sg c') ! p =
             (if slot_time (slots xs ans ! i) < t then snd (vs_Set dial (objs sg ! p) key x 0 p) else objs sg ! p)))"
proof -
  obtain ts v' lt rd' where g: "gather (slots xs ans) None zero_time False = (ts, v', lt, rd')" by (metis prod_cases4)
  note G = gather_spec [OF g]
  let ?V = "vals_of (slots xs ans)"
  note fr = send_each_frame [OF assms(3)]
  show ?thesis
  proof (cases v')
    case None
    then have r: "dbc_Get dial ans c key = Ret (None, lt, rd', with_cl_sg c sg)" using assms(2,3) g by (simp add: dbc_Get_def)
    have "\<forall>x\<in>?V. stamp x \<le> zero_time" using G None by (auto simp: newest_of_def)
    then have "?V = {}" using stamp_late by (metis equals0I not_less)
    then show ?thesis using r G by auto
  next
    case (Some x)
    then have n: "x \<in> ?V" "lt = stamp x" "\<forall>x'\<in>?V. stamp x' \<le> lt" using G by (auto simp: newest_of_def)
    then have "8 \<le> length x" by (auto simp: vals_of_def)
    moreover define c' where "c' = with_cl_sg c (read_repair dial key x lt (zip ps ts) sg)"
    ultimately have r: "dbc_Get dial ans c key = Ret (Some (drop 8 x), lt, rd', c')" "cl_sg c' = read_repair dial key x lt (zip ps ts) sg"
      using assms(2,3) g Some by (simp_all add: dbc_Get_def slice_from_def with_cl_sg_def)
    have ts: "ts = map slot_time (slots xs ans)" "length ts = length ps" using G fr by (simp_all add: slots_def)
    note h = chunk_holders_ok [OF assms(1,2)]
    have "objs (cl_sg c') ! p = (if slot_time (slots xs ans ! i) < lt then snd (vs_Set dial (objs sg ! p) key x 0 p) else objs sg ! p)"
      if "i < length ps" "ps ! i = Some p" for i p
    proof -
      have "(Some p, ts ! i) \<in> set (zip ps ts)" using that ts(2) by (metis in_set_zip fst_conv snd_conv)
      moreover have "p < length (objs sg)" using h(2) [of p] that fr by (metis nth_mem)
      moreover have "distinct (filter (\<lambda>h. h \<noteq> None) (map fst (zip ps ts)))" using h(1) ts(2) by simp
      moreover have "ts ! i = slot_time (slots xs ans ! i)" using that(1) ts by simp
      ultimately show ?thesis using read_repair_obj [of "zip ps ts" p sg "ts ! i" dial key x lt] r(2) by simp
    qed
    then show ?thesis using n r(1) G by auto
  qed
qed

text \<open>
  C26: All clients agree on the master of a key: two clients that know the same holders of its chunk,
  in whatever order, send a compare-and-swap to the same server, provided no two of the holders have
  the same rank for the key and one rank is positive.
\<close>

theorem cas_same_master:
  assumes "chunk_holders (cl_sg c1) key = Ret ps" and "chunk_holders (cl_sg c2) key = Ret qs"
    and "addrs_of (cl_sg c1) ps = addrs_of (cl_sg c2) qs" and "inj_on (rank key) (addrs_of (cl_sg c1) ps)"
    and "a \<in> addrs_of (cl_sg c1) ps" and "rank key a > 0"
  shows "\<exists>p q. ps ! pick_master (ranks (cl_sg c1) key ps) 0 0 0 = Some p \<and> qs ! pick_master (ranks (cl_sg c2) key qs) 0 0 0 = Some q
    \<and> Phy (objs (cl_sg c1) ! p) = Phy (objs (cl_sg c2) ! q)
    \<and> (\<forall>b\<in>addrs_of (cl_sg c1) ps. rank key b \<le> rank key (Phy (objs (cl_sg c1) ! p)))"
proof -
  obtain p where p: "ps ! pick_master (ranks (cl_sg c1) key ps) 0 0 0 = Some p" "Phy (objs (cl_sg c1) ! p) \<in> addrs_of (cl_sg c1) ps"
    "\<forall>b\<in>addrs_of (cl_sg c1) ps. rank key b \<le> rank key (Phy (objs (cl_sg c1) ! p))"
    using assms(5,6) by (rule master_of)
  have a2: "a \<in> addrs_of (cl_sg c2) qs" using assms(3,5) by simp
  obtain q where q: "qs ! pick_master (ranks (cl_sg c2) key qs) 0 0 0 = Some q" "Phy (objs (cl_sg c2) ! q) \<in> addrs_of (cl_sg c2) qs"
    "\<forall>b\<in>addrs_of (cl_sg c2) qs. rank key b \<le> rank key (Phy (objs (cl_sg c2) ! q))"
    using a2 assms(6) by (rule master_of)
  have "rank key (Phy (objs (cl_sg c1) ! p)) = rank key (Phy (objs (cl_sg c2) ! q))"
    using p(2,3) q(2,3) assms(3) by (intro order_antisym) auto
  then have "Phy (objs (cl_sg c1) ! p) = Phy (objs (cl_sg c2) ! q)"
    using assms(3,4) p(2) q(2) by (auto dest: inj_onD)
  then show ?thesis using p q by blast
qed

definition ex_client :: "nat list \<Rightarrow> dbClient" where
  "ex_client qs = \<lparr>cl_hb = hb_new \<lparr>LocalhostIPPort = [], numChunks = 1, redundancy = 2, servers = [(''a'', 0), (''b'', 1)],
     sg_chunks = [\<lparr>vc_id = 0, holders = qs\<rparr>], sg_noDelay = False,
     objs = map (\<lambda>x. (new_VirtualServer x False)\<lparr>heldChunks := [\<lparr>chunk_ID = 0, chunk_Checksum = 0\<rparr>]\<rparr>) [''a'', ''b'']\<rparr> 0 ([], sconst (0, None)),
     GetTimeout = 1, SetTimeout = 1, DelTimeout = 1, CASTimeout = 1\<rparr>"

lemma ex_client_inv: "sg_inv (cl_sg (ex_client [0, 1]))"
  by (auto simp: ex_client_def hb_new_def sg_inv_def ids_ok_def new_VirtualServer_def holders_ok_def sg_holds_def nth_Cons')

lemma ex_client_holders:
  assumes "length qs = 2"
  shows "chunk_holders (cl_sg (ex_client qs)) key = Ret (map Some qs @ replicate 6 None)"
  using assms by (simp add: chunk_holders_def GetChunkID_def Let_def ex_client_def hb_new_def GetChunkHolders_def index_int_def fill_holders_eq)

definition ex_answers :: "nat \<Rightarrow> result" where
  "ex_answers i = (if i = 0 then \<lparr>r_Value = ex_val 5, r_Err = None\<rparr> else \<lparr>r_Value = ex_val 6, r_Err = None\<rparr>)"

theorem get_returns_newest_witness:
  "\<exists>c'. dbc_Get (\<lambda>_. None) ex_answers (ex_client [0, 1]) ex_key = Ret (Some [65], 6, True, c')"
proof -
  let ?c = "ex_client [0, 1]" and ?ps = "map Some [0, 1] @ replicate 6 None :: nat option list"
  have h: "chunk_holders (cl_sg ?c) ex_key = Ret ?ps" by (rule ex_client_holders) simp
  have rep: "replicate 6 (None :: nat option) = [None, None, None, None, None, None]" by (simp add: numeral_eq_Suc)
  obtain sg where sg: "send_each (\<lambda>p s. vs_Get (\<lambda>_. None) s ex_key (GetTimeout ?c) p) ?ps (cl_sg ?c)
      = Ret ([Some None, Some None, None, None, None, None, None, None], sg)"
    by (simp add: rep vs_Get_def needConnection_def client_Get_def ex_client_def hb_new_def new_VirtualServer_def on_server_def)
  let ?xs = "[Some None, Some None, None, None, None, None, None, None] :: err option list"
  have sl: "slots ?xs ex_answers = [(True, ex_answers 0), (True, ex_answers 1), (False, ex_answers 2), (False, ex_answers 3),
      (False, ex_answers 4), (False, ex_answers 5), (False, ex_answers 6), (False, ex_answers 7)]"
    by (simp add: slots_def upt_rec nth_Cons' numeral_eq_Suc)
  have st: "stamp (ex_val 5) = 5" "stamp (ex_val 6) = 6" by code_simp+
  have vals: "vals_of (slots ?xs ex_answers) = {ex_val 5, ex_val 6}" "answered (slots ?xs ex_answers) \<noteq> {}"
    unfolding sl by (auto simp: vals_of_Cons answered_Cons ex_answers_def) (auto simp: vals_of_def answered_def ex_val_def)
  from get_returns_newest [where ans = ex_answers, OF ex_client_inv h sg] obtain v t rd c'
    where run: "dbc_Get (\<lambda>_. None) ex_answers ?c ex_key = Ret (v, t, rd, c')" "rd \<longleftrightarrow> answered (slots ?xs ex_answers) \<noteq> {}"
      and c: "case v of None \<Rightarrow> vals_of (slots ?xs ex_answers) = {}
        | Some y \<Rightarrow> \<exists>x\<in>vals_of (slots ?xs ex_answers). y = drop 8 x \<and> t = stamp x \<and> (\<forall>x'\<in>vals_of (slots ?xs ex_answers). stamp x' \<le> t)
        \<and> (\<forall>i<length ?ps. \<forall>p. ?ps ! i = Some p \<longrightarrow> objs (cl_sg c') ! p =
             (if slot_time (slots ?xs ex_answers ! i) < t then snd (vs_Set (\<lambda>_. None) (objs sg ! p) ex_key x 0 p) else objs sg ! p))"
    by (elim exE conjE that)
  obtain y where v: "v = Some y" using c vals(1) by (cases v) simp_all
  from c obtain x where x: "x \<in> {ex_val 5, ex_val 6}" "y = drop 8 x" "t = stamp x" "\<forall>x'\<in>{ex_val 5, ex_val 6}. stamp x' \<le> t"
    unfolding v vals(1) option.case by (elim bexE conjE that)
  have "t = 6" using x(1,3,4) st by auto
  moreover have "y = [65]" using x(1,2) by (auto simp: ex_val_def)
  ultimately have "dbc_Get (\<lambda>_. None) ex_answers ?c ex_key = Ret (Some [65], 6, True, c')" using run vals(2) v by simp
  then show ?thesis by blast
qed

lemma ex_ranks: "rank [7] ''a'' > 0" "rank [7] ''a'' \<noteq> rank [7] ''b''"
  by code_simp+

lemma ex_client_addrs:
  "addrs_of (cl_sg (ex_client ws)) (map Some [0, 1] @ replicate 6 None) = {''a'', ''b''}"
  "addrs_of (cl_sg (ex_client ws)) (map Some [1, 0] @ replicate 6 None) = {''a'', ''b''}"
proof -
  have o: "Phy (objs (cl_sg (ex_client ws)) ! 0) = ''a''" "Phy (objs (cl_sg (ex_client ws)) ! Suc 0) = ''b''"
    by (simp_all add: ex_client_def hb_new_def new_VirtualServer_def)
  then show "addrs_of (cl_sg (ex_client ws)) (map Some [0, 1] @ replicate 6 None) = {''a'', ''b''}"
    "addrs_of (cl_sg (ex_client ws)) (map Some [1, 0] @ replicate 6 None) = {''a'', ''b''}"
    by (auto simp: addrs_of_def) (force simp: o)+
qed

theorem cas_same_master_witness:
  "\<exists>ps qs p q. chunk_holders (cl_sg (ex_client [0, 1])) [7] = Ret ps \<and> chunk_holders (cl_sg (ex_client [1, 0])) [7] = Ret qs
     \<and> ps \<noteq> qs \<and> ps ! pick_master (ranks (cl_sg (ex_client [0, 1])) [7] ps) 0 0 0 = Some p
     \<and> qs ! pick_master (ranks (cl_sg (ex_client [1, 0])) [7] qs) 0 0 0 = Some q
     \<and> Phy (objs (cl_sg (ex_client [0, 1])) ! p) = Phy (objs (cl_sg (ex_client [1, 0])) ! q)"
proof -
  let ?ps = "map Some [0, 1] @ replicate 6 None :: nat option list" and ?qs = "map Some [1, 0] @ replicate 6 None :: nat option list"
  have h: "chunk_holders (cl_sg (ex_client [0, 1])) [7] = Ret ?ps" "chunk_holders (cl_sg (ex_client [1, 0])) [7] = Ret ?qs"
    by (rule ex_client_holders; simp)+
  have s: "addrs_of (cl_sg (ex_client [0, 1])) ?ps = addrs_of (cl_sg (ex_client [1, 0])) ?qs"
    "inj_on (rank [7]) (addrs_of (cl_sg (ex_client [0, 1])) ?ps)" "''a'' \<in> addrs_of (cl_sg (ex_client [0, 1])) ?ps"
    unfolding ex_client_addrs using ex_ranks(2) by (auto simp: inj_on_def)
  have "?ps \<noteq> ?qs" by simp
  with cas_same_master [OF h s ex_ranks(1)] h show ?thesis by blast
qed

end
