(* ===== verification/Rebalance.thy ===== *)
theory Rebalance
  imports DB_Server
begin

text \<open>
  The rebalancer (src/dist/rebalance/rebalance.go): it copies the chunks that have too few
  holders or that this server has too few of, and gives up chunks that have more holders than
  needed, after all the other holders have promised to keep theirs. The releasers of several servers
  run as a step relation: each takes the chunks from its channel and asks the other holders one by one, while
  the other releasers and all the other goroutines go on.
\<close>

section \<open>Helpers\<close>

definition with_sg :: "dbServer \<Rightarrow> serverGroup \<Rightarrow> dbServer" where
  "with_sg s sg = s\<lparr>srv_hb := (srv_hb s)\<lparr>hb_sg := sg\<rparr>\<rparr>"

text \<open>\<open>sg.SetServerChunks(sg.LocalhostIPPort, lh.PresentChunksList())\<close>.\<close>

definition report_self :: "(nat \<Rightarrow> time) \<Rightarrow> time \<Rightarrow> dbServer \<Rightarrow> dbServer go" where
  "report_self clock now s = bindG (report clock (srv_core s)) (\<lambda>(l, c).
     bindG (SetServerChunks (srv_sg s) (LocalhostIPPort (srv_sg s)) l now) (\<lambda>sg.
     Ret (with_sg (with_core s c) sg)))"

section \<open>Duplication\<close>

text \<open>
  \<open>r\<close> is the answer of the holder to the question for the size of the chunk. The first result says
  whether the chunk goes to the queue of the transfers, after a while.
\<close>

definition freeSpace :: u64 where
  "freeSpace = 1000000000"

definition duplicate :: "os_env \<Rightarrow> (nat \<Rightarrow> nat) \<Rightarrow> dialer \<Rightarrow> result \<Rightarrow> dbServer \<Rightarrow> int \<Rightarrow> (bool \<times> dbServer) go" where
  "duplicate os rnd dial r s cid = bindG (GetAnyHolder rnd (srv_sg s) cid) (\<lambda>h. case h of
       None \<Rightarrow> Ret (False, s)
     | Some p \<Rightarrow> bindG (vs_GetChunkInfo dial (objs (srv_sg s) ! p) cid p r) (\<lambda>(len, v).
         let s1 = with_sg s (on_server (\<lambda>_. v) p (srv_sg s)) in
         if len = - 1 then Ret (False, s1)
         else if len > freeSpace then Ret (False, s1)
         else bindG (ChunkSetPresent os (srv_disk s1) (srv_core s1) cid) (\<lambda>(c, d).
           Ret (len \<noteq> 0, (with_core s1 c)\<lparr>srv_disk := d\<rparr>))))"

text \<open>
  The holders are asked one after the other for a transfer, until one of them accepts; \<open>ans p\<close> is the
  answer of the holder \<open>p\<close>.
\<close>

fun ask_transfer :: "dialer \<Rightarrow> (nat \<Rightarrow> result) \<Rightarrow> int \<Rightarrow> nat option list \<Rightarrow> serverGroup \<Rightarrow> bool \<times> serverGroup" where
  "ask_transfer dial ans cid [] sg = (False, sg)"
| "ask_transfer dial ans cid (h # ps) sg = (case h of
       None \<Rightarrow> ask_transfer dial ans cid ps sg
     | Some p \<Rightarrow>
         (if Phy (objs sg ! p) = LocalhostIPPort sg then ask_transfer dial ans cid ps sg
          else let (e, v) = vs_Transfer dial (objs sg ! p) (LocalhostIPPort sg) cid p (ans p);
                   sg' = on_server (\<lambda>_. v) p sg in
               if e \<noteq> None then ask_transfer dial ans cid ps sg' else (True, sg')))"

text \<open>A turn of the loop of the duplicator, for the chunk taken from the queue.\<close>

definition duplicator_turn ::
  "os_env \<Rightarrow> (nat \<Rightarrow> nat) \<Rightarrow> dialer \<Rightarrow> (nat \<Rightarrow> result) \<Rightarrow> result \<Rightarrow> dbServer \<Rightarrow> int \<Rightarrow> (bool \<times> dbServer) go" where
  "duplicator_turn os rnd dial ans r s cid = bindG (GetChunkHolders (srv_sg s) cid) (\<lambda>ps.
     let (transferred, sg) = ask_transfer dial ans cid ps (srv_sg s); s1 = with_sg s sg in
     if \<not> transferred then duplicate os rnd dial r s1 cid else Ret (False, s1))"

section \<open>Release\<close>

fun ask_protect :: "dialer \<Rightarrow> (nat \<Rightarrow> result) \<Rightarrow> int \<Rightarrow> nat option list \<Rightarrow> serverGroup \<Rightarrow> bool \<times> serverGroup" where
  "ask_protect dial ans cid [] sg = (True, sg)"
| "ask_protect dial ans cid (h # ps) sg = (case h of
       None \<Rightarrow> ask_protect dial ans cid ps sg
     | Some p \<Rightarrow>
         (if Phy (objs sg ! p) = LocalhostIPPort sg then ask_protect dial ans cid ps sg
          else let (ok, v) = vs_Protect dial (objs sg ! p) cid p (ans p); sg' = on_server (\<lambda>_. v) p sg in
               if \<not> ok then (False, sg') else ask_protect dial ans cid ps sg'))"

definition release_finish :: "os_env \<Rightarrow> (nat \<Rightarrow> time) \<Rightarrow> time \<Rightarrow> dbServer \<Rightarrow> int \<Rightarrow> dbServer go" where
  "release_finish os clock now s cid = bindG (ChunkSetNoPresent os (srv_disk s) (srv_core s) cid) (\<lambda>(c, d).
     report_self clock now ((with_core s c)\<lparr>srv_disk := d\<rparr>))"

definition release_turn ::
  "os_env \<Rightarrow> dialer \<Rightarrow> (nat \<Rightarrow> result) \<Rightarrow> (nat \<Rightarrow> time) \<Rightarrow> time \<Rightarrow> dbServer \<Rightarrow> int \<Rightarrow> dbServer go" where
  "release_turn os dial ans clock now s cid = bindG (IsProtected (srv_core s) cid) (\<lambda>p.
     if p then Ret s
     else bindG (GetChunkHolders (srv_sg s) cid) (\<lambda>ps.
       let (ok, sg) = ask_protect dial ans cid ps (srv_sg s); s1 = with_sg s sg in
       if \<not> ok then Ret s1 else release_finish os clock now s1 cid))"

section \<open>The load\<close>

text \<open>
  \<open>known + 1 < avg\<close> and \<open>known >= avg\<close> for \<open>avg = total / n\<close>: in floating-point numbers, which are exact here
  for numbers below \<open>2 ^ 26\<close>. Without servers the average is an infinity, or not a number when the
  total is zero.
\<close>

definition below_avg :: "int \<Rightarrow> int \<Rightarrow> nat \<Rightarrow> bool" where
  "below_avg k tot n = (if n = 0 then tot > 0 else k * int n < tot)"

definition reaches_avg :: "int \<Rightarrow> int \<Rightarrow> nat \<Rightarrow> bool" where
  "reaches_avg k tot n = (if n = 0 then tot < 0 else k * int n \<ge> tot)"

text \<open>
  Duplication to keep the redundancy. The queue of the transfers is the first component;
  \<open>info i\<close> is the answer to the question for the size of chunk \<open>i\<close>.
\<close>

definition too_few :: "dbServer \<Rightarrow> int \<Rightarrow> bool go" where
  "too_few s i = bindG (NumHolders (srv_sg s) i) (\<lambda>k.
     if int k < redundancy (srv_sg s) then bindG (IsPresent (srv_core s) i) (\<lambda>p. Ret (\<not> p)) else Ret False)"

definition load_duplicate ::
  "os_env \<Rightarrow> (nat \<Rightarrow> nat) \<Rightarrow> dialer \<Rightarrow> (int \<Rightarrow> result) \<Rightarrow> dbServer \<Rightarrow> (int list \<times> dbServer) go" where
  "load_duplicate os rnd dial info s = foldG (\<lambda>i (q, s). bindG (too_few s (int i)) (\<lambda>b.
       if b then bindG (duplicate os rnd dial (info (int i)) s (int i)) (\<lambda>(queued, s'). Ret (if queued then q @ [int i] else q, s'))
       else Ret (q, s))) [0..<nat (numChunks (srv_sg s))] ([], s)"

text \<open>The first chunk of the list that is present and has more holders than needed.\<close>

fun find_release :: "dbServer \<Rightarrow> amAliveChunk list \<Rightarrow> int option go" where
  "find_release s [] = Ret None"
| "find_release s (x # xs) = bindG (IsPresent (srv_core s) (chunk_ID x)) (\<lambda>p.
     if \<not> p then find_release s xs
     else bindG (NumHolders (srv_sg s) (chunk_ID x)) (\<lambda>k.
       if int k > redundancy (srv_sg s) then Ret (Some (chunk_ID x)) else find_release s xs))"

text \<open>
  A turn of the load rebalancer: the chunks queued for a transfer, the chunk queued for
  release, and the server. \<open>pick n\<close> is the number that \<open>rand.Int31n(n)\<close> draws, which panics unless its
  argument is positive.
\<close>

definition load_turn ::
  "os_env \<Rightarrow> (nat \<Rightarrow> nat) \<Rightarrow> (int \<Rightarrow> int) \<Rightarrow> dialer \<Rightarrow> (int \<Rightarrow> result) \<Rightarrow> (nat \<Rightarrow> time) \<Rightarrow> dbServer \<Rightarrow> (int list \<times> int option \<times> dbServer) go" where
  "load_turn os rnd pick dial info clock s =
     (let known = PresentChunks (srv_core s); n = numChunks (srv_sg s);
          tot = n * redundancy (srv_sg s); srvs = NumServers (srv_sg s) in
      bindG (load_duplicate os rnd dial info s) (\<lambda>(q, s1).
      if below_avg (known + 1) tot srvs then
        (if n \<le> 0 then Panic (Raised ''invalid argument to Int31n'')
         else let c = pick n in
           bindG (IsPresent (srv_core s1) c) (\<lambda>p.
           bindG (if p then Ret False else bindG (NumHolders (srv_sg s1) c) (\<lambda>k. Ret (int k \<le> redundancy (srv_sg s1)))) (\<lambda>b.
           if b then bindG (duplicate os rnd dial (info c) s1 c) (\<lambda>(queued, s2). Ret (if queued then q @ [c] else q, None, s2))
           else Ret (q, None, s1))))
      else if reaches_avg known tot srvs then
        bindG (report clock (srv_core s1)) (\<lambda>(l, c).
        let s2 = with_core s1 c in
        bindG (find_release s2 l) (\<lambda>x. Ret (q, x, s2)))
      else Ret (q, None, s1)))"

section \<open>Releases on several servers\<close>

text \<open>
  The servers of a database, the chunks waiting in the channels of their releasers, and where these are: idle,
  past the test of the protection of a chunk, or at a position of the list of the other holders of the
  chunk, which is read once, before the first request. The steps of the server \<open>i\<close>: the load rebalancer puts a
  chunk that has more holders than needed into the channel; the releaser takes the chunk and looks at
  its own protection; it lists the holders; it asks the next one, which answers as the server does; it
  gives the chunk up when all have agreed. Between the steps of a releaser everything else may happen.
\<close>

datatype releaser = RIdle | RFree int | RAsk int "string list" nat

record node =
  nd_srv :: dbServer
  nd_queue :: "int list"
  nd_pc :: releaser

definition nd_addr :: "node \<Rightarrow> string" where
  "nd_addr nd = LocalhostIPPort (srv_sg (nd_srv nd))"

definition other_holders :: "dbServer \<Rightarrow> int \<Rightarrow> string list go" where
  "other_holders s cid = bindG (GetChunkHolders (srv_sg s) cid) (\<lambda>ps.
     Ret (filter (\<lambda>a. a \<noteq> LocalhostIPPort (srv_sg s)) (map (\<lambda>p. Phy (objs (srv_sg s) ! p)) (List.map_filter id ps))))"

definition releaseBuffer :: nat where
  "releaseBuffer = 1024"

text \<open>The test of the load rebalancer, made before the chunk goes into the channel.\<close>

definition wants_release :: "dbServer \<Rightarrow> int \<Rightarrow> bool go" where
  "wants_release s cid = bindG (IsPresent (srv_core s) cid) (\<lambda>p.
     if \<not> p then Ret False else bindG (NumHolders (srv_sg s) cid) (\<lambda>k. Ret (int k > redundancy (srv_sg s))))"

inductive rel_step :: "nat \<Rightarrow> node list \<Rightarrow> node list \<Rightarrow> bool" where
  rel_queue: "i < length ns \<Longrightarrow> wants_release (nd_srv (ns ! i)) cid = Ret True \<Longrightarrow> length (nd_queue (ns ! i)) < releaseBuffer \<Longrightarrow>
    rel_step i ns (ns[i := (ns ! i)\<lparr>nd_queue := nd_queue (ns ! i) @ [cid]\<rparr>])"
| rel_take: "i < length ns \<Longrightarrow> nd_pc (ns ! i) = RIdle \<Longrightarrow> nd_queue (ns ! i) = cid # q \<Longrightarrow>
    IsProtected (srv_core (nd_srv (ns ! i))) cid = Ret p \<Longrightarrow>
    rel_step i ns (ns[i := (ns ! i)\<lparr>nd_queue := q, nd_pc := if p then RIdle else RFree cid\<rparr>])"
| rel_list: "i < length ns \<Longrightarrow> nd_pc (ns ! i) = RFree cid \<Longrightarrow> other_holders (nd_srv (ns ! i)) cid = Ret as \<Longrightarrow>
    rel_step i ns (ns[i := (ns ! i)\<lparr>nd_pc := RAsk cid as 0\<rparr>])"
| rel_ask: "i < length ns \<Longrightarrow> nd_pc (ns ! i) = RAsk cid as n \<Longrightarrow> n < length as \<Longrightarrow> j < length ns \<Longrightarrow> j \<noteq> i \<Longrightarrow> nd_addr (ns ! j) = as ! n \<Longrightarrow>
    protect_chunk (nd_srv (ns ! j)) now cid = Ret (e, s) \<Longrightarrow>
    rel_step i ns (ns[j := (ns ! j)\<lparr>nd_srv := s\<rparr>, i := (ns ! i)\<lparr>nd_pc := if e = None then RAsk cid as (Suc n) else RIdle\<rparr>])"
| rel_fail: "i < length ns \<Longrightarrow> nd_pc (ns ! i) = RAsk cid as n \<Longrightarrow> n < length as \<Longrightarrow> rel_step i ns (ns[i := (ns ! i)\<lparr>nd_pc := RIdle\<rparr>])"
| rel_drop: "i < length ns \<Longrightarrow> nd_pc (ns ! i) = RAsk cid as (length as) \<Longrightarrow>
    release_finish os_fine clock now (nd_srv (ns ! i)) cid = Ret s \<Longrightarrow>
    rel_step i ns (ns[i := (ns ! i)\<lparr>nd_srv := s, nd_pc := RIdle\<rparr>])"

text \<open>Runs in which only the steps of the servers of \<open>I\<close> above are made.\<close>

inductive rel_run :: "nat set \<Rightarrow> node list \<Rightarrow> node list \<Rightarrow> bool" for I where
  rel_stop: "rel_run I ns ns"
| rel_more: "rel_run I ns ns1 \<Longrightarrow> i \<in> I \<Longrightarrow> rel_step i ns1 ns2 \<Longrightarrow> rel_run I ns ns2"

text \<open>
  What the other goroutines of a server may do beside a releaser: the heartbeat changes the view of the
  group, clients write, protections come and expire, the duplicator adds chunks. No chunk is lost.
\<close>

definition others_step :: "dbServer \<Rightarrow> dbServer \<Rightarrow> bool" where
  "others_step s s' \<longleftrightarrow> (server_inv s \<longrightarrow> server_inv s') \<and> LocalhostIPPort (srv_sg s') = LocalhostIPPort (srv_sg s)
     \<and> (\<forall>c. IsPresent (srv_core s) c = Ret True \<longrightarrow> IsPresent (srv_core s') c = Ret True)"

text \<open>
  The rest of a turn of the releaser \<open>i\<close>, which ends when it is idle again. The other goroutines of all
  the servers move as well, the other releasers do not.
\<close>

inductive turn_run :: "nat \<Rightarrow> node list \<Rightarrow> node list \<Rightarrow> bool" for i where
  turn_stop: "turn_run i ns ns"
| turn_more: "turn_run i ns ns1 \<Longrightarrow> nd_pc (ns1 ! i) \<noteq> RIdle \<Longrightarrow> rel_step i ns1 ns2 \<Longrightarrow> turn_run i ns ns2"
| turn_others: "turn_run i ns ns1 \<Longrightarrow> j < length ns1 \<Longrightarrow> others_step (nd_srv (ns1 ! j)) s \<Longrightarrow>
    turn_run i ns (ns1[j := (ns1 ! j)\<lparr>nd_srv := s\<rparr>])"

definition has_chunk :: "node \<Rightarrow> int \<Rightarrow> bool" where
  "has_chunk nd cid \<longleftrightarrow> IsPresent (srv_core (nd_srv nd)) cid = Ret True"

section \<open>Lemmas\<close>

text \<open>A server that agrees to protect a chunk has it, and keeps it from being released.\<close>

lemma protect_agrees:
  assumes "protect_chunk s now cid = Ret (None, s')"
  shows "IsPresent (srv_core s') cid = Ret True" and "IsProtected (srv_core s') cid = Ret True"
    and "IsPresent (srv_core s) cid = Ret True"
  using assms
  by (auto simp: protect_chunk_def bindG_eq_Ret ChunkSetProtected_def IsPresent_def IsProtected_def get_chunk_eq set_chunk_def
      split: if_splits)

lemma protect_keeps:
  assumes "protect_chunk s now cid = Ret (e, s')"
  shows "srv_sg s' = srv_sg s" and "IsPresent (srv_core s') c = IsPresent (srv_core s) c"
proof -
  show "srv_sg s' = srv_sg s" using assms by (auto simp: protect_chunk_def bindG_eq_Ret split: if_splits)
  show "IsPresent (srv_core s') c = IsPresent (srv_core s) c"
    using assms by (auto simp: protect_chunk_def bindG_eq_Ret ChunkSetProtected_def IsPresent_def get_chunk_eq set_chunk_def get_chunk_def
        index_of_def nth_list_update split: if_splits)
qed

lemma IsPresent_cong: "map present (chunks c') = map present (chunks c) \<Longrightarrow> IsPresent c' i = IsPresent c i"
proof -
  assume m: "map present (chunks c') = map present (chunks c)"
  then have "length (chunks c') = length (chunks c)" by (rule map_eq_imp_length_eq)
  moreover have "present (chunks c' ! j) = present (chunks c ! j)" if "j < length (chunks c)" for j
    using m that by (metis calculation nth_map)
  ultimately show ?thesis by (simp add: IsPresent_def get_chunk_def index_of_def)
qed

lemma report_self_ok:
  assumes inv: "server_inv s"
  shows "\<exists>s'. report_self clock now s = Ret s' \<and> server_inv s' \<and> redundancy (srv_sg s') = redundancy (srv_sg s)
    \<and> LocalhostIPPort (srv_sg s') = LocalhostIPPort (srv_sg s) \<and> (\<forall>c. IsPresent (srv_core s') c = IsPresent (srv_core s) c)"
proof -
  have i: "core_inv (srv_core s)" "sg_inv (srv_sg s)" "numChunks (srv_sg s) = int (length (chunks (srv_core s)))"
    using inv by (simp_all add: server_inv_def)
  obtain l c where c: "report clock (srv_core s) = Ret (l, c)" "core_inv c"
    "map present (chunks c) = map present (chunks (srv_core s))" "ids_ok (int (length (chunks (srv_core s)))) l"
    using report_ok [OF i(1)] by blast
  then have "ids_ok (numChunks (srv_sg s)) l" using i(3) by simp
  from SetServerChunks_inv [OF i(2) this] obtain sg where sg: "SetServerChunks (srv_sg s) (LocalhostIPPort (srv_sg s)) l now = Ret sg"
    "sg_inv sg" "numChunks sg = numChunks (srv_sg s)" by blast
  have "redundancy sg = redundancy (srv_sg s)" "LocalhostIPPort sg = LocalhostIPPort (srv_sg s)"
    using sg(1) by (auto simp: SetServerChunks_def bindG_eq_Ret split: option.splits)
  moreover have "length (chunks c) = length (chunks (srv_core s))" using c(3) by (rule map_eq_imp_length_eq)
  ultimately show ?thesis using c(1,2) sg i(3) IsPresent_cong [OF c(3)]
    by (simp add: report_self_def server_inv_def with_sg_def)
qed

lemma NoPresent_present:
  assumes "ChunkSetNoPresent os d c cid = Ret (c', d')"
  shows "IsPresent c' i = (if i = cid then Ret False else IsPresent c i)" and "length (chunks c') = length (chunks c)"
proof -
  obtain mc where mc: "get_chunk c cid = Ret mc" using assms by (auto simp: ChunkSetNoPresent_def bindG_eq_Ret)
  have "IsPresent c' i = (if i = cid then Ret False else IsPresent c i) \<and> length (chunks c') = length (chunks c)"
  proof (cases "present mc")
    case True
    have "chunks c' = (chunks c)[nat cid := mc\<lparr>mc_pm := None, present := False, protected := False\<rparr>]"
      using assms mc True by (auto simp: ChunkSetNoPresent_def bindG_eq_Ret set_chunk_def split: option.splits)
    moreover have "0 \<le> cid" "nat cid < length (chunks c)" using mc by (simp_all add: get_chunk_eq)
    ultimately show ?thesis by (auto simp: IsPresent_def get_chunk_def index_of_def nth_list_update eq_nat_nat_iff)
  next
    case False
    then show ?thesis using assms mc by (auto simp: ChunkSetNoPresent_def IsPresent_def)
  qed
  then show "IsPresent c' i = (if i = cid then Ret False else IsPresent c i)" "length (chunks c') = length (chunks c)" by blast+
qed

lemma release_finish_ok:
  assumes inv: "server_inv s" and p: "IsPresent (srv_core s) cid = Ret b"
  shows "\<exists>s'. release_finish os_fine clock now s cid = Ret s' \<and> server_inv s' \<and> redundancy (srv_sg s') = redundancy (srv_sg s)
    \<and> LocalhostIPPort (srv_sg s') = LocalhostIPPort (srv_sg s)
    \<and> (\<forall>c. IsPresent (srv_core s') c = (if c = cid then Ret False else IsPresent (srv_core s) c))"
proof -
  have i: "core_inv (srv_core s)" "0 \<le> cid" "nat cid < length (chunks (srv_core s))"
    using inv p by (auto simp: server_inv_def IsPresent_def bindG_eq_Ret get_chunk_eq)
  obtain c d where c: "ChunkSetNoPresent os_fine (srv_disk s) (srv_core s) cid = Ret (c, d)" "core_inv c"
    using chunk_steps(2) [OF i] by blast
  note n = NoPresent_present [OF c(1)]
  have "server_inv ((with_core s c)\<lparr>srv_disk := d\<rparr>)" using inv c(2) n(2) by (simp add: server_inv_def with_core_def)
  from report_self_ok [OF this, of clock now] show ?thesis using c(1) n(1) by (simp add: release_finish_def with_core_def)
qed

text \<open>The other holders are as many as the holders, or one less.\<close>

lemma other_holders_many:
  assumes inv: "sg_inv (srv_sg s)" and k: "NumHolders (srv_sg s) cid = Ret k" and as: "other_holders s cid = Ret as"
  shows "k \<le> card (set as) + 1"
proof -
  let ?sg = "srv_sg s"
  define ps where "ps = holders (sg_chunks ?sg ! nat cid)"
  have cid: "0 \<le> cid" "nat cid < length (sg_chunks ?sg)" and len: "length ps = k"
    using k by (auto simp: NumHolders_def bindG_eq_Ret index_int_def ps_def split: if_splits)
  then have lt: "cid < numChunks ?sg" using inv by (auto simp: sg_inv_def)
  have ps: "distinct ps" "set ps = {p. sg_holds ?sg cid p}"
    using inv cid by (auto simp: sg_inv_def holders_ok_def ps_def)
  have "inj_on (\<lambda>p. Phy (objs ?sg ! p)) (set ps)"
  proof (rule inj_onI)
    fix p q assume "p \<in> set ps" "q \<in> set ps" and eq: "Phy (objs ?sg ! p) = Phy (objs ?sg ! q)"
    then obtain a b where ab: "(a, p) \<in> set (servers ?sg)" "(b, q) \<in> set (servers ?sg)" using ps(2) by (auto simp: sg_holds_def)
    then have "a = b" using sg_server(2) [OF inv] eq by metis
    moreover have "distinct (map fst (servers ?sg))" using inv by (simp add: sg_inv_def)
    ultimately show "p = q" using ab by (metis eq_key_imp_eq_value)
  qed
  then have c: "card ((\<lambda>p. Phy (objs ?sg ! p)) ` set ps) = k" using ps(1) len by (simp add: card_image distinct_card)
  have "GetChunkHolders ?sg cid = (if length ps \<le> 8 then Ret (map Some ps @ replicate (8 - length ps) None) else Panic OutOfRange)"
    using inv cid(1) lt ps_def by (intro holders_at_most_eight) simp_all
  then have "as = filter (\<lambda>a. a \<noteq> LocalhostIPPort ?sg) (map (\<lambda>p. Phy (objs ?sg ! p)) (List.map_filter id (map Some ps @ replicate (8 - length ps) None)))"
    using as by (auto simp: other_holders_def split: if_splits)
  moreover have "List.map_filter id (map Some xs @ replicate n None) = xs" for xs :: "nat list" and n
    by (induction xs) (simp_all add: List.map_filter_def)
  ultimately have "set as = (\<lambda>p. Phy (objs ?sg ! p)) ` set ps - {LocalhostIPPort ?sg}" by auto
  then have "card (set as) = (if LocalhostIPPort ?sg \<in> (\<lambda>p. Phy (objs ?sg ! p)) ` set ps then k - 1 else k)"
    using c by (simp add: card_Diff_singleton_if)
  then show ?thesis by (auto split: if_splits)
qed

text \<open>The other servers that have a chunk, and their addresses.\<close>

definition keepers :: "nat \<Rightarrow> node list \<Rightarrow> int \<Rightarrow> nat set" where
  "keepers i ns cid = {j. j < length ns \<and> j \<noteq> i \<and> has_chunk (ns ! j) cid}"

definition keeper_addrs :: "nat \<Rightarrow> node list \<Rightarrow> int \<Rightarrow> string set" where
  "keeper_addrs i ns cid = (\<lambda>j. nd_addr (ns ! j)) ` keepers i ns cid"

lemma keepers_self [simp]: "keepers i (ns[i := x]) cid = keepers i ns cid" "keeper_addrs i (ns[i := x]) cid = keeper_addrs i ns cid"
  by (auto simp: keepers_def keeper_addrs_def image_iff)

lemma keepers_card: "finite (keepers i ns cid)" "card (keeper_addrs i ns cid) \<le> card (keepers i ns cid)"
proof -
  show "finite (keepers i ns cid)" by (rule finite_subset [of _ "{..<length ns}"]) (auto simp: keepers_def)
  then show "card (keeper_addrs i ns cid) \<le> card (keepers i ns cid)" unfolding keeper_addrs_def by (rule card_image_le)
qed

lemma keepers_protect:
  assumes "protect_chunk (nd_srv (ns ! j)) now cid = Ret (e, s)"
  shows "keepers i (ns[j := (ns ! j)\<lparr>nd_srv := s\<rparr>]) c = keepers i ns c"
    and "keeper_addrs i (ns[j := (ns ! j)\<lparr>nd_srv := s\<rparr>]) c = keeper_addrs i ns c"
proof -
  note k = protect_keeps [OF assms]
  have nd: "has_chunk (ns[j := (ns ! j)\<lparr>nd_srv := s\<rparr>] ! l) c = has_chunk (ns ! l) c"
    "nd_addr (ns[j := (ns ! j)\<lparr>nd_srv := s\<rparr>] ! l) = nd_addr (ns ! l)" if "l < length ns" for l
    using k that by (cases "l = j"; simp add: has_chunk_def nd_addr_def)+
  then show a: "keepers i (ns[j := (ns ! j)\<lparr>nd_srv := s\<rparr>]) c = keepers i ns c" by (auto simp: keepers_def)
  show "keeper_addrs i (ns[j := (ns ! j)\<lparr>nd_srv := s\<rparr>]) c = keeper_addrs i ns c"
    unfolding keeper_addrs_def a by (rule image_cong) (simp_all add: nd keepers_def)
qed

lemma keepers_others:
  assumes "others_step (nd_srv (ns ! j)) s"
  shows "keeper_addrs i ns c \<subseteq> keeper_addrs i (ns[j := (ns ! j)\<lparr>nd_srv := s\<rparr>]) c"
proof -
  let ?ns = "ns[j := (ns ! j)\<lparr>nd_srv := s\<rparr>]"
  have nd: "has_chunk (ns ! l) c \<Longrightarrow> has_chunk (?ns ! l) c" "nd_addr (?ns ! l) = nd_addr (ns ! l)" if "l < length ns" for l
    using assms that by (cases "l = j"; simp add: others_step_def has_chunk_def nd_addr_def)+
  show ?thesis
  proof
    fix a assume "a \<in> keeper_addrs i ns c"
    then obtain l where "l \<in> keepers i ns c" "a = nd_addr (ns ! l)" by (auto simp: keeper_addrs_def)
    then have "l \<in> keepers i ?ns c" "a = nd_addr (?ns ! l)" using nd by (auto simp: keepers_def)
    then show "a \<in> keeper_addrs i ?ns c" by (auto simp: keeper_addrs_def)
  qed
qed

text \<open>
  During a turn, every server of the part of the list that was already asked has the chunk; and so
  has every server of the list when the chunk is given up.
\<close>

definition rel_inv :: "nat \<Rightarrow> int \<Rightarrow> string list \<Rightarrow> node list \<Rightarrow> bool" where
  "rel_inv i cid as ns \<longleftrightarrow> i < length ns \<and> server_inv (nd_srv (ns ! i))
     \<and> (nd_pc (ns ! i) = RIdle \<or> (\<exists>n. nd_pc (ns ! i) = RAsk cid as n \<and> set (take n as) \<subseteq> keeper_addrs i ns cid))
     \<and> (\<not> has_chunk (ns ! i) cid \<longrightarrow> nd_pc (ns ! i) = RIdle \<and> set as \<subseteq> keeper_addrs i ns cid)"

lemma rel_inv_asked:
  assumes "rel_inv i cid as ns" and "nd_pc (ns ! i) = RAsk c bs n"
  shows "c = cid" and "bs = as" and "has_chunk (ns ! i) cid" and "set (take n as) \<subseteq> keeper_addrs i ns cid"
  using assms by (auto simp: rel_inv_def split: if_splits)

lemma rel_inv_step:
  assumes "rel_step i ns ns'" and inv: "rel_inv i cid as ns" and pc: "nd_pc (ns ! i) \<noteq> RIdle"
  shows "rel_inv i cid as ns'"
  using assms(1)
proof cases
  case (rel_queue c)
  then show ?thesis using inv by (auto simp: rel_inv_def has_chunk_def)
next
  case (rel_take c q p)
  then show ?thesis using pc by simp
next
  case (rel_list c bs)
  then show ?thesis using inv by (auto simp: rel_inv_def)
next
  case (rel_ask c bs n j now e s)
  let ?ns = "ns[j := (ns ! j)\<lparr>nd_srv := s\<rparr>]"
  note a = rel_inv_asked [OF inv rel_ask(3)] and k = keepers_protect [OF rel_ask(8)]
  have same: "?ns ! i = ns ! i" using rel_ask(6) by simp
  have "as ! n \<in> keeper_addrs i ns cid" if "e = None"
  proof -
    have "j \<in> keepers i ns cid" using rel_ask protect_agrees(3) that a(1) by (auto simp: keepers_def has_chunk_def)
    then show ?thesis using rel_ask(7) a(2) unfolding keeper_addrs_def by (metis imageI)
  qed
  then have "set (take (Suc n) as) \<subseteq> keeper_addrs i ns cid" if "e = None"
    using that a(2,4) rel_ask(4) by (simp add: take_Suc_conv_app_nth)
  then show ?thesis unfolding rel_ask(1) using inv a same k rel_ask(2)
    by (auto simp: rel_inv_def has_chunk_def)
next
  case (rel_fail c bs n)
  then show ?thesis using inv rel_inv_asked [OF inv rel_fail(3)] by (auto simp: rel_inv_def has_chunk_def)
next
  case (rel_drop c bs clock now s)
  note a = rel_inv_asked [OF inv rel_drop(3)]
  have "server_inv (nd_srv (ns ! i))" using inv by (simp add: rel_inv_def)
  moreover have "IsPresent (srv_core (nd_srv (ns ! i))) cid = Ret True" using a(3) by (simp add: has_chunk_def)
  ultimately have "server_inv s" using release_finish_ok [of "nd_srv (ns ! i)" cid True clock now] rel_drop(4) a(1) by auto
  then show ?thesis unfolding rel_drop(1) using a rel_drop(2) by (auto simp: rel_inv_def)
qed

lemma rel_inv_others:
  assumes "others_step (nd_srv (ns ! j)) s" and "rel_inv i cid as ns" and "j < length ns"
  shows "rel_inv i cid as (ns[j := (ns ! j)\<lparr>nd_srv := s\<rparr>])"
proof -
  note k = keepers_others [OF assms(1), of i cid]
  show ?thesis
  proof (cases "j = i")
    case True
    then show ?thesis using assms by (auto simp: rel_inv_def others_step_def has_chunk_def split: if_split_asm)
  next
    case False
    then have "ns[j := (ns ! j)\<lparr>nd_srv := s\<rparr>] ! i = ns ! i" by simp
    then show ?thesis using assms(2) k unfolding rel_inv_def by auto
  qed
qed

lemma rel_inv_turn: "turn_run i ns ns' \<Longrightarrow> rel_inv i cid as ns \<Longrightarrow> rel_inv i cid as ns'"
  by (induction rule: turn_run.induct) (auto intro: rel_inv_step rel_inv_others)

lemma protect_accepts:
  assumes inv: "server_inv s" and p: "IsPresent (srv_core s) cid = Ret True"
    and k: "NumHolders (srv_sg s) cid = Ret k" "int k > redundancy (srv_sg s)"
  obtains s' where "protect_chunk s now cid = Ret (None, s')" and "server_inv s'" and "srv_sg s' = srv_sg s"
    and "IsPresent (srv_core s') cid = Ret True"
proof -
  have c: "0 \<le> cid" "cid < numChunks (srv_sg s)"
    using inv p by (auto simp: IsPresent_def bindG_eq_Ret get_chunk_eq server_inv_def)
  obtain e s' where s': "protect_chunk s now cid = Ret (e, s')" "server_inv s'" using protect_ok [OF inv c] by blast
  have "e = None" using s'(1) k p by (auto simp: protect_chunk_def IsPresent_def ChunkSetProtected_def bindG_eq_Ret split: if_splits)
  then show thesis using s' protect_keeps [OF s'(1)] p by (intro that [of s']) simp_all
qed

text \<open>Two servers that both hold a chunk with a holder too many.\<close>

definition spare :: "dbServer \<Rightarrow> int \<Rightarrow> string \<Rightarrow> bool" where
  "spare s cid a \<longleftrightarrow> server_inv s \<and> IsPresent (srv_core s) cid = Ret True \<and> IsProtected (srv_core s) cid = Ret False
     \<and> (\<exists>k. NumHolders (srv_sg s) cid = Ret k \<and> int k > redundancy (srv_sg s)) \<and> other_holders s cid = Ret [a]"

abbreviation idle :: "dbServer \<Rightarrow> node" where "idle s \<equiv> \<lparr>nd_srv = s, nd_queue = [], nd_pc = RIdle\<rparr>"
abbreviation frees :: "dbServer \<Rightarrow> int \<Rightarrow> node" where "frees s cid \<equiv> \<lparr>nd_srv = s, nd_queue = [], nd_pc = RFree cid\<rparr>"
abbreviation asks :: "dbServer \<Rightarrow> int \<Rightarrow> string list \<Rightarrow> nat \<Rightarrow> node" where
  "asks s cid as n \<equiv> \<lparr>nd_srv = s, nd_queue = [], nd_pc = RAsk cid as n\<rparr>"

lemma queue_step:
  assumes "wants_release s cid = Ret True" and "i < length ns" and "ns ! i = idle s"
  shows "rel_step i ns (ns[i := (idle s)\<lparr>nd_queue := [cid]\<rparr>])"
  using rel_queue [of i ns cid] assms by (simp add: releaseBuffer_def)

lemma take_step:
  assumes "IsProtected (srv_core s) cid = Ret False" and "i < length ns" and "ns ! i = (idle s)\<lparr>nd_queue := [cid]\<rparr>"
  shows "rel_step i ns (ns[i := frees s cid])"
  using rel_take [of i ns cid "[]" False] assms by simp

lemma list_step:
  assumes "other_holders s cid = Ret as" and "i < length ns" and "ns ! i = frees s cid"
  shows "rel_step i ns (ns[i := asks s cid as 0])"
  using rel_list [of i ns cid as] assms by simp

lemma ask_step:
  assumes "i < length ns" and "ns ! i = asks s cid as n" and "n < length as" and "j < length ns" and "j \<noteq> i" and "ns ! j = nd"
    and "LocalhostIPPort (srv_sg (nd_srv nd)) = as ! n" and "protect_chunk (nd_srv nd) now cid = Ret (None, s')"
  shows "rel_step i ns (ns[j := nd\<lparr>nd_srv := s'\<rparr>, i := asks s cid as (Suc n)])"
  using rel_ask [of i ns cid as n j now None s'] assms by (simp add: nd_addr_def)

lemma drop_step:
  assumes "i < length ns" and "ns ! i = asks s cid as (length as)" and "release_finish os_fine clock now s cid = Ret s'"
  shows "rel_step i ns (ns[i := idle s'])"
  using rel_drop [of i ns cid as clock now s'] assms by simp

lemma spare_begin:
  assumes s: "spare s cid a" and "rel_run I ns0 ns" and "i \<in> I" and "i < length ns" and "ns ! i = idle s"
  shows "rel_run I ns0 (ns[i := asks s cid [a] 0])"
proof -
  have w: "wants_release s cid = Ret True" using s by (auto simp: spare_def wants_release_def)
  have p: "IsProtected (srv_core s) cid = Ret False" "other_holders s cid = Ret [a]" using s by (simp_all add: spare_def)
  have "rel_run I ns0 (ns[i := (idle s)\<lparr>nd_queue := [cid]\<rparr>])"
    using rel_more [OF assms(2,3) queue_step [OF w assms(4,5)]] .
  from rel_more [OF this assms(3) take_step [OF p(1)]] have "rel_run I ns0 (ns[i := frees s cid])" using assms(4) by simp
  from rel_more [OF this assms(3) list_step [OF p(2)]] show ?thesis using assms(4) by simp
qed

lemma spare_protects:
  assumes "spare s cid a"
  obtains s' where "protect_chunk s now cid = Ret (None, s')" and "server_inv s'" and "srv_sg s' = srv_sg s"
    and "IsPresent (srv_core s') cid = Ret True"
  using assms protect_accepts unfolding spare_def by metis

lemma release_alone:
  assumes a: "spare a cid (LocalhostIPPort (srv_sg b))" and b: "spare b cid x"
  shows "\<exists>ns'. turn_run 0 [asks a cid [LocalhostIPPort (srv_sg b)] 0, idle b] ns' \<and> \<not> has_chunk (ns' ! 0) cid"
proof -
  obtain b' where b': "protect_chunk b 0 cid = Ret (None, b')" using spare_protects [OF b] by metis
  have "server_inv a" "IsPresent (srv_core a) cid = Ret True" using a by (simp_all add: spare_def)
  then obtain s where s: "release_finish os_fine (\<lambda>_. 0) 0 a cid = Ret s" "IsPresent (srv_core s) cid = Ret False"
    using release_finish_ok by (metis (full_types))
  let ?b = "[LocalhostIPPort (srv_sg b)]"
  have 1: "rel_step 0 [asks a cid ?b 0, idle b] [asks a cid ?b 1, idle b']"
    using ask_step [of 0 "[asks a cid ?b 0, idle b]" a cid ?b 0 1 "idle b" 0 b'] b' by simp
  have 2: "rel_step 0 [asks a cid ?b 1, idle b'] [idle s, idle b']"
    using drop_step [of 0 "[asks a cid ?b 1, idle b']" a cid ?b _ _ s] s(1) by simp
  have "turn_run 0 [asks a cid ?b 0, idle b] [idle s, idle b']"
    by (rule turn_more [OF turn_more [OF turn_stop _ 1] _ 2]) simp_all
  then show ?thesis using s(2) by (intro exI [of _ "[idle s, idle b']"]) (simp add: has_chunk_def)
qed

lemma release_both:
  assumes a: "spare a cid (LocalhostIPPort (srv_sg b))" and b: "spare b cid (LocalhostIPPort (srv_sg a))"
  shows "\<exists>ns'. rel_run {0, 1} [idle a, idle b] ns' \<and> length ns' = 2 \<and> \<not> has_chunk (ns' ! 0) cid \<and> \<not> has_chunk (ns' ! 1) cid"
proof -
  let ?a = "[LocalhostIPPort (srv_sg a)]" and ?b = "[LocalhostIPPort (srv_sg b)]"
  obtain a' where a': "protect_chunk a 0 cid = Ret (None, a')" "server_inv a'" "srv_sg a' = srv_sg a" "IsPresent (srv_core a') cid = Ret True"
    using a by (rule spare_protects)
  obtain b' where b': "protect_chunk b 0 cid = Ret (None, b')" "server_inv b'" "srv_sg b' = srv_sg b" "IsPresent (srv_core b') cid = Ret True"
    using b by (rule spare_protects)
  obtain s where s: "release_finish os_fine (\<lambda>_. 0) 0 a' cid = Ret s" "IsPresent (srv_core s) cid = Ret False"
    using release_finish_ok [OF a'(2,4)] by (metis (full_types))
  obtain t where t: "release_finish os_fine (\<lambda>_. 0) 0 b' cid = Ret t" "IsPresent (srv_core t) cid = Ret False"
    using release_finish_ok [OF b'(2,4)] by (metis (full_types))
  have "rel_run {0, 1} [idle a, idle b] [asks a cid ?b 0, idle b]"
    using spare_begin [OF a rel_stop, of 0 "{0, 1}" "[idle a, idle b]"] by simp
  then have 1: "rel_run {0, 1} [idle a, idle b] [asks a cid ?b 0, asks b cid ?a 0]"
    using spare_begin [OF b, of "{0, 1}" "[idle a, idle b]" "[asks a cid ?b 0, idle b]" 1] by simp
  have 2: "rel_step 0 [asks a cid ?b 0, asks b cid ?a 0] [asks a cid ?b 1, asks b' cid ?a 0]"
    using ask_step [of 0 "[asks a cid ?b 0, asks b cid ?a 0]" a cid ?b 0 1 "asks b cid ?a 0" 0 b'] b'(1) by simp
  have 3: "rel_step 1 [asks a cid ?b 1, asks b' cid ?a 0] [asks a' cid ?b 1, asks b' cid ?a 1]"
    using ask_step [of 1 "[asks a cid ?b 1, asks b' cid ?a 0]" b' cid ?a 0 0 "asks a cid ?b 1" 0 a'] a'(1) by simp
  have 4: "rel_step 0 [asks a' cid ?b 1, asks b' cid ?a 1] [idle s, asks b' cid ?a 1]"
    using drop_step [of 0 "[asks a' cid ?b 1, asks b' cid ?a 1]" a' cid ?b _ _ s] s(1) by simp
  have 5: "rel_step 1 [idle s, asks b' cid ?a 1] [idle s, idle t]"
    using drop_step [of 1 "[idle s, asks b' cid ?a 1]" b' cid ?a _ _ t] t(1) by simp
  have "rel_run {0, 1} [idle a, idle b] [idle s, idle t]"
    by (rule rel_more [OF rel_more [OF rel_more [OF rel_more [OF 1 _ 2] _ 3] _ 4] _ 5]) simp_all
  then show ?thesis using s(2) t(2) by (intro exI [of _ "[idle s, idle t]"]) (simp add: has_chunk_def)
qed

text \<open>
  The number of holders is tested when the chunk is put into the channel, and not again when it
  is taken out: a releaser whose view has lost the other holders in between asks nobody and gives up the
  last copy.
\<close>

lemma release_last_copy:
  assumes w: "wants_release s cid = Ret True" and "others_step s s'" and inv: "server_inv s'"
    and p: "IsProtected (srv_core s') cid = Ret False" and h: "other_holders s' cid = Ret []"
  shows "rel_step 0 [idle s] [(idle s)\<lparr>nd_queue := [cid]\<rparr>]"
    and "\<exists>ns'. rel_run {0} [(idle s')\<lparr>nd_queue := [cid]\<rparr>] ns' \<and> \<not> has_chunk (ns' ! 0) cid"
proof -
  show "rel_step 0 [idle s] [(idle s)\<lparr>nd_queue := [cid]\<rparr>]" using queue_step [OF w, of 0 "[idle s]"] by simp
  obtain b where b: "IsPresent (srv_core s') cid = Ret b"
    using p by (auto simp: IsProtected_def IsPresent_def bindG_eq_Ret)
  obtain t where t: "release_finish os_fine (\<lambda>_. 0) 0 s' cid = Ret t" "IsPresent (srv_core t) cid = Ret False"
    using release_finish_ok [OF inv b] by (metis (full_types))
  have 1: "rel_step 0 [(idle s')\<lparr>nd_queue := [cid]\<rparr>] [frees s' cid]" using take_step [OF p, of 0 "[_]"] by simp
  have 2: "rel_step 0 [frees s' cid] [asks s' cid [] 0]" using list_step [OF h, of 0 "[_]"] by simp
  have 3: "rel_step 0 [asks s' cid [] 0] [idle t]" using drop_step [of 0 "[asks s' cid [] 0]" s' cid "[]" _ _ t] t(1) by simp
  have "rel_run {0} [(idle s')\<lparr>nd_queue := [cid]\<rparr>] [idle t]"
    by (rule rel_more [OF rel_more [OF rel_more [OF rel_stop _ 1] _ 2] _ 3]) simp_all
  then show "\<exists>ns'. rel_run {0} [(idle s')\<lparr>nd_queue := [cid]\<rparr>] ns' \<and> \<not> has_chunk (ns' ! 0) cid"
    using t(2) by (intro exI [of _ "[idle t]"]) (simp add: has_chunk_def)
qed

section \<open>Properties\<close>

text \<open>
  C27: A release is safe as far as the releaser's list goes: when a releaser has listed the other
  holders of a chunk and gives the chunk up at the end of this turn, then every server of the list
  has the chunk, and all the servers that have it are at least as many as the holders it knew when it made
  the list, itself excepted; so the redundancy is kept whenever it knew more holders than the redundancy
  asks for at that moment. Meanwhile the heartbeats, the clients, the duplicators and the expiring
  protections of all the servers may change anything but take a chunk away; no other server releases a
  chunk. The number of holders is not tested in the turn itself: the load rebalancer does it
  earlier, before the chunk waits in the channel.
\<close>

theorem single_release_safe:
  assumes "i < length ns" and "server_inv (nd_srv (ns ! i))" and "nd_pc (ns ! i) = RFree cid"
    and "NumHolders (srv_sg (nd_srv (ns ! i))) cid = Ret k"
    and "rel_step i ns ns1" and "nd_pc (ns1 ! i) = RAsk cid as 0"
    and "turn_run i ns1 ns2" and "has_chunk (ns ! i) cid" and "\<not> has_chunk (ns2 ! i) cid"
  shows "(\<forall>a\<in>set as. \<exists>j<length ns2. j \<noteq> i \<and> nd_addr (ns2 ! j) = a \<and> has_chunk (ns2 ! j) cid)
    \<and> k \<le> card {j. j < length ns2 \<and> j \<noteq> i \<and> has_chunk (ns2 ! j) cid} + 1"
proof -
  have ns1: "ns1 = ns[i := (ns ! i)\<lparr>nd_pc := RAsk cid as 0\<rparr>]" and as: "other_holders (nd_srv (ns ! i)) cid = Ret as"
    using assms(5) by (cases; use assms(1,3,6) in simp)+
  have "rel_inv i cid as ns1" using assms(1,2,8) by (simp add: ns1 rel_inv_def has_chunk_def)
  from rel_inv_turn [OF assms(7) this] have k: "set as \<subseteq> keeper_addrs i ns2 cid" using assms(9) by (simp add: rel_inv_def)
  have "card (set as) \<le> card (keeper_addrs i ns2 cid)"
    by (rule card_mono [OF _ k]) (simp add: keeper_addrs_def keepers_card(1))
  then have "k \<le> card (keepers i ns2 cid) + 1"
    using other_holders_many [OF _ assms(4) as] assms(2) keepers_card(2) [of i ns2 cid] by (simp add: server_inv_def)
  then show ?thesis using k by (auto simp: keepers_def keeper_addrs_def)
qed

definition ex_two :: "string \<Rightarrow> dbServer" where
  "ex_two a = start_server (ex_core ex_map) Map.empty (hb_new \<lparr>LocalhostIPPort = a, numChunks = 1, redundancy = 1,
     servers = [(''a'', 0), (''b'', 1)], sg_chunks = [\<lparr>vc_id = 0, holders = [0, 1]\<rparr>], sg_noDelay = False,
     objs = map (\<lambda>x. (new_VirtualServer x False)\<lparr>heldChunks := [\<lparr>chunk_ID = 0, chunk_Checksum = 0\<rparr>]\<rparr>) [''a'', ''b'']\<rparr> 0 ([], sconst (0, None))) ex_com"

lemma ex_two_spare: "spare (ex_two ''a'') 0 ''b''" "spare (ex_two ''b'') 0 ''a''"
proof -
  have core: "core_inv (ex_core ex_map)" using ex_core_inv [OF ex_map_inv] .
  have inv: "server_inv (ex_two x)" for x
    using core by (simp add: server_inv_def ex_two_def start_server_def hb_new_def)
      (auto simp: sg_inv_def ids_ok_def new_VirtualServer_def holders_ok_def sg_holds_def ex_core_def nth_Cons')
  have p: "IsPresent (srv_core (ex_two x)) 0 = Ret True" "IsProtected (srv_core (ex_two x)) 0 = Ret False" for x
    by (simp_all add: ex_two_def start_server_def ex_core_def IsPresent_def IsProtected_def get_chunk_def index_of_def)
  have n: "NumHolders (srv_sg (ex_two x)) 0 = Ret 2" "redundancy (srv_sg (ex_two x)) = 1" for x
    by (simp_all add: ex_two_def start_server_def hb_new_def NumHolders_def index_int_def)
  have g: "GetChunkHolders (srv_sg (ex_two x)) 0 = Ret [Some 0, Some 1, None, None, None, None, None, None]" for x
    by (simp add: ex_two_def start_server_def hb_new_def GetChunkHolders_def index_int_def fill_holders_eq numeral_eq_Suc)
  have "other_holders (ex_two ''a'') 0 = Ret [''b'']" "other_holders (ex_two ''b'') 0 = Ret [''a'']"
    by (simp_all add: other_holders_def g List.map_filter_def) (simp_all add: ex_two_def start_server_def hb_new_def new_VirtualServer_def)
  then show "spare (ex_two ''a'') 0 ''b''" "spare (ex_two ''b'') 0 ''a''" using inv p n by (simp_all add: spare_def)
qed

lemma ex_two_addr [simp]: "LocalhostIPPort (srv_sg (ex_two a)) = a"
  by (simp add: ex_two_def start_server_def hb_new_def)

theorem single_release_safe_witness:
  "\<exists>ns2. turn_run 0 [asks (ex_two ''a'') 0 [''b''] 0, idle (ex_two ''b'')] ns2 \<and> \<not> has_chunk (ns2 ! 0) 0
     \<and> 2 \<le> card {j. j < length ns2 \<and> j \<noteq> 0 \<and> has_chunk (ns2 ! j) 0} + 1"
proof -
  let ?ns = "[frees (ex_two ''a'') 0, idle (ex_two ''b'')]" and ?ns1 = "[asks (ex_two ''a'') 0 [''b''] 0, idle (ex_two ''b'')]"
  obtain ns2 where ns2: "turn_run 0 ?ns1 ns2" "\<not> has_chunk (ns2 ! 0) 0"
    using release_alone [of "ex_two ''a''" 0 "ex_two ''b''" "''a''"] ex_two_spare by auto
  have s: "rel_step 0 ?ns ?ns1" using list_step [of "ex_two ''a''" 0 "[''b'']" 0 ?ns] ex_two_spare(1) by (simp add: spare_def)
  have k: "NumHolders (srv_sg (ex_two ''a'')) 0 = Ret 2"
    by (simp add: ex_two_def start_server_def hb_new_def NumHolders_def index_int_def)
  show ?thesis using single_release_safe [of 0 ?ns 0 2 ?ns1 "[''b'']" ns2] ns2 s k ex_two_spare(1)
    by (auto simp: spare_def has_chunk_def)
qed

text \<open>
  C28: Two releases at the same time lose a chunk, which the protection is meant to prevent: when two
  servers are the only holders of a chunk, with a redundancy of one, both can find it
  unprotected at home, both then agree to protect it for the other one, and both give
  it up, since neither looks at its own protection again. No server has the chunk then.
\<close>

theorem concurrent_releases_lose_chunk:
  assumes "spare a cid (LocalhostIPPort (srv_sg b))" and "spare b cid (LocalhostIPPort (srv_sg a))"
  shows "\<exists>ns'. rel_run {0, 1} [idle a, idle b] ns' \<and> length ns' = 2 \<and> \<not> has_chunk (ns' ! 0) cid \<and> \<not> has_chunk (ns' ! 1) cid"
  using assms by (rule release_both)

theorem concurrent_releases_lose_chunk_witness:
  "\<exists>ns'. rel_run {0, 1} [idle (ex_two ''a''), idle (ex_two ''b'')] ns' \<and> \<not> has_chunk (ns' ! 0) 0 \<and> \<not> has_chunk (ns' ! 1) 0"
  using concurrent_releases_lose_chunk [of "ex_two ''a''" 0 "ex_two ''b''"] ex_two_spare by auto

end
