(* ===== verification/Repair.thy ===== *)
theory Repair
  imports Rebalance
begin

text \<open>
  The repair system (src/dist/repair/repair.go): it watches the checksums of the holders of each
  chunk, and when they have been different for long enough it sends the pairs of its own copy to
  all of them, the newest first.
\<close>

section \<open>Sending the pairs\<close>

definition checksTillRepair :: nat where
  "checksTillRepair = 8"

text \<open>An asynchronous write to every holder.\<close>

definition send_holder :: "dialer \<Rightarrow> bytes \<Rightarrow> bytes \<Rightarrow> nat option \<Rightarrow> serverGroup \<Rightarrow> serverGroup" where
  "send_holder dial key val h sg = (case h of
     None \<Rightarrow> sg
   | Some p \<Rightarrow> on_server (\<lambda>s. snd (vs_Set dial s key val 0 p)) p sg)"

text \<open>
  The callback of the iteration. The counter \<open>i\<close> of the source decides when the checksums are compared; it
  is never incremented.
\<close>

definition repair_pair :: "dialer \<Rightarrow> int \<Rightarrow> bytes \<Rightarrow> bytes \<Rightarrow> nat \<times> serverGroup \<Rightarrow> (bool \<times> nat \<times> serverGroup) go" where
  "repair_pair dial cid key val x = (case x of (i, sg) \<Rightarrow>
     bindG (if i mod 128 = 0 then IsSynched sg cid else Ret False) (\<lambda>synched.
     if synched then Ret (False, i, sg)
     else bindG (GetChunkHolders sg cid) (\<lambda>ps. Ret (True, i, fold (send_holder dial key val) ps sg))))"

definition repair :: "dialer \<Rightarrow> dbServer \<Rightarrow> int \<Rightarrow> dbServer go" where
  "repair dial s cid = bindG (core_BackwardsIterate (srv_core s) cid (repair_pair dial cid) (0, srv_sg s)) (\<lambda>(e, i, sg).
     Ret (with_sg s sg))"

section \<open>The loop\<close>

text \<open>
  A turn of the loop: \<open>m\<close> counts for how many turns in a row a chunk has been out of sync.
\<close>

definition repair_chunk :: "dialer \<Rightarrow> nat \<Rightarrow> (nat \<rightharpoonup> nat) \<times> dbServer \<Rightarrow> ((nat \<rightharpoonup> nat) \<times> dbServer) go" where
  "repair_chunk dial cid x = (case x of (m, s) \<Rightarrow>
     bindG (IsPresent (srv_core s) (int cid)) (\<lambda>p.
     if \<not> p then Ret (m, s)
     else bindG (IsSynched (srv_sg s) (int cid)) (\<lambda>synched.
       if synched then Ret (m(cid := None), s)
       else let k = (case m cid of None \<Rightarrow> 0 | Some k \<Rightarrow> k) + 1; m' = m(cid \<mapsto> k) in
            if k \<ge> checksTillRepair then bindG (repair dial s (int cid)) (\<lambda>s'. Ret (m', s')) else Ret (m', s))))"

definition repair_turn :: "dialer \<Rightarrow> (nat \<Rightarrow> time) \<Rightarrow> time \<Rightarrow> (nat \<rightharpoonup> nat) \<times> dbServer \<Rightarrow> ((nat \<rightharpoonup> nat) \<times> dbServer) go" where
  "repair_turn dial clock now x = (case x of (m, s) \<Rightarrow>
     if srv_stopped s then Ret (m, s)
     else bindG (report_self clock now s) (\<lambda>s1.
       foldG (repair_chunk dial) [0..<nat (numChunks (srv_sg s1))] (m, s1)))"

section \<open>Lemmas\<close>

lemma vs_Set_frame:
  "Phy (snd (vs_Set dial s k v t rc)) = Phy s" "heldChunks (snd (vs_Set dial s k v t rc)) = heldChunks s"
  by (auto simp: vs_Set_def split: prod.splits option.splits dest: needConnection_frame)

lemma send_holders_frame:
  assumes "sg_inv sg"
  shows "sg_inv (fold (send_holder dial k v) ps sg) \<and> numChunks (fold (send_holder dial k v) ps sg) = numChunks sg
    \<and> sg_chunks (fold (send_holder dial k v) ps sg) = sg_chunks sg"
  using assms
proof (induction ps arbitrary: sg)
  case (Cons p ps)
  have "sg_inv (send_holder dial k v p sg)"
    using Cons.prems on_server_inv [OF Cons.prems] by (simp add: send_holder_def vs_Set_frame split: option.splits)
  from Cons.IH [OF this] show ?case by (simp add: send_holder_def split: option.splits)
qed simp

text \<open>Each holder gets the write once.\<close>

lemma send_holders_obj:
  assumes "distinct qs" and "\<forall>q\<in>set qs. q < length (objs sg)"
  shows "objs (fold (send_holder dial k v) (map Some qs @ replicate n None) sg) ! q
      = (if q \<in> set qs then snd (vs_Set dial (objs sg ! q) k v 0 q) else objs sg ! q)
    \<and> length (objs (fold (send_holder dial k v) (map Some qs @ replicate n None) sg)) = length (objs sg)"
  using assms
proof (induction qs arbitrary: sg)
  case Nil
  have "fold (send_holder dial k v) (replicate n None) sg = sg" by (induction n) (simp_all add: send_holder_def)
  then show ?case by simp
next
  case (Cons p qs)
  let ?sg = "send_holder dial k v (Some p) sg"
  have "length (objs ?sg) = length (objs sg)" by (simp add: send_holder_def)
  moreover have "objs ?sg ! x = (if x = p then snd (vs_Set dial (objs sg ! p) k v 0 p) else objs sg ! x)" for x
    using Cons.prems(2) by (simp add: send_holder_def on_server_obj)
  ultimately show ?case using Cons.IH [of ?sg] Cons.prems by auto
qed

text \<open>The messages on a connection after a number of asynchronous writes.\<close>

definition opened :: "virtualServer \<Rightarrow> brokerMsg list" where
  "opened s = (case link s of Some ms \<Rightarrow> ms | None \<Rightarrow> if vs_noDelay s then [client_SetNoDelay] else [])"

lemma writes_link:
  assumes "link s \<noteq> None \<or> dial (Phy s) = None" and "ps \<noteq> []"
  shows "link (fold (\<lambda>(k, v) s. snd (vs_Set dial s k v 0 p)) ps s) = Some (opened s @ map (\<lambda>(k, v). client_Set k v 0 p) ps)"
proof -
  have 1: "link (snd (vs_Set dial s k v 0 p)) = Some (opened s @ [client_Set k v 0 p])"
    if "link s \<noteq> None \<or> dial (Phy s) = None" for s k v
    using that by (auto simp: vs_Set_def needConnection_def hand_over_def opened_def split: option.splits)
  have "link s = Some ms \<Longrightarrow> link (fold (\<lambda>(k, v) s. snd (vs_Set dial s k v 0 p)) qs s) = Some (ms @ map (\<lambda>(k, v). client_Set k v 0 p) qs)" for s ms qs
  proof (induction qs arbitrary: s ms)
    case (Cons q qs)
    then show ?case using 1 [of s "fst q" "snd q"] by (cases q) (simp add: opened_def)
  qed simp
  then show ?thesis using assms 1 by (cases ps) (auto split: prod.splits)
qed

lemma sync_frame:
  assumes "sg_inv sg" and "sg_inv sg'" and "numChunks sg' = numChunks sg" and "sg_chunks sg' = sg_chunks sg"
    and "\<And>q. heldChunks (objs sg' ! q) = heldChunks (objs sg ! q)" and "0 \<le> cid" and "cid < numChunks sg"
  shows "IsSynched sg' cid = IsSynched sg cid"
proof -
  have "sum_of sg' cid = sum_of sg cid" using assms(5) by (simp add: fun_eq_iff sum_of_def getChunk_def)
  then show ?thesis using IsSynched_eq [OF assms(1)] IsSynched_eq [OF assms(2)] assms by simp
qed

lemma repair_run:
  assumes "sg_inv sg" and "0 \<le> cid" and "cid < numChunks sg" and "holders (sg_chunks sg ! nat cid) = qs" and "length qs \<le> 8"
    and "IsSynched sg cid = Ret False"
  shows "\<exists>sg'. run_each (repair_pair dial cid) ps (0, sg) = Ret (0, sg')
    \<and> (\<forall>q\<in>set qs. objs sg' ! q = fold (\<lambda>(k, v) s. snd (vs_Set dial s k v 0 q)) ps (objs sg ! q))"
  using assms
proof (induction ps arbitrary: sg)
  case (Cons x ps)
  obtain k v where x: "x = (k, v)" by fastforce
  let ?hs = "map Some qs @ replicate (8 - length qs) None"
  define sg1 where "sg1 = fold (send_holder dial k v) ?hs sg"
  have g: "GetChunkHolders sg cid = Ret ?hs" using holders_at_most_eight [OF Cons.prems(1-4)] Cons.prems(5) by simp
  have n: "nat cid < length (sg_chunks sg)" "int (nat cid) = cid" using Cons.prems(1-3) by (auto simp: sg_inv_def)
  then have "distinct qs" "\<forall>q\<in>set qs. sg_holds sg cid q" using Cons.prems(1,4) by (auto simp: sg_inv_def holders_ok_def)
  then have qs: "distinct qs" "\<forall>q\<in>set qs. q < length (objs sg)"
    using sg_server(1) [OF Cons.prems(1)] by (auto simp: sg_holds_def)
  note o = send_holders_obj [OF qs, of dial k v "8 - length qs", folded sg1_def]
  note f = send_holders_frame [OF Cons.prems(1), of dial k v ?hs, folded sg1_def]
  have "heldChunks (objs sg1 ! q) = heldChunks (objs sg ! q)" for q using o [of q] by (simp add: vs_Set_frame)
  then have "IsSynched sg1 cid = Ret False" using sync_frame [of sg sg1 cid] f Cons.prems by simp
  then obtain sg' where "run_each (repair_pair dial cid) ps (0, sg1) = Ret (0, sg')"
    "\<forall>q\<in>set qs. objs sg' ! q = fold (\<lambda>(k, v) s. snd (vs_Set dial s k v 0 q)) ps (objs sg1 ! q)"
    using Cons.IH [of sg1] f Cons.prems by auto
  moreover have "repair_pair dial cid k v (0, sg) = Ret (True, 0, sg1)" using Cons.prems(6) g by (simp add: repair_pair_def sg1_def)
  ultimately show ?case using o x by auto
qed simp

section \<open>Properties\<close>


definition ex_split :: dbServer where
  "ex_split = start_server (ex_core ex_map1) Map.empty (hb_new \<lparr>LocalhostIPPort = ''a'', numChunks = 1, redundancy = 2,
     servers = [(''a'', 0), (''b'', 1)], sg_chunks = [\<lparr>vc_id = 0, holders = [0, 1]\<rparr>], sg_noDelay = False,
     objs = [(new_VirtualServer ''a'' False)\<lparr>heldChunks := [\<lparr>chunk_ID = 0, chunk_Checksum = 3\<rparr>]\<rparr>,
             (new_VirtualServer ''b'' False)\<lparr>heldChunks := [\<lparr>chunk_ID = 0, chunk_Checksum = 4\<rparr>]\<rparr>]\<rparr> 0 ([], sconst (0, None))) ex_com"


end
