(* ===== verification/Server_Net.thy ===== *)
theory Server_Net
  imports DB_Server
begin

text \<open>
  The server on the network: its heartbeats (src/dist/heartbeat/heartbeat.go, \<open>ListenReply\<close>) are the callback of
  the listening loops (src/com/comserver.go), and the UDP request of another server
  (src/com/comclient.go) reads them.
\<close>

section \<open>Definitions\<close>

text \<open>\<open>s.hb.ListenReply(s.core)\<close>.\<close>

definition srv_reply :: "(nat \<Rightarrow> time) \<Rightarrow> dbServer \<Rightarrow> (amAlive \<times> dbServer) go" where
  "srv_reply clock s = bindG (report clock (srv_core s)) (\<lambda>(l, c).
     case ListenReply l (srv_hb s) of (aa, h) \<Rightarrow> Ret (aa, (with_core s c)\<lparr>srv_hb := h\<rparr>))"

text \<open>
  The loop of \<open>UDPRequest\<close>: \<open>ps\<close> are the packets that come before the deadline, with the IP of their sender.
  A packet is cut to the size of the buffer.
\<close>

fun read_replies :: "string \<Rightarrow> (string \<times> bytes) list \<Rightarrow> amAlive option go" where
  "read_replies dest [] = Ret None"
| "read_replies dest ((ip, m) # ps) =
     (if ip = dest then bindG (AmAliveUnMarshal (take MaxHeartbeatSize m)) (\<lambda>r. case r of
          Inl e \<Rightarrow> Ret None
        | Inr aa \<Rightarrow> Ret (Some aa))
      else read_replies dest ps)"

text \<open>\<open>bind\<close> is the error of \<open>ListenUDP\<close>, \<open>dest\<close> the result of \<open>ResolveUDPAddr\<close>. An error is \<open>None\<close> in the result.\<close>

definition udp_request :: "err \<Rightarrow> string + string \<Rightarrow> (string \<times> bytes) list \<Rightarrow> amAlive option go" where
  "udp_request bind dest ps = (if bind \<noteq> None then Ret None else case dest of
     Inl e \<Rightarrow> Ret None
   | Inr ip \<Rightarrow> read_replies ip ps)"

text \<open>The network answers the next request of a heartbeater with \<open>aa\<close>, at \<open>t\<close>.\<close>

definition answering :: "time \<Rightarrow> amAlive \<Rightarrow> heartbeater \<Rightarrow> heartbeater" where
  "answering t aa h = h\<lparr>hb_net := (fst (hb_net h), (t, Some aa) ## snd (hb_net h))\<rparr>"

section \<open>The heartbeat callback\<close>

definition few_chunks :: "dbServer \<Rightarrow> bool" where
  "few_chunks s \<longleftrightarrow> server_inv s \<and> length (chunks (srv_core s)) \<le> 116"

text \<open>The other goroutines of the server keep its invariant and the number of its chunks.\<close>

definition other_work :: "dbServer \<Rightarrow> dbServer \<Rightarrow> bool" where
  "other_work s s' \<longleftrightarrow> server_inv s' \<and> length (chunks (srv_core s')) = length (chunks (srv_core s))"

lemma srv_reply_ok:
  assumes "server_inv s"
  shows "\<exists>aa s'. srv_reply clock s = Ret (aa, s') \<and> server_inv s' \<and> length (chunks (srv_core s')) = length (chunks (srv_core s))
    \<and> ids_ok (numChunks (srv_sg s)) (KnownChunks aa)
    \<and> map chunk_ID (KnownChunks aa) = map int (filter (\<lambda>j. present (chunks (srv_core s) ! j)) [0..<length (chunks (srv_core s))])
    \<and> set (RecentlyAddedServers aa) \<subseteq> fst ` set (recentlyAdded (srv_hb s))"
proof -
  have i: "core_inv (srv_core s)" "numChunks (srv_sg s) = int (length (chunks (srv_core s)))"
    using assms by (simp_all add: server_inv_def)
  obtain l c where c: "report clock (srv_core s) = Ret (l, c)" "core_inv c" "map present (chunks c) = map present (chunks (srv_core s))"
    "ids_ok (int (length (chunks (srv_core s)))) l"
    "map chunk_ID l = map int (filter (\<lambda>j. present (chunks (srv_core s) ! j)) [0..<length (chunks (srv_core s))])"
    using report_ok [OF i(1)] by blast
  have len: "length (chunks c) = length (chunks (srv_core s))" using c(3) by (rule map_eq_imp_length_eq)
  have "set (map fst (recentlyAdded (cleanNews h))) \<subseteq> fst ` set (recentlyAdded h)" for h
    by (auto simp: cleanNews_def Let_def)
  then have "set (map fst (recentlyAdded (cleanNews (cleanNews h)))) \<subseteq> fst ` set (recentlyAdded h)" for h
    by (metis list.set_map order_trans)
  then show ?thesis using assms c len i(2) by (simp add: srv_reply_def ListenReply_def Let_def server_inv_def)
qed

lemma reply_small:
  assumes "few_chunks s"
  shows "\<exists>aa s'. srv_reply clock s = Ret (aa, s') \<and> few_chunks s' \<and> length (KnownChunks aa) \<le> 116"
proof -
  have inv: "server_inv s" using assms by (simp add: few_chunks_def)
  obtain aa s' where aa: "srv_reply clock s = Ret (aa, s')" "server_inv s'" "length (chunks (srv_core s')) = length (chunks (srv_core s))"
    "map chunk_ID (KnownChunks aa) = map int (filter (\<lambda>j. present (chunks (srv_core s) ! j)) [0..<length (chunks (srv_core s))])"
    using srv_reply_ok [OF inv] by blast
  have "length (KnownChunks aa) \<le> length (chunks (srv_core s))"
    using arg_cong [OF aa(4), of length] length_filter_le [of _ "[0..<length (chunks (srv_core s))]"] by (simp add: le_trans)
  then show ?thesis using aa assms by (auto simp: few_chunks_def)
qed

interpretation beats: udp_callback "srv_reply clock" other_work few_chunks for clock
proof unfold_locales
  show "few_chunks s \<Longrightarrow> \<exists>aa s'. srv_reply clock s = Ret (aa, s') \<and> few_chunks s' \<and> length (KnownChunks aa) \<le> 116" for s
    by (rule reply_small)
  show "few_chunks s \<Longrightarrow> other_work s s' \<Longrightarrow> few_chunks s'" for s s'
    by (simp add: few_chunks_def other_work_def)
qed

section \<open>Lemmas: an exchange\<close>

lemma read_replies_skip: "\<forall>(i, m) \<in> set others. i \<noteq> ip \<Longrightarrow> read_replies ip (others @ ps) = read_replies ip ps"
  by (induction others) auto

lemma no_news: "\<forall>a \<in> set as. P h a \<Longrightarrow> foldG (\<lambda>a h. if P h a then Ret h else f a h) as h = Ret h"
  by (induction as) auto

lemma SetServerChunks_held:
  assumes "sg_inv sg" and "map_of (servers sg) a = Some q" and "SetServerChunks sg a cids now = Ret sg'"
  shows "heldChunks (objs sg' ! q) = cids"
  using assms(2,3) sg_invD(1) [OF assms(1,2)]
  by (auto simp: SetServerChunks_def bindG_eq_Ret on_server_def)

lemma group_holder:
  assumes "sg_inv sg" and "map_of (servers sg) a = Some q" and "int i < numChunks sg"
  shows "q \<in> set (holders (sg_chunks sg ! i)) \<longleftrightarrow> int i \<in> chunk_ID ` set (heldChunks (objs sg ! q))"
  using assms sg_invD(4,5) [OF assms(1,2)] by (auto simp: sg_inv_def holders_ok_def sg_holds_def)

text \<open>An answer without news of unknown servers is recorded as it is.\<close>

lemma request_records:
  assumes ok: "hb_ok h" and ids: "ids_ok (numChunks (hb_sg h)) (KnownChunks aa)" and remote: "addr \<noteq> LocalhostIPPort (hb_sg h)"
    and g: "g = answering t aa h"
    and news: "set (RecentlyAddedServers aa) \<subseteq> set (KnownServers (hb_sg h))" "RecentlyDeadServers aa = []"
  shows "\<exists>h' q. hb_request (hb_fuel g) g addr = Ret (True, h') \<and> sg_inv (hb_sg h') \<and> numChunks (hb_sg h') = numChunks (hb_sg h)
    \<and> map_of (servers (hb_sg h')) addr = Some q \<and> heldChunks (objs (hb_sg h') ! q) = KnownChunks aa"
proof -
  define h1 where "h1 = h\<lparr>hb_now := t\<rparr>"
  have u: "UDPRequest g = (Some aa, h1)" by (simp add: g answering_def UDPRequest_def h1_def)
  define h2 where "h2 = set_retries addr None h1"
  define h3 where "h3 = hb_learn addr h2"
  have h2: "hb_ok h2" "ids_ok (numChunks (hb_sg h2)) (KnownChunks aa)" "hb_sg h2 = hb_sg h"
    using ok ids by (simp_all add: h1_def h2_def hb_ok_def)
  obtain sg where sg: "SetServerChunks (hb_sg h3) addr (KnownChunks aa) (hb_now h3) = Ret sg" "hb_ok (h3\<lparr>hb_sg := sg\<rparr>)"
    "hb_le h2 (h3\<lparr>hb_sg := sg\<rparr>)" "addr \<in> set (KnownServers sg)"
    using h2(1,2) h3_def by (rule hb_ok_answer)
  have "\<forall>a \<in> set (RecentlyAddedServers aa). IsServerOnGroup (hb_sg (h3\<lparr>hb_sg := sg\<rparr>)) a"
    using news(1) sg(3) h2(3) by (auto simp: IsServerOnGroup_iff hb_le_def)
  note skip = no_news [where P = "\<lambda>h a. IsServerOnGroup (hb_sg h) a", OF this]
  obtain n where n: "hb_fuel g = Suc n" by (cases "hb_fuel g") (simp_all add: hb_fuel_def)
  have "addr \<noteq> LocalhostIPPort (hb_sg g)" using remote by (simp add: g answering_def)
  then have run: "hb_request (hb_fuel g) g addr = Ret (True, h3\<lparr>hb_sg := sg\<rparr>)"
    using u sg(1) skip news(2) by (simp add: n h2_def [symmetric] h3_def [symmetric] Let_def)
  obtain q where q: "map_of (servers sg) addr = Some q"
    using sg(4) by (cases "map_of (servers sg) addr") (simp_all add: KnownServers_def map_of_eq_None_iff)
  have s3: "sg_inv (hb_sg h3)"
    using h2 by (auto simp: h3_def hb_learn_def hb_ok_def AddServerToGroup_inv)
  have "heldChunks (objs sg ! q) = KnownChunks aa"
    using SetServerChunks_held [OF s3 _ sg(1)] q SetServerChunks_frame(1) [OF sg(1)] by simp
  then show ?thesis using run sg(2,3) q h2(3) by (auto simp: hb_ok_def hb_le_def)
qed

section \<open>Properties\<close>

text \<open>
  C30: A server stops cleanly. However the three statements of \<open>Stop\<close>, the loop that accepts
  connections, the loop that answers heartbeats and the other goroutines of a server of at most 116
  chunks interleave, neither loop panics: a listener is never found closed by a loop that does not yet see the
  server stopped. The other goroutines keep the server well formed and the number of its chunks, and
  a listener returns an error only once it is closed. When \<open>Stop\<close> has returned, both listeners are closed, each loop that still
  runs ends with its next turn, and a loop that has ended has closed all the connections that it accepted.
\<close>

theorem stop_is_clean:
  assumes "com_Start ne ip port = Ret cs" and "server_inv s" and "length (chunks (srv_core s)) \<le> 116"
    and "listen_run (srv_reply clock) other_work (listen_start cs s) x"
  shows "\<exists>l. x = Ret l \<and> (ls_pc l = 3 \<longrightarrow> \<not> tcpListener (ls_com l) \<and> \<not> udpListener (ls_com l)
    \<and> (ls_tcp l \<longrightarrow> (\<forall>e. \<exists>l'. tcp_step (Inl e) l = Ret l' \<and> \<not> ls_tcp l'))
    \<and> (ls_udp l \<longrightarrow> (\<forall>e. \<exists>l'. udp_step (srv_reply clock) (Inl e) l = Ret l' \<and> \<not> ls_udp l'))
    \<and> (\<not> ls_tcp l \<longrightarrow> (\<forall>(c, open) \<in> set (ls_conns l). \<not> open)))"
proof -
  have "few_chunks (ls_state (listen_start cs s))" using assms(2,3) by (simp add: few_chunks_def listen_start_def)
  then obtain l where l: "x = Ret l" "listening_ok l"
    using beats.run_ok [OF assms(4) start_ok [OF assms(1)]] by blast
  have "ls_pc l = 3 \<longrightarrow> \<not> tcpListener (ls_com l) \<and> \<not> udpListener (ls_com l) \<and> cs_stopped (ls_com l)"
    using l(2) by (simp add: listening_ok_def)
  moreover have "\<not> ls_tcp l \<longrightarrow> (\<forall>(c, open) \<in> set (ls_conns l). \<not> open)" using l(2) by (simp add: listening_ok_def)
  ultimately show ?thesis using l(1)
    by (simp add: tcp_step_def accept_turn_def udp_step_def udp_turn_def IsStopped_def)
qed

definition ex_net :: net_env where
  "ex_net = \<lparr>ne_ListenUDP = (\<lambda>_. None), ne_ResolveTCPAddr = (\<lambda>_. None), ne_ListenTCP = (\<lambda>_. None)\<rparr>"

lemma ex_stop_run:
  assumes "com_Start ex_net ip port = Ret cs"
  shows "\<exists>l. listen_run callback other (listen_start cs s) (Ret l) \<and> ls_pc l = 3 \<and> ls_tcp l"
proof -
  let ?n = "\<lambda>l. l\<lparr>ls_com := stop_stmt (ls_pc l) (ls_com l), ls_pc := Suc (ls_pc l)\<rparr>"
  have run: "listen_run callback other (listen_start cs s) (Ret (?n l))"
    if "listen_run callback other (listen_start cs s) (Ret l)" "ls_pc l < 3" for l
    using run_more [OF that(1) step_stop [OF that(2)]] .
  have "listen_run callback other (listen_start cs s) (Ret (?n (?n (?n (listen_start cs s)))))"
    by (intro run run_none) (simp_all add: listen_start_def)
  then show ?thesis by (intro exI conjI) (assumption, simp_all add: listen_start_def)
qed

theorem stop_is_clean_witness:
  "\<exists>cs l. com_Start ex_net ''a'' 80 = Ret cs \<and> listen_run (srv_reply (\<lambda>_. 0)) other_work (listen_start cs (ex_server ex_map)) (Ret l)
    \<and> ls_pc l = 3 \<and> \<not> tcpListener (ls_com l) \<and> \<not> udpListener (ls_com l) \<and> (\<exists>l'. tcp_step (Inl ''closed'') l = Ret l' \<and> \<not> ls_tcp l')"
proof -
  obtain cs where cs: "com_Start ex_net ''a'' 80 = Ret cs"
    by (simp add: com_Start_def listenUDP_def listenTCP_def panic_on_def ex_net_def)
  obtain l where l: "listen_run (srv_reply (\<lambda>_. 0)) other_work (listen_start cs (ex_server ex_map)) (Ret l)" "ls_pc l = 3" "ls_tcp l"
    using ex_stop_run [OF cs, of "srv_reply (\<lambda>_. 0)" other_work "ex_server ex_map"] by (elim exE conjE that)
  have "length (chunks (srv_core (ex_server ex_map))) \<le> 116" by (simp add: ex_server_def start_server_def ex_core_def)
  from stop_is_clean [OF cs ex_server_inv [OF ex_map_inv] this l(1)] show ?thesis using cs l by auto
qed

text \<open>
  C29: What a server says of itself is what the others record. A server of at most 116 chunks, whose news have no
  empty address, answers a ping with one packet. A server of the same number of chunks that sent the ping to
  an address other than its own, and gets packets from other addresses before it, reads the heartbeat in it, and
  after its request, when the heartbeat has no news of a server it does not know, it has the answering
  server as a holder of exactly the chunks that are present there.
\<close>

theorem heartbeat_exchange:
  assumes "server_inv s" and "length (chunks (srv_core s)) \<le> 116" and "[] \<notin> fst ` set (recentlyAdded (srv_hb s))"
    and "hb_ok h" and "numChunks (hb_sg h) = numChunks (srv_sg s)" and "addr \<noteq> LocalhostIPPort (hb_sg h)"
    and "fst ` set (recentlyAdded (srv_hb s)) \<subseteq> set (KnownServers (hb_sg h))" and "\<forall>(i, m) \<in> set others. i \<noteq> ip"
  shows "\<exists>s' p aa h' q. udp_turn (srv_reply clock) cs (Inr from) s = Ret (True, cs, s', [(from, p)])
    \<and> udp_request None (Inr ip) (others @ [(ip, p)]) = Ret (Some aa)
    \<and> (let g = answering t aa h in hb_request (hb_fuel g) g addr = Ret (True, h'))
    \<and> sg_inv (hb_sg h') \<and> map_of (servers (hb_sg h')) addr = Some q
    \<and> (\<forall>i < length (chunks (srv_core s)). q \<in> set (holders (sg_chunks (hb_sg h') ! i)) \<longleftrightarrow> present (chunks (srv_core s) ! i))"
proof -
  let ?n = "length (chunks (srv_core s))"
  have n: "numChunks (srv_sg s) = int ?n" using assms(1) by (simp add: server_inv_def)
  obtain aa s' where aa: "srv_reply clock s = Ret (aa, s')" "ids_ok (int ?n) (KnownChunks aa)"
    "map chunk_ID (KnownChunks aa) = map int (filter (\<lambda>j. present (chunks (srv_core s) ! j)) [0..<?n])"
    "set (RecentlyAddedServers aa) \<subseteq> fst ` set (recentlyAdded (srv_hb s))"
    using srv_reply_ok [OF assms(1), of clock] n by auto
  have len: "length (KnownChunks aa) \<le> 116" using reply_small [of s clock] assms(1,2) aa(1) by (auto simp: few_chunks_def)
  have ids: "\<forall>c \<in> set (KnownChunks aa). 0 \<le> chunk_ID c \<and> chunk_ID c < 2 ^ 32"
    using aa(2) assms(2) by (auto simp: ids_ok_def list_all_iff)
  have ne: "[] \<notin> set (RecentlyAddedServers aa)" using aa(4) assms(3) by blast
  define added where "added = fit_addrs 64 (1398 - 12 * length (KnownChunks aa)) (RecentlyAddedServers aa)"
  define bb where "bb = \<lparr>KnownChunks = KnownChunks aa, RecentlyAddedServers = added, RecentlyDeadServers = []\<rparr>"
  obtain p where p: "AmAlive_Marshal aa = Ret p" "length p = 1400" "AmAliveUnMarshal p = Ret (Inr bb)"
    using packet_read [OF len ids ne] unfolding added_def bb_def by blast
  have turn: "udp_turn (srv_reply clock) cs (Inr from) s = Ret (True, cs, s', [(from, p)])"
    using aa(1) p(1) by (simp add: udp_turn_def)
  have req: "udp_request None (Inr ip) (others @ [(ip, p)]) = Ret (Some bb)"
    using p(2,3) read_replies_skip [OF assms(8)] by (simp add: udp_request_def MaxHeartbeatSize_def)
  define g where "g = answering t bb h"
  have ids_bb: "ids_ok (numChunks (hb_sg h)) (KnownChunks bb)" using assms(5) aa(2) n by (simp add: bb_def)
  have "set added \<subseteq> set (RecentlyAddedServers aa)" unfolding added_def using fit_addrs_subset by blast
  then have news: "set (RecentlyAddedServers bb) \<subseteq> set (KnownServers (hb_sg h))" "RecentlyDeadServers bb = []"
    using aa(4) assms(7) by (auto simp: bb_def)
  obtain h' q where h': "hb_request (hb_fuel g) g addr = Ret (True, h')" "sg_inv (hb_sg h')" "numChunks (hb_sg h') = numChunks (hb_sg h)"
    "map_of (servers (hb_sg h')) addr = Some q" "heldChunks (objs (hb_sg h') ! q) = KnownChunks bb"
    using request_records [OF assms(4) ids_bb assms(6) g_def news] by blast
  have "chunk_ID ` set (KnownChunks bb) = int ` {j. j < ?n \<and> present (chunks (srv_core s) ! j)}"
    using arg_cong [OF aa(3), of set] by (auto simp: bb_def)
  then have "q \<in> set (holders (sg_chunks (hb_sg h') ! i)) \<longleftrightarrow> present (chunks (srv_core s) ! i)" if "i < ?n" for i
    using group_holder [OF h'(2,4), of i] that h'(3,5) assms(5) n by auto
  then show ?thesis using turn req h'(1,2,4) unfolding g_def Let_def by blast
qed

theorem heartbeat_exchange_witness:
  "\<exists>p aa h' q. udp_request None (Inr ''i'') ([(''x'', [])] @ [(''i'', p)]) = Ret (Some aa)
    \<and> (let g = answering 9 aa ex_hb in hb_request (hb_fuel g) g ''b'' = Ret (True, h'))
    \<and> map_of (servers (hb_sg h')) ''b'' = Some q \<and> q \<in> set (holders (sg_chunks (hb_sg h') ! 0))"
proof -
  let ?s = "ex_server ex_map"
  have s: "length (chunks (srv_core ?s)) = 1" "present (chunks (srv_core ?s) ! 0)" "recentlyAdded (srv_hb ?s) = []" "srv_hb ?s = ex_hb"
    by (simp_all add: ex_server_def start_server_def ex_core_def ex_hb_def hb_new_def)
  have "\<exists>s' p aa h' q. udp_turn (srv_reply (\<lambda>_. 0)) ex_com (Inr ''f'') ?s = Ret (True, ex_com, s', [(''f'', p)])
    \<and> udp_request None (Inr ''i'') ([(''x'', [])] @ [(''i'', p)]) = Ret (Some aa)
    \<and> (let g = answering 9 aa ex_hb in hb_request (hb_fuel g) g ''b'' = Ret (True, h'))
    \<and> sg_inv (hb_sg h') \<and> map_of (servers (hb_sg h')) ''b'' = Some q
    \<and> (\<forall>i < length (chunks (srv_core ?s)). q \<in> set (holders (sg_chunks (hb_sg h') ! i)) \<longleftrightarrow> present (chunks (srv_core ?s) ! i))"
    by (rule heartbeat_exchange) (use s ex_server_inv [OF ex_map_inv] ex_hb_ok in \<open>simp_all add: ex_hb_def hb_new_def\<close>)
  then show ?thesis using s(1,2) by (elim exE conjE) (intro exI conjI, assumption+, simp)
qed

end
