(* ===== verification/Treeless_Main.thy ===== *)
theory Treeless_Main
  imports Server_Net
begin

text \<open>
  The program (src/treeless.go): what it does with its flags, and how it stops. A server that it
  creates is well formed, so that the properties of servers apply from its first step on. Profiling and the
  log file are not part of the model.
\<close>

section \<open>Flags\<close>

definition DefaultDBSize :: int where
  "DefaultDBSize = 1024 * 1024 * 128"

definition DefaultPort :: int where
  "DefaultPort = 9876"

definition DefaultRedundancy :: int where
  "DefaultRedundancy = 2"

definition DefaultNumChunk :: int where
  "DefaultNumChunk = 8"

record flags =
  fl_create :: bool
  fl_assoc :: string
  fl_monitor :: string
  fl_port :: int
  fl_open :: bool
  fl_redundancy :: int
  fl_chunks :: int
  fl_size :: int
  fl_dbpath :: string
  fl_localip :: string

text \<open>The values of the flags that are not given; \<open>x\<close> are the addresses of the network interfaces.\<close>

definition default_flags :: "string + net_addr list \<Rightarrow> flags" where
  "default_flags x = \<lparr>fl_create = False, fl_assoc = [], fl_monitor = [], fl_port = DefaultPort, fl_open = False,
     fl_redundancy = DefaultRedundancy, fl_chunks = DefaultNumChunk, fl_size = DefaultDBSize, fl_dbpath = [],
     fl_localip = GetLocalIP x\<rparr>"

section \<open>The program\<close>

text \<open>
  The program prints an error and ends, monitors a group until it is interrupted, serves until it is
  interrupted, or explains its usage.
\<close>

datatype program = Failed string | Monitoring heartbeater | Serving dbServer | Usage

definition treeless_main ::
  "net_env \<Rightarrow> os_env \<Rightarrow> fs \<Rightarrow> string list \<Rightarrow> time \<Rightarrow> udp_net \<Rightarrow> dialer \<Rightarrow>
   (bytes \<Rightarrow> string + serializableServerGroup) \<Rightarrow> result \<Rightarrow> (nat \<Rightarrow> result) \<Rightarrow> flags \<Rightarrow> program go" where
  "treeless_main ne os d files now net dial jd conf ans fl =
     (if fl_monitor fl \<noteq> [] then
        bindG (sg_Assoc dial jd conf (fl_monitor fl) []) (\<lambda>x. case x of
          Inl e \<Rightarrow> Ret (Failed e)
        | Inr sg \<Rightarrow> bindG (hb_Start sg now net) (\<lambda>h. Ret (Monitoring h)))
      else if fl_create fl then
        bindG (server_Create ne os d files now net (fl_localip fl) (fl_port fl) (fl_dbpath fl) (word_of_int (fl_size fl))
          (fl_open fl) (fl_chunks fl) (fl_redundancy fl)) (\<lambda>s. Ret (Serving s))
      else if fl_assoc fl \<noteq> [] then
        bindG (server_Assoc ne os d files now net dial jd conf ans (fl_localip fl) (fl_port fl) (fl_dbpath fl)
          (word_of_int (fl_size fl)) (fl_open fl) (fl_assoc fl)) (\<lambda>s. Ret (Serving s))
      else Ret Usage)"

text \<open>The interrupt signal.\<close>

definition interrupt :: "os_env \<Rightarrow> program \<Rightarrow> program go" where
  "interrupt os p = (case p of
     Monitoring h \<Rightarrow> Ret (Monitoring (hb_Stop h))
   | Serving s \<Rightarrow> bindG (server_Stop os s) (\<lambda>s'. Ret (Serving s'))
   | _ \<Rightarrow> Ret p)"

section \<open>Lemmas: creating a server\<close>

lemma all_present_prefix:
  assumes "core_inv c" and "k \<le> length (chunks c)"
  shows "\<exists>c' d'. all_present os_fine [0..<k] (c, d) = Ret (c', d') \<and> core_inv c' \<and> length (chunks c') = length (chunks c)
    \<and> (\<forall>i < k. present (chunks c' ! i))"
  using assms(2)
proof (induction k)
  case 0
  then show ?case using assms(1) by (simp add: all_present_def)
next
  case (Suc k)
  then obtain c1 d1 where c1: "all_present os_fine [0..<k] (c, d) = Ret (c1, d1)" "core_inv c1"
    "length (chunks c1) = length (chunks c)" "\<forall>i < k. present (chunks c1 ! i)" by auto
  have k: "k < length (chunks c1)" using Suc.prems c1(3) by simp
  obtain c2 d2 where c2: "ChunkSetPresent os_fine d1 c1 (int k) = Ret (c2, d2)" "core_inv c2"
    using chunk_steps(1) [OF c1(2), of "int k" d1] k by auto
  have "length (chunks c2) = length (chunks c1)" "\<forall>i < Suc k. present (chunks c2 ! i)"
    using c2(1) c1(4) k
    by (auto simp: ChunkSetPresent_def get_chunk_Ret bindG_eq_Ret set_chunk_def nth_list_update less_Suc_eq split: if_splits)
  then show ?case using c1(1,3) c2 by (simp add: all_present_def foldG_append)
qed

lemma request_local: "\<forall>a \<in> set as. a = LocalhostIPPort (hb_sg h) \<Longrightarrow> request_all as h = Ret h"
proof (induction as)
  case (Cons a as)
  obtain n where "hb_fuel h = Suc n" by (cases "hb_fuel h") (simp_all add: hb_fuel_def)
  then show ?case using Cons by (simp add: request_all_def)
qed (simp add: request_all_def)

text \<open>The group of a new server: itself, with all the chunks.\<close>

lemma first_group:
  assumes "0 \<le> n"
  shows "\<exists>sg0 sg. CreateServerGroup n r a = Ret sg0
    \<and> SetServerChunks (snd (AddServerToGroup sg0 a)) a (map (\<lambda>i. \<lparr>chunk_ID = int i, chunk_Checksum = 0\<rparr>) [0..<nat n]) now = Ret sg
    \<and> sg_inv sg \<and> numChunks sg = n \<and> servers sg = [(a, 0)] \<and> LocalhostIPPort sg = a
    \<and> (\<forall>i < nat n. 0 \<in> set (holders (sg_chunks sg ! i)))"
proof -
  obtain sg0 where sg0: "CreateServerGroup n r a = Ret sg0" "sg_inv sg0" "numChunks sg0 = n"
    using CreateServerGroup_inv [OF assms] by blast
  have e: "servers sg0 = []" "objs sg0 = []" "LocalhostIPPort sg0 = a"
    using sg0(1) by (auto simp: CreateServerGroup_def bindG_eq_Ret)
  define sg1 where "sg1 = snd (AddServerToGroup sg0 a)"
  have sg1: "sg_inv sg1" "numChunks sg1 = n" "servers sg1 = [(a, 0)]" "LocalhostIPPort sg1 = a"
    using AddServerToGroup_inv [OF sg0(2)] sg0(3) e by (simp_all add: sg1_def AddServerToGroup_def Let_def)
  let ?l = "map (\<lambda>i. \<lparr>chunk_ID = int i, chunk_Checksum = 0\<rparr>) [0..<nat n]"
  have "ids_ok (numChunks sg1) ?l" using sg1(2) by (auto simp: ids_ok_def list_all_iff)
  then obtain sg where sg: "SetServerChunks sg1 a ?l now = Ret sg" "sg_inv sg" "numChunks sg = numChunks sg1"
    using SetServerChunks_inv [OF sg1(1)] by blast
  note f = SetServerChunks_frame [OF sg(1)]
  have p: "map_of (servers sg1) a = Some 0" "map_of (servers sg) a = Some 0" using sg1(3) f(1) by simp_all
  have "0 \<in> set (holders (sg_chunks sg ! i))" if "i < nat n" for i
    using group_holder [OF sg(2) p(2), of i] SetServerChunks_held [OF sg1(1) p(1) sg(1)] that sg(3) sg1(2) by force
  then show ?thesis using sg0(1) sg f sg1(2-4) unfolding sg1_def by (intro exI [of _ sg0] exI [of _ sg]) simp
qed

lemma Create_fine:
  assumes n: "0 < n" "n < 2 ^ 63" and sz: "unat sz \<le> 2 ^ 32" and cs: "com_Start ne ip port = Ret cs"
  shows "\<exists>s. server_Create ne os_fine d files now net ip port path sz False n r = Ret s \<and> server_inv s \<and> \<not> srv_stopped s
    \<and> length (chunks (srv_core s)) = nat n
    \<and> (\<forall>i < nat n. present (chunks (srv_core s) ! i) \<and> 0 \<in> set (holders (sg_chunks (srv_sg s) ! i)))"
proof -
  obtain c0 where c0: "core_New path sz n = Ret c0" "length (chunks c0) = nat n" using n(1) by (simp add: core_New_def)
  have inv: "core_inv c0" using core_New_inv [OF c0(1) n sz] .
  obtain c d' where c: "all_present os_fine [0..<nat n] (c0, d) = Ret (c, d')" "core_inv c" "length (chunks c) = nat n"
    "\<forall>i < nat n. present (chunks c ! i)"
    using all_present_prefix [OF inv, of "nat n" d] c0(2) by auto
  let ?a = "local_addr ip port" and ?l = "map (\<lambda>i. \<lparr>chunk_ID = int i, chunk_Checksum = 0\<rparr>) [0..<nat n]"
  obtain sg0 sg where sg: "CreateServerGroup n r ?a = Ret sg0" "SetServerChunks (snd (AddServerToGroup sg0 ?a)) ?a ?l now = Ret sg"
    "sg_inv sg" "numChunks sg = n" "servers sg = [(?a, 0)]" "LocalhostIPPort sg = ?a" "\<forall>i < nat n. 0 \<in> set (holders (sg_chunks sg ! i))"
    using first_group [of n r ?a now] n(1) by auto
  have "Phy (objs sg ! 0) = ?a" using sg_server(2) [OF sg(3), of ?a 0] sg(5) by simp
  then have hb: "hb_Start sg now net = Ret (hb_new sg now net)"
    unfolding hb_Start_def using sg(5,6) by (intro request_local) (simp add: Servers_def hb_new_def)
  have "server_Create ne os_fine d files now net ip port path sz False n r = Ret (start_server c d' (hb_new sg now net) cs)"
    using c0(1) c(1) sg(1,2) hb cs by (simp add: server_Create_def Let_def)
  then show ?thesis using c sg(3,4,7) n(1) by (simp add: start_server_def server_inv_def hb_new_def)
qed

section \<open>Properties\<close>



end
