(* ===== verification/Group_String.thy ===== *)
theory Group_String
  imports Server_Group "HOL-Library.List_Lexorder" "HOL-Library.Char_ord"
begin

text \<open>
  The table that the monitor prints (src/dist/servergroup/servergroup.go, \<open>String\<close>), with the formats of the
  package \<open>fmt\<close> and of \<open>time.Duration\<close> that it uses. Maps are iterated in any order and
  holders are kept in the order of their reports; the table does not depend on either.
\<close>

section \<open>Formats\<close>

text \<open>The last \<open>prec\<close> digits of \<open>v\<close> as a decimal fraction, without the zeros at its end.\<close>

definition fmtFrac :: "nat \<Rightarrow> nat \<Rightarrow> string" where
  "fmtFrac v prec =
     (let ds = dec_nat (v mod 10 ^ prec);
          t = rev (dropWhile (\<lambda>ch. ch = CHR ''0'') (rev (replicate (prec - length ds) CHR ''0'' @ ds)))
      in if t = [] then [] else CHR ''.'' # t)"

definition duration_abs :: "nat \<Rightarrow> string" where
  "duration_abs u =
     (if u = 0 then ''0s''
      else if u < 1000 then dec_nat u @ ''ns''
      else if u < 1000000 then dec_nat (u div 1000) @ fmtFrac u 3 @ [char_of (194 :: nat), char_of (181 :: nat)] @ ''s''
      else if u < 1000000000 then dec_nat (u div 1000000) @ fmtFrac u 6 @ ''ms''
      else let s = u div 1000000000; m = s div 60; h = m div 60;
               secs = dec_nat (s mod 60) @ fmtFrac u 9 @ ''s'' in
           if m = 0 then secs
           else if h = 0 then dec_nat (m mod 60) @ ''m'' @ secs
           else dec_nat h @ ''h'' @ dec_nat (m mod 60) @ ''m'' @ secs)"

definition duration_String :: "int \<Rightarrow> string" where
  "duration_String d = (if d < 0 then CHR ''-'' # duration_abs (nat (- d)) else duration_abs (nat d))"

text \<open>\<open>t.Sub(u)\<close> stays within the 64 bits of a duration.\<close>

definition time_Sub :: "time \<Rightarrow> time \<Rightarrow> int" where
  "time_Sub t u = max (- (2 ^ 63)) (min (2 ^ 63 - 1) (t - u))"

text \<open>\<open>fmt.Sprint\<close> of the announced chunks.\<close>

definition sprint_chunk :: "amAliveChunk \<Rightarrow> string" where
  "sprint_chunk c = ''{'' @ dec_int (chunk_ID c) @ '' '' @ dec_nat (unat (chunk_Checksum c)) @ ''}''"

fun sprint_list :: "string list \<Rightarrow> string" where
  "sprint_list [] = []"
| "sprint_list [x] = x"
| "sprint_list (x # y # xs) = x @ '' '' @ sprint_list (y # xs)"

definition sprint_chunks :: "amAliveChunk list \<Rightarrow> string" where
  "sprint_chunks cs = ''['' @ sprint_list (map sprint_chunk cs) @ '']''"

section \<open>The table\<close>

abbreviation nl :: string where "nl \<equiv> [char_of (10 :: nat)]"
abbreviation tab :: string where "tab \<equiv> [char_of (9 :: nat)]"

definition server_lines :: "time \<Rightarrow> virtualServer \<Rightarrow> string" where
  "server_lines t s = tab @ '' Address: '' @ Phy s @ nl @ tab @ tab @ (if dead s then ''DEAD '' else [])
     @ ''Known chunks: '' @ sprint_chunks (heldChunks s)
     @ '' Last heartbeat: '' @ duration_String (time_Sub t (lastHeartbeat s)) @ nl"

text \<open>The loop over the holders; \<open>column\<close> counts them and is not reset.\<close>

fun holder_columns :: "nat \<Rightarrow> string list \<Rightarrow> string" where
  "holder_columns column [] = []"
| "holder_columns column (phy # ps) = (if column = 3 then nl @ tab else []) @ tab @ phy @ holder_columns (column + 1) ps"

definition chunk_lines :: "serverGroup \<Rightarrow> nat \<Rightarrow> string" where
  "chunk_lines sg i = tab @ ''Chunk '' @ dec_nat i @ nl @ tab
     @ holder_columns 0 (sort (map (\<lambda>h. Phy (objs sg ! h)) (holders (sg_chunks sg ! i)))) @ nl"

definition sg_String :: "time \<Rightarrow> serverGroup \<Rightarrow> string" where
  "sg_String t sg = dec_nat (length (servers sg)) @ '' servers:'' @ nl
     @ concat (map (\<lambda>addr. server_lines t (objs sg ! the (map_of (servers sg) addr))) (sort (map fst (servers sg))))
     @ dec_int (numChunks sg) @ '' chunks:'' @ nl
     @ concat (map (chunk_lines sg) [0..<length (sg_chunks sg)])"

section \<open>Lemmas\<close>

lemma duration_examples:
  "duration_String 1500000 = ''1.5ms''" "duration_String 61000000000 = ''1m1s''" "duration_String (- 7) = ''-7ns''"
  by (simp_all add: duration_String_def duration_abs_def fmtFrac_def dec_nat.simps char_of_def bit_0 Let_def)

text \<open>The table depends on the servers and holders, not on the order in which they are kept.\<close>

lemma String_order:
  assumes "sg_inv sg" and "mset (servers sg') = mset (servers sg)" and "objs sg' = objs sg" and "numChunks sg' = numChunks sg"
    and "length (sg_chunks sg') = length (sg_chunks sg)"
    and "\<And>i. i < length (sg_chunks sg) \<Longrightarrow> mset (holders (sg_chunks sg' ! i)) = mset (holders (sg_chunks sg ! i))"
  shows "sg_String t sg' = sg_String t sg"
proof -
  have s: "set (servers sg') = set (servers sg)" "length (servers sg') = length (servers sg)"
    using assms(2) by (metis set_mset_mset, metis size_mset)
  have ms: "mset (map f (servers sg')) = mset (map f (servers sg))" for f :: "string \<times> nat \<Rightarrow> string"
    using assms(2) by simp
  have keys: "sort (map fst (servers sg')) = sort (map fst (servers sg))"
    by (rule properties_for_sort) (simp_all add: assms(2))
  have "distinct (map fst (servers sg))" using assms(1) by (simp add: sg_inv_def)
  moreover then have "distinct (map fst (servers sg'))" by (metis ms mset_eq_imp_distinct_iff)
  ultimately have m: "map_of (servers sg') = map_of (servers sg)" using s(1) by (metis map_of_inject_set)
  have "chunk_lines sg' i = chunk_lines sg i" if "i < length (sg_chunks sg)" for i
  proof -
    have "sort (map (\<lambda>h. Phy (objs sg ! h)) (holders (sg_chunks sg' ! i)))
        = sort (map (\<lambda>h. Phy (objs sg ! h)) (holders (sg_chunks sg ! i)))"
      using assms(6) [OF that] by (intro properties_for_sort) simp_all
    then show ?thesis using assms(3) by (simp add: chunk_lines_def)
  qed
  then have c: "map (chunk_lines sg') [0..<length (sg_chunks sg)] = map (chunk_lines sg) [0..<length (sg_chunks sg)]" by simp
  show ?thesis by (simp only: sg_String_def s(2) keys m assms(3-5) c)
qed

end
