(* ===== verification/Progress_Bar.thy ===== *)
theory Progress_Bar
  imports Treeless_Prelude
begin

text \<open>
  The progress bar (src/tlfmt/progress.go). What is printed is kept as the list of the indices; the text of a
  line, a percentage in floating-point numbers, is not modelled.
\<close>

section \<open>Operations\<close>

record progress =
  pb_index :: int
  pb_total :: int
  lastPrintedIndex :: int
  printed :: "int list"

definition NewProgress :: "int \<Rightarrow> progress" where
  "NewProgress n = \<lparr>pb_index = 0, pb_total = n - 1, lastPrintedIndex = 0, printed = [0]\<rparr>"

text \<open>The division of Go truncates towards zero.\<close>

definition quot_100 :: "int \<Rightarrow> int" where
  "quot_100 x = (if x < 0 then - ((- x) div 100) else x div 100)"

definition Inc :: "progress \<Rightarrow> progress" where
  "Inc p = (let p1 = p\<lparr>pb_index := pb_index p + 1\<rparr> in
     if pb_index p1 - lastPrintedIndex p1 > quot_100 (pb_total p1) \<or> pb_index p1 = pb_total p1
     then p1\<lparr>lastPrintedIndex := pb_index p1, printed := printed p1 @ [pb_index p1]\<rparr> else p1)"

section \<open>Lemmas\<close>

text \<open>
  After \<open>k\<close> steps of a bar that is not complete, the gap between two printed lines is more than a
  hundredth of the total.
\<close>

lemma Inc_run:
  assumes "0 \<le> t" and "int k < t"
  shows "let p = (Inc ^^ k) (NewProgress (t + 1)) in pb_index p = int k \<and> pb_total p = t \<and> lastPrintedIndex p \<le> int k
    \<and> int (length (printed p) - 1) * (t div 100 + 1) \<le> lastPrintedIndex p \<and> printed p \<noteq> []"
  using assms(2)
proof (induction k)
  case 0
  then show ?case by (simp add: NewProgress_def)
next
  case (Suc k)
  define p where "p = (Inc ^^ k) (NewProgress (t + 1))"
  have IH: "pb_index p = int k" "pb_total p = t" "lastPrintedIndex p \<le> int k"
    "int (length (printed p) - 1) * (t div 100 + 1) \<le> lastPrintedIndex p" "printed p \<noteq> []"
    using Suc by (simp_all add: p_def Let_def)
  have q: "quot_100 t = t div 100" using assms(1) by (simp add: quot_100_def)
  have run: "(Inc ^^ Suc k) (NewProgress (t + 1)) = Inc p" by (simp add: p_def)
  define n where "n = length (printed p) - 1"
  have n: "length (printed p @ [x]) - 1 = n + 1" for x using IH(5) by (cases "printed p") (simp_all add: n_def)
  show ?case
  proof (cases "int k + 1 - lastPrintedIndex p > t div 100")
    case True
    then have e: "Inc p = p\<lparr>pb_index := int k + 1, lastPrintedIndex := int k + 1, printed := printed p @ [int k + 1]\<rparr>"
      using IH(1,2) q by (simp add: Inc_def Let_def)
    have "int n * (t div 100 + 1) \<le> lastPrintedIndex p" using IH(4) unfolding n_def .
    then have "int (n + 1) * (t div 100 + 1) \<le> int k + 1" using True by (simp add: algebra_simps)
    then show ?thesis unfolding run e Let_def using IH(2) n by simp
  next
    case False
    then have e: "Inc p = p\<lparr>pb_index := int k + 1\<rparr>" using IH(1,2) Suc.prems q by (simp add: Inc_def Let_def)
    show ?thesis unfolding run e Let_def using IH by simp
  qed
qed

text \<open>So a bar prints at most 101 lines until it is complete, and the last of them is the complete one.\<close>

lemma prints_bounded:
  assumes "0 < t"
  shows "let p = (Inc ^^ nat t) (NewProgress (t + 1)) in length (printed p) \<le> 101 \<and> last (printed p) = t"
proof -
  obtain k where k: "nat t = Suc k" "int k + 1 = t" using assms by (cases "nat t") auto
  define p where "p = (Inc ^^ k) (NewProgress (t + 1))"
  have p: "pb_index p = int k" "pb_total p = t" "lastPrintedIndex p \<le> int k"
    "int (length (printed p) - 1) * (t div 100 + 1) \<le> lastPrintedIndex p" "printed p \<noteq> []"
    using Inc_run [of t k] assms k(2) by (simp_all add: p_def Let_def)
  have "t < 100 * (t div 100 + 1)" by (simp add: algebra_simps)
  then have "int k < 100 * (t div 100 + 1)" using k(2) by linarith
  then have "int (length (printed p) - 1) * (t div 100 + 1) < 100 * (t div 100 + 1)" using p(3,4) by linarith
  then have "int (length (printed p) - 1) < 100" 
    by (rule mult_right_less_imp_less) (use assms in \<open>simp add: pos_imp_zdiv_nonneg_iff\<close>)
  moreover have "(Inc ^^ nat t) (NewProgress (t + 1)) = Inc p" by (simp add: k(1) p_def)
  moreover have "Inc p = p\<lparr>pb_index := t, lastPrintedIndex := t, printed := printed p @ [t]\<rparr>"
    using p(1,2) k(2) by (simp add: Inc_def Let_def)
  ultimately show ?thesis by (simp add: Let_def)
qed

end
