(* ===== verification/Spec2Isabelle.thy ===== *)
theory Spec2Isabelle
  imports Core_Locks DB_Client Repair Treeless_Main Group_String Progress_Bar
begin

text \<open>
  Verification of treeless, a distributed key-value store in Go (the sources are under src/).

  \<^bold>\<open>The program.\<close> The keys of a database are divided into chunks by a hash (src/hashing). A server
  keeps some of the chunks: each is a persistent map (src/core/pmap) that consists of an
  append-only store of records, a hash map that indexes them, and a checksum of the live pairs. The
  core of a server (src/core) is the list of its chunks with their flags, and a
  defragmenter that rewrites a chunk with many deleted bytes. Clients and servers talk over TCP
  (src/com) with numbered requests whose answers a broker gives back to the callers, with
  timeouts. Servers find each other and learn who holds which chunk through heartbeats over
  UDP (src/dist/heartbeat, src/dist/servergroup); they copy and give up chunks to share the load
  (src/dist/rebalance) and send their pairs again when the checksums of a chunk differ
  (src/dist/repair). The server (src/server) answers the messages of all of them. The client
  (src/client) sends each operation to all holders of the chunk of the key; values carry a
  stamp, and the newest one wins.

  \<^bold>\<open>The model.\<close> A Go call returns, panics or never returns: the type \<open>go\<close> of \<open>Treeless_Prelude\<close>, with
  \<open>bindG\<close> for the sequence of statements and \<open>foldG\<close> for loops. Errors are values as in the code. Integers
  that wrap keep their width (\<open>u32\<close>, \<open>u64\<close>); lengths, chunk numbers and instants are \<open>nat\<close> and \<open>int\<close>.
  Slices are checked as Go checks them. State is passed along in records that have the
  fields of the structs. The theories and the files they translate:

  \<^item> \<open>Treeless_Prelude\<close>: outcomes, bytes, little-endian encodings, slices, time, and shared lemmas.
  \<^item> \<open>Hashing\<close>: hashing/hashing.go.
  \<^item> \<open>Store\<close>: core/pmap/store.go. The locale \<open>append_log\<close> is what the persistent map relies on: a record that was
    put can be read back, and later records do not touch it.
  \<^item> \<open>Hash_Map\<close>: core/pmap/hashmap.go, with probing and growth over the bucket array.
  \<^item> \<open>Sync_Checksum\<close>: core/pmap/syncchecksum.go.
  \<^item> \<open>PMap\<close>: core/pmap/pmap.go, all of it. \<open>PMap_Rep\<close> has its representation invariant, \<open>PMap_Spec\<close> the
    abstract operations and the simulation, \<open>PMap_Props\<close> the properties, \<open>PMap_Iter\<close> iteration and
    \<open>PMap_Reopen\<close> the recovery of the index from the file. \<open>Last_Writer\<close> has the locale \<open>lww_store\<close>, the contract
    of a store in which the newest value wins, from which convergence follows; it
    is interpreted for a persistent map (\<open>PMap_Props\<close>) and for a whole server (\<open>Core_Props\<close>).
  \<^item> \<open>Core_DB\<close>: core/core.go and core/defrag.go. \<open>Core_Props\<close>, \<open>Core_Defrag\<close> and \<open>Core_State\<close> have the
    properties of the chunks, the defragmenter, the file names and the flags; \<open>Core_Locks\<close> has the
    mutexes of the same files, as interleaved sequences of locking actions.
  \<^item> \<open>Tcp_Message\<close>: com/protocol/tcpMessage.go, with the locale \<open>framing\<close> of a self-delimiting encoding, on which
    \<open>Buff_Conn\<close> (com/buffconn/buffconn.go) relies. \<open>Udp_Heartbeat\<close>: com/protocol/udpHeartbeat.go.
  \<^item> \<open>Timeout_Queue\<close> and \<open>Broker\<close>: com/comclient.go. The locale \<open>timeout_queue\<close> is the contract of the queue of
    deadlines; it is interpreted for the linked list, and the broker rests on it.
  \<^item> \<open>Virtual_Server\<close>: dist/servergroup/virtualserver.go and virtualchunk.go; \<open>Server_Group\<close>:
    dist/servergroup/servergroup.go; \<open>Heartbeat\<close>: dist/heartbeat/heartbeat.go.
  \<^item> \<open>Group_String\<close>: the table of dist/servergroup/servergroup.go that the monitor prints.
  \<^item> \<open>Com_Server\<close>: com/comserver.go and com/utils.go, with the locale \<open>udp_callback\<close> of what the listening loops
    ask of the callback that makes a heartbeat. \<open>Server_Net\<close> interprets it for the server and has the UDP
    request of com/comclient.go on packets.
  \<^item> \<open>DB_Server\<close>: server/server.go, and the loop of a connection of com/comserver.go. \<open>Rebalance\<close>:
    dist/rebalance/rebalance.go. \<open>Repair\<close>: dist/repair/repair.go. \<open>DB_Client\<close>: client/client.go.
  \<^item> \<open>Treeless_Main\<close>: treeless.go. \<open>Progress_Bar\<close>: tlfmt/progress.go.

  Definitions have the names of the functions; a prefix tells apart the methods of the same name
  (\<open>pm_\<close> for PMap, \<open>st_\<close> for the store, \<open>sc_\<close> for the checksum, \<open>core_\<close> for Core, \<open>conn_\<close> for the buffered
  connection, \<open>client_\<close> for com.Conn, \<open>vs_\<close> for VirtualServer, \<open>sg_\<close> for ServerGroup, \<open>hb_\<close> for the
  heartbeater, \<open>com_\<close> for com.Server, \<open>server_\<close> for DBServer, \<open>dbc_\<close> for DBClient). Pointers are positions: a node of the timeout queue
  in its store, a server in the list of all servers ever added to the group.

  \<^bold>\<open>What is shown.\<close>

  \<^item> A chunk: \<open>Set\<close>, \<open>CAS\<close>, \<open>Del\<close> and \<open>Get\<close> implement a map with last-writer-wins updates on every branch, keep
    the representation invariant and return; the checksum is the sum over the live pairs;
    iteration visits each live pair once; closing and reopening loses nothing.
  \<^item> A server: a write is read back; servers that get the same writes in any order agree;
    the count and list of present chunks are right, and the operations return while the channel of the
    defragmenter has room; defragmentation keeps all pairs; a protection ends; concurrent calls do not deadlock, with one exception that is shown too.
  \<^item> The wire: messages are delivered as they were sent, whatever the pieces in which the bytes
    come; heartbeats round-trip; the queue of deadlines is ordered; the broker gives each request
    at most one result, and exactly one in the end.
  \<^item> The group: the two views of who holds which chunk agree after any history; the heartbeat returns
    and a silent server is declared dead; when nobody else releases, a chunk is given up only while all the holders on the releaser's list
    have it, whatever the other goroutines of all servers do meanwhile; a repair reaches every holder; stopping a server makes no listening loop panic.
  \<^item> Composition: the program started with \<open>-create\<close> becomes a well-formed server that processes every
    sequence of well-formed messages, with the transfers that they start and the work of its defragmenter in
    between; a heartbeat that goes through the listening loop, the packet and the UDP
    request makes the other server record exactly the chunks that are present; the requests of a
    transfer, processed by the other server, copy the chunk; a client's read returns the newest
    answer and repairs the others; clients agree on the master of a key.
  \<^item> Where the code does not do what it means to, a theorem shows the failure: the keys that \<open>Get\<close> never
    finds, the reader that reads for ever, the queue that loses its head, the chunks that \<open>Open\<close> does not count, the wake-up of the ticker that is lost for ever, the deadlock of
    repair and defragmentation, and the chunk that two concurrent releases lose. Lemmas beside the properties show more of
    them: the write of \<open>CAS\<close> that its comment rules out (\<open>cas_absent_half\<close>), the last copy that a releaser gives up when
    the holders left after its request was queued (\<open>release_last_copy\<close>), and the server that a
    transfer kills (\<open>transfer_kills\<close>).

  \<^bold>\<open>Bounds.\<close> Loops that are not over a list carry the number of steps they may still take, and are
  \<open>Loop\<close> when it runs out. The bounds are those after which the loop would repeat itself, so that
  \<open>Loop\<close> means that the code does not return: the number of buckets for probing and growth, one more than the
  length of the store in bytes for iteration and \<open>Open\<close>, since every record has at least one byte, one more than
  the number of nodes for the walk of \<open>push\<close>. A read into a full buffer is \<open>Loop\<close> at once. The
  properties show that \<open>Loop\<close> is not reached, or that it is. The recursion of the heartbeat's request is
  bounded by the number of machines of the network plus four; \<open>heartbeat_returns\<close> shows that this
  suffices for every endless sequence of outcomes, when the answers name only these machines and report no dead
  servers, and \<open>dead_news_loop\<close> that with news of dead servers no bound would. A send to a full channel (256
  operations of the defragmenter, the one operation of a buffered connection) is \<open>Loop\<close>: it does not return
  by itself. All other definitions are structurally recursive or have a termination proof.

  \<^bold>\<open>Parameters.\<close> What the code gets from elsewhere is an argument: the operating system's
  answers about files (\<open>os_env\<close>) and sockets (\<open>net_env\<close>), and the files themselves; whether a connection can be opened (\<open>dialer\<close>); the
  pieces in which bytes arrive and the outcomes of writes (fields of \<open>conn\<close>); the machines of the network
  and the outcomes of the heartbeat's requests, an endless stream (\<open>hb_net\<close>); the answers of other servers to requests; the encoder and decoder of
  encoding/json; the random choices; and the clock.

  \<^bold>\<open>Not modelled.\<close> Profiling and the log file of treeless.go, the text of a progress line (a percentage in
  floating-point numbers) and logging do not change the state of the program; the test harness (testing) is not
  part of it. The waiting times between turns of the background goroutines do not change any state,
  and that of the rebalancer is a floating-point formula. Goroutines interleave at their critical
  sections, in the broker, the buffered connection, the listening loops, the releasers and the mutexes of the
  core; the mutexes of the other components guard single steps of the model, and data races
  outside of them are not part of it. A listener fails only once it is closed: on another error of the
  system the loops of com/comserver.go panic by design. The \<open>Rebalancer\<close> type and
  \<open>getFreeDiskSpace\<close> of dist/rebalance are not used by the program.
\<close>

end
